(* ===== verification/Prelude.thy ===== *)
theory Prelude
  imports Main "HOL-Library.Word" "HOL-Library.List_Lexorder" "HOL-Library.Sublist"
begin

text \<open>
  Shared vocabulary of the development: the machine types, the crate's error enum
  (\<open>src/error.rs\<close>), the result type and its sequencing operator (the Rust question mark),
  byte codecs for fixed-width integers, and generic facts on byte strings and their
  lexicographic order.

  A Rust \<open>Result<T>\<close> is a sum \<open>error + 'a\<close> with \<open>Inl\<close> for \<open>Err\<close>; a panic (a failed
  \<open>assert!\<close>, \<open>expect\<close> or \<open>unreachable!\<close>) is the extra error \<open>Panic\<close>.
  Byte slices are lists of 8-bit words, ordered lexicographically by unsigned bytes, which is
  Rust's \<open>Ord\<close> on slices.  Machine integers keep their width.
\<close>

unbundle bit_operations_syntax

named_theorems result_simps \<open>sequencing of results\<close>
named_theorems codec_simps \<open>round trips of the byte codecs\<close>

type_synonym byte = "8 word"
type_synonym bytes = "byte list"
type_synonym u16 = "16 word"
type_synonym u32 = "32 word"
type_synonym u64 = "64 word"

text \<open>An \<open>i64\<close> is a 64-bit word read with \<^term>\<open>sint\<close>; its order is the signed one.\<close>

type_synonym i64 = "64 word"

type_synonym seqno = u64

text \<open>A Rust string is the list of Unicode scalar values that \<open>chars()\<close> yields.\<close>

type_synonym rstr = "nat list"

section \<open>Errors\<close>

datatype io_kind = UnexpectedEof | OtherIo | AlreadyExists | NotFound | HardwareIo

datatype compression_type = CompressionNone | Lz4

datatype value_type = Value | Tombstone | WeakTombstone | Indirection

datatype recovery_error = InsufficientLength | TooManyItems | ChecksumMismatch | InvalidFileName

datatype format_version = V1 | V2 | V3

text \<open>\<open>lsm_tree::Error\<close> belongs to the storage engine; only the cases the crate builds or
  inspects are named.\<close>

datatype lsm_error = LsmInvalidTag "string \<times> byte" | LsmUnrecoverable | LsmIo io_kind | LsmOther

datatype error =
    Storage lsm_error
  | Io io_kind
  | JournalRecovery recovery_error
  | InvalidVersion "format_version option"
  | Decompress compression_type
  | InvalidTrailer
  | InvalidTag "string \<times> byte"
  | InvalidCompositeKey string
  | InvalidVisibilityExpression string
  | MissingSecurityProvider string
  | AuthenticationDenied
  | PermissionDenied string
  | ReservedKeyspaceName
  | Crypto string
  | Audit string
  | InvalidPolicy string
  | Poisoned
  | KeyspaceDeleted
  | Locked
  | Unrecoverable
  | Panic string

type_synonym 'a result = "error + 'a"

section \<open>Sequencing results\<close>

definition bind_r :: "'e + 'a \<Rightarrow> ('a \<Rightarrow> 'e + 'b) \<Rightarrow> 'e + 'b" where
  "bind_r m f = (case m of Inl e \<Rightarrow> Inl e | Inr a \<Rightarrow> f a)"

definition map_r :: "('a \<Rightarrow> 'b) \<Rightarrow> 'e + 'a \<Rightarrow> 'e + 'b" where
  "map_r f m = (case m of Inl e \<Rightarrow> Inl e | Inr a \<Rightarrow> Inr (f a))"

definition map_err :: "('e \<Rightarrow> 'f) \<Rightarrow> 'e + 'a \<Rightarrow> 'f + 'a" where
  "map_err f m = (case m of Inl e \<Rightarrow> Inl (f e) | Inr a \<Rightarrow> Inr a)"

definition ok_or :: "'e \<Rightarrow> 'a option \<Rightarrow> 'e + 'a" where
  "ok_or e x = (case x of None \<Rightarrow> Inl e | Some a \<Rightarrow> Inr a)"

definition is_ok :: "'e + 'a \<Rightarrow> bool" where
  "is_ok m = (case m of Inl _ \<Rightarrow> False | Inr _ \<Rightarrow> True)"

definition is_err :: "'e + 'a \<Rightarrow> bool" where
  "is_err m = (case m of Inl _ \<Rightarrow> True | Inr _ \<Rightarrow> False)"

lemma bind_r_simps [simp, result_simps]:
  "bind_r (Inl e) f = Inl e"
  "bind_r (Inr a) f = f a"
  by (simp_all add: bind_r_def)

lemma map_r_simps [simp, result_simps]:
  "map_r f (Inl e) = Inl e"
  "map_r f (Inr a) = Inr (f a)"
  by (simp_all add: map_r_def)

lemma map_err_simps [simp, result_simps]:
  "map_err f (Inl e) = Inl (f e)"
  "map_err f (Inr a) = Inr a"
  by (simp_all add: map_err_def)

lemma map_err_eq_Inr [simp]: "map_err f m = Inr a \<longleftrightarrow> m = Inr a"
  by (cases m) auto

lemma map_err_eq_Inl: "map_err f m = Inl e \<longleftrightarrow> (\<exists>x. m = Inl x \<and> e = f x)"
  by (cases m) auto

lemma ok_or_simps [simp, result_simps]:
  "ok_or e None = Inl e"
  "ok_or e (Some a) = Inr a"
  by (simp_all add: ok_or_def)

lemma ok_or_eq_Inl: "ok_or e x = Inl f \<longleftrightarrow> x = None \<and> f = e"
  by (cases x) auto

lemma is_ok_simps [simp, result_simps]:
  "\<not> is_ok (Inl e)" "is_ok (Inr a)" "is_err (Inl e)" "\<not> is_err (Inr a)"
  by (simp_all add: is_ok_def is_err_def)

lemma bind_r_eq_Inr: "bind_r m f = Inr b \<longleftrightarrow> (\<exists>a. m = Inr a \<and> f a = Inr b)"
  by (cases m) auto

lemma bind_r_eq_Inl: "bind_r m f = Inl e \<longleftrightarrow> m = Inl e \<or> (\<exists>a. m = Inr a \<and> f a = Inl e)"
  by (cases m) auto

lemma map_r_eq_Inr: "map_r f m = Inr b \<longleftrightarrow> (\<exists>a. m = Inr a \<and> b = f a)"
  by (cases m) auto

lemma ok_or_eq_Inr [simp]: "ok_or e x = Inr a \<longleftrightarrow> x = Some a"
  by (cases x) auto

lemma map_r_eq_Inl: "map_r f m = Inl e \<longleftrightarrow> m = Inl e"
  by (cases m) auto

lemmas result_elims = bind_r_eq_Inr bind_r_eq_Inl map_r_eq_Inr map_r_eq_Inl map_err_eq_Inl ok_or_eq_Inl

section \<open>Fixed-width integers as bytes\<close>

fun nat_to_le :: "nat \<Rightarrow> nat \<Rightarrow> bytes" where
  "nat_to_le 0 v = []"
| "nat_to_le (Suc n) v = of_nat (v mod 256) # nat_to_le n (v div 256)"

fun le_to_nat :: "bytes \<Rightarrow> nat" where
  "le_to_nat [] = 0"
| "le_to_nat (b # bs) = unat b + 256 * le_to_nat bs"

definition nat_to_be :: "nat \<Rightarrow> nat \<Rightarrow> bytes" where
  "nat_to_be n v = rev (nat_to_le n v)"

definition be_to_nat :: "bytes \<Rightarrow> nat" where
  "be_to_nat bs = le_to_nat (rev bs)"

lemma length_nat_to_le [simp]: "length (nat_to_le n v) = n"
  by (induction n arbitrary: v) auto

lemma length_nat_to_be [simp]: "length (nat_to_be n v) = n"
  by (simp add: nat_to_be_def)

lemma unat_of_nat_byte: "unat (of_nat (v mod 256) :: byte) = v mod 256"
  by (simp add: unat_of_nat)

lemma le_to_nat_nat_to_le [simp, codec_simps]: "le_to_nat (nat_to_le n v) = v mod 256 ^ n"
proof (induction n arbitrary: v)
  case 0
  then show ?case by simp
next
  case (Suc n)
  have "v mod (256 * 256 ^ n) = 256 * (v div 256 mod 256 ^ n) + v mod 256"
    by (rule mod_mult2_eq)
  then show ?case
    using Suc by (simp add: unat_of_nat)
qed

lemma be_to_nat_nat_to_be [simp, codec_simps]: "be_to_nat (nat_to_be n v) = v mod 256 ^ n"
  by (simp add: be_to_nat_def nat_to_be_def)

lemma le_to_nat_less: "le_to_nat bs < 256 ^ length bs"
proof (induction bs)
  case Nil
  then show ?case by simp
next
  case (Cons b bs)
  have "unat b < 256"
    using unsigned_less [of b, where 'a=nat] by simp
  with Cons show ?case by simp
qed

lemma be_to_nat_less: "be_to_nat bs < 256 ^ length bs"
  using le_to_nat_less [of "rev bs"] by (simp add: be_to_nat_def)

lemma nat_to_le_le_to_nat [simp, codec_simps]: "length bs = n \<Longrightarrow> nat_to_le n (le_to_nat bs) = bs"
proof (induction bs arbitrary: n)
  case Nil
  then show ?case by simp
next
  case (Cons b bs)
  have b: "unat b < 256"
    using unsigned_less [of b, where 'a=nat] by simp
  then have "(unat b + 256 * le_to_nat bs) mod 256 = unat b"
    and "(unat b + 256 * le_to_nat bs) div 256 = le_to_nat bs"
    by simp_all
  with Cons show ?case by auto
qed

lemma nat_to_be_be_to_nat [simp, codec_simps]: "length bs = n \<Longrightarrow> nat_to_be n (be_to_nat bs) = bs"
  by (simp add: nat_to_be_def be_to_nat_def)

definition u16_to_le :: "u16 \<Rightarrow> bytes" where "u16_to_le w = nat_to_le 2 (unat w)"
definition u32_to_le :: "u32 \<Rightarrow> bytes" where "u32_to_le w = nat_to_le 4 (unat w)"
definition u64_to_le :: "u64 \<Rightarrow> bytes" where "u64_to_le w = nat_to_le 8 (unat w)"
definition u32_to_be :: "u32 \<Rightarrow> bytes" where "u32_to_be w = nat_to_be 4 (unat w)"
definition u64_to_be :: "u64 \<Rightarrow> bytes" where "u64_to_be w = nat_to_be 8 (unat w)"

definition u16_from_le :: "bytes \<Rightarrow> u16" where "u16_from_le bs = of_nat (le_to_nat bs)"
definition u32_from_le :: "bytes \<Rightarrow> u32" where "u32_from_le bs = of_nat (le_to_nat bs)"
definition u64_from_le :: "bytes \<Rightarrow> u64" where "u64_from_le bs = of_nat (le_to_nat bs)"
definition u32_from_be :: "bytes \<Rightarrow> u32" where "u32_from_be bs = of_nat (be_to_nat bs)"
definition u64_from_be :: "bytes \<Rightarrow> u64" where "u64_from_be bs = of_nat (be_to_nat bs)"

lemmas word_codec_defs =
  u16_to_le_def u32_to_le_def u64_to_le_def u32_to_be_def u64_to_be_def
  u16_from_le_def u32_from_le_def u64_from_le_def u32_from_be_def u64_from_be_def

lemma length_word_codecs [simp]:
  "length (u16_to_le a) = 2" "length (u32_to_le b) = 4" "length (u64_to_le c) = 8"
  "length (u32_to_be b) = 4" "length (u64_to_be c) = 8"
  by (simp_all add: word_codec_defs)

lemma unat_mod_width:
  "unat (a :: u16) mod 65536 = unat a"
  "unat (b :: u32) mod 4294967296 = unat b"
  "unat (c :: u64) mod 18446744073709551616 = unat c"
  using unsigned_less [of a, where 'a=nat] unsigned_less [of b, where 'a=nat] unsigned_less [of c, where 'a=nat] by simp_all

lemma word_codec_roundtrip [simp, codec_simps]:
  "u16_from_le (u16_to_le a) = a"
  "u32_from_le (u32_to_le b) = b"
  "u64_from_le (u64_to_le c) = c"
  "u32_from_be (u32_to_be b) = b"
  "u64_from_be (u64_to_be c) = c"
  by (simp_all add: word_codec_defs unat_mod_width)

lemma u64_from_be_inverse: "length bs = 8 \<Longrightarrow> u64_to_be (u64_from_be bs) = bs"
  using be_to_nat_less [of bs] by (simp add: word_codec_defs unat_of_nat)

text \<open>The same codecs by shifting words, which is how they are evaluated.\<close>

fun word_bytes :: "nat \<Rightarrow> 'a::len word \<Rightarrow> bytes" where
  "word_bytes 0 w = []"
| "word_bytes (Suc n) w = ucast w # word_bytes n (drop_bit 8 w)"

fun word_from_bytes :: "bytes \<Rightarrow> 'a::len word" where
  "word_from_bytes [] = 0"
| "word_from_bytes (b # bs) = ucast b + 256 * word_from_bytes bs"

lemma word_bytes_eq: "nat_to_le n (unat w) = word_bytes n w"
proof (induction n arbitrary: w)
  case (Suc n)
  have "(of_nat (unat w mod 256) :: byte) = ucast w"
    by (rule unsigned_word_eqI [where ?'a=nat]) (simp add: unat_of_nat unsigned_ucast_eq take_bit_eq_mod)
  moreover have "unat w div 256 = unat (drop_bit 8 w)"
  proof -
    have "unat (drop_bit 8 w) = drop_bit 8 (unat w)" by (simp only: unsigned_drop_bit_eq) (simp add: take_bit_nat_eq_self)
    then show ?thesis by (simp only: drop_bit_eq_div [of 8 "unat w"]) simp
  qed
  ultimately show ?case using Suc by simp
qed simp

lemma word_from_bytes_eq: "of_nat (le_to_nat bs) = word_from_bytes bs"
  by (induction bs) simp_all

lemma word_codec_code [code]:
  "u16_to_le a = word_bytes 2 a" "u32_to_le b = word_bytes 4 b" "u64_to_le c = word_bytes 8 c"
  "u32_to_be b = rev (word_bytes 4 b)" "u64_to_be c = rev (word_bytes 8 c)"
  "u16_from_le bs = word_from_bytes bs" "u32_from_le bs = word_from_bytes bs"
  "u64_from_le bs = word_from_bytes bs" "u32_from_be bs = word_from_bytes (rev bs)"
  "u64_from_be bs = word_from_bytes (rev bs)"
  by (simp_all add: word_codec_defs word_bytes_eq word_from_bytes_eq nat_to_be_def be_to_nat_def)

section \<open>The lexicographic order on byte strings\<close>

lemma less_append_left [simp]: "(xs @ ys < xs @ zs) = (ys < (zs :: bytes))"
  by (induction xs) auto

lemma less_append_right: "(xs :: bytes) < ys \<Longrightarrow> \<not> prefix xs ys \<Longrightarrow> xs @ us < ys @ vs"
proof (induction xs arbitrary: ys)
  case Nil
  then show ?case by simp
next
  case (Cons x xs)
  then show ?case by (cases ys) auto
qed

lemma le_to_nat_append: "le_to_nat (xs @ ys) = le_to_nat xs + 256 ^ length xs * le_to_nat ys"
  by (induction xs) (auto simp: algebra_simps)

lemma be_to_nat_Cons: "be_to_nat (b # bs) = unat b * 256 ^ length bs + be_to_nat bs"
  by (simp add: be_to_nat_def le_to_nat_append)

text \<open>Big-endian encodings of equal width order like the numbers they encode.\<close>

lemma be_less_iff: "length xs = length ys \<Longrightarrow> xs < ys \<longleftrightarrow> be_to_nat xs < be_to_nat ys"
proof (induction xs ys rule: list_induct2)
  case Nil
  then show ?case by simp
next
  case (Cons x xs y ys)
  let ?p = "256 ^ length xs :: nat"
  have lx: "be_to_nat xs < ?p" and ly: "be_to_nat ys < ?p"
    using be_to_nat_less [of xs] be_to_nat_less [of ys] Cons.hyps by simp_all
  have lt: "a * ?p + u < b * ?p + v" if "a < b" "u < ?p" for a b u v :: nat
  proof -
    have "a * ?p + u < Suc a * ?p" using that by simp
    also have "\<dots> \<le> b * ?p" using that by (intro mult_le_mono1) simp
    finally show ?thesis by simp
  qed
  consider "x < y" | "y < x" | "x = y" by (rule linorder_cases)
  then show ?case
  proof cases
    case 1
    then have "unat x < unat y" by (simp add: word_less_nat_alt)
    with 1 lt [of "unat x" "unat y" "be_to_nat xs" "be_to_nat ys"] lx Cons.hyps show ?thesis
      by (simp add: be_to_nat_Cons)
  next
    case 2
    then have "unat y < unat x" by (simp add: word_less_nat_alt)
    with 2 lt [of "unat y" "unat x" "be_to_nat ys" "be_to_nat xs"] ly Cons.hyps show ?thesis
      by (auto simp: be_to_nat_Cons)
  next
    case 3
    with Cons show ?thesis by (simp add: be_to_nat_Cons)
  qed
qed

lemma u64_to_be_less_iff: "u64_to_be a < u64_to_be b \<longleftrightarrow> a < b"
  by (simp add: be_less_iff u64_to_be_def unat_mod_width word_less_nat_alt)

lemma u64_to_be_inject [simp]: "u64_to_be a = u64_to_be b \<longleftrightarrow> a = b"
  by (metis word_codec_roundtrip(5))

section \<open>Saturating arithmetic\<close>

definition sat_sub :: "'a::len word \<Rightarrow> 'a word \<Rightarrow> 'a word" where
  "sat_sub a b = (if a < b then 0 else a - b)"

lemma sat_sub_le: "sat_sub a b \<le> a"
  by (auto simp: sat_sub_def not_less word_sub_le_iff)

section \<open>Signed order of 64-bit words\<close>

lemma top_bit: "bit (0x8000000000000000 :: u64) n \<longleftrightarrow> n = 63"
proof -
  have "(0x8000000000000000 :: u64) = 2 ^ 63" by simp
  then show ?thesis by (simp only: bit_exp_iff) auto
qed

lemma and_top: "\<not> bit a 63 \<Longrightarrow> a AND (0x8000000000000000::u64) = 0"
proof (rule bit_eqI)
  fix n assume "\<not> bit a 63"
  then show "bit (a AND (0x8000000000000000::u64)) n = bit 0 n"
    unfolding bit_and_iff top_bit by auto
qed

lemma xor_top: "a XOR 0x8000000000000000 = a + (0x8000000000000000::u64)"
proof (cases "bit a 63")
  case False
  then show ?thesis by (simp add: disjunctive_add_eq_xor and_top)
next
  case True
  let ?b = "a XOR 0x8000000000000000"
  have "\<not> bit ?b 63"
    unfolding bit_xor_iff top_bit using True by simp
  then have "?b AND 0x8000000000000000 = 0" by (rule and_top)
  then have "?b + 0x8000000000000000 = ?b XOR 0x8000000000000000"
    by (rule disjunctive_add_eq_xor)
  also have "\<dots> = a" by (simp add: xor.assoc)
  finally have "?b = a - 0x8000000000000000" by (metis add_diff_cancel_right')
  then show ?thesis by simp
qed

lemma uint_not: "uint (NOT (a::u64)) = 2 ^ 64 - 1 - uint a"
proof -
  have "NOT a = - 1 - a" by (simp add: not_eq_complement)
  moreover have "uint (- 1 - a) = uint (- 1 :: u64) - uint a"
    by (rule uint_minus_simple_alt [THEN iffD1]) (simp add: word_order.extremum)
  ultimately show ?thesis by (simp add: unsigned_minus_1_eq_mask mask_eq_exp_minus_1)
qed

lemma sint_top: "sint (a::u64) = uint (a + 0x8000000000000000) - 2 ^ 63"
  by (simp add: sint_uint signed_take_bit_eq_take_bit_shift uint_word_arith_bintrs)

text \<open>Flipping the sign bit turns the signed order into the unsigned one; complementing
  reverses it.\<close>

lemma not_xor_top_less:
  "NOT (a XOR 0x8000000000000000) < NOT (b XOR (0x8000000000000000 :: u64)) \<longleftrightarrow> sint b < sint a"
  by (simp only: word_less_def uint_not xor_top sint_top) simp

lemma unat_seqno_max: "unat (- 1 :: seqno) = 2 ^ 64 - 1"
  by (simp add: unsigned_minus_1_eq_mask mask_eq_exp_minus_1)

lemma unat_Suc_seqno: "s \<noteq> - 1 \<Longrightarrow> unat (s + 1) = Suc (unat (s :: seqno))"
  using unatSuc [of s] by (auto simp: add.commute add_eq_0_iff)

lemma plus_one_le_seqno:
  assumes "i \<noteq> - 1"
  shows "i + 1 \<le> ts \<longleftrightarrow> i < (ts :: u64)"
proof -
  have "1 + i \<noteq> 0" using assms by (auto simp: add_eq_0_iff)
  then have "unat (i + 1) = Suc (unat i)" using unatSuc [of i] by (simp add: add.commute)
  then show ?thesis by (simp add: word_le_nat_alt word_less_nat_alt Suc_le_eq)
qed

lemma byte_gt_one: "b \<noteq> 0 \<Longrightarrow> b \<noteq> 1 \<Longrightarrow> 1 < (b :: byte)"
  by unat_arith

section \<open>UTF-8\<close>

text \<open>The encoder behind \<open>str::as_bytes\<close> and the validating decoder behind
  \<open>std::str::from_utf8\<close>: overlong forms, surrogates and values above 0x10FFFF are refused.\<close>

definition utf8_char :: "nat \<Rightarrow> bytes" where
  "utf8_char c =
     (if c < 0x80 then [of_nat c]
      else if c < 0x800 then [of_nat (0xC0 + c div 64), of_nat (0x80 + c mod 64)]
      else if c < 0x10000 then
        [of_nat (0xE0 + c div 4096), of_nat (0x80 + c div 64 mod 64), of_nat (0x80 + c mod 64)]
      else
        [of_nat (0xF0 + c div 262144), of_nat (0x80 + c div 4096 mod 64),
         of_nat (0x80 + c div 64 mod 64), of_nat (0x80 + c mod 64)])"

definition utf8_encode :: "rstr \<Rightarrow> bytes" where
  "utf8_encode s = concat (map utf8_char s)"

definition utf8_cont :: "byte \<Rightarrow> bool" where
  "utf8_cont b = (0x80 \<le> b \<and> b \<le> 0xBF)"

definition utf8_value :: "bytes \<Rightarrow> nat" where
  "utf8_value bs = foldl (\<lambda>acc b. acc * 64 + (unat b - 0x80)) 0 bs"

fun utf8_decode :: "bytes \<Rightarrow> rstr option" where
  "utf8_decode [] = Some []"
| "utf8_decode (a # bs) =
     (if a < 0x80 then map_option (Cons (unat a)) (utf8_decode bs)
      else case bs of
        [] \<Rightarrow> None
      | b # cs \<Rightarrow>
        (if 0xC2 \<le> a \<and> a \<le> 0xDF then
           (if utf8_cont b
            then map_option (Cons ((unat a - 0xC0) * 64 + utf8_value [b])) (utf8_decode cs)
            else None)
         else case cs of
           [] \<Rightarrow> None
         | c # ds \<Rightarrow>
           (if 0xE0 \<le> a \<and> a \<le> 0xEF then
              (if utf8_cont b \<and> utf8_cont c \<and> (a = 0xE0 \<longrightarrow> 0xA0 \<le> b) \<and> (a = 0xED \<longrightarrow> b \<le> 0x9F)
               then map_option (Cons ((unat a - 0xE0) * 4096 + utf8_value [b, c])) (utf8_decode ds)
               else None)
            else case ds of
              [] \<Rightarrow> None
            | d # es \<Rightarrow>
              (if 0xF0 \<le> a \<and> a \<le> 0xF4 \<and> utf8_cont b \<and> utf8_cont c \<and> utf8_cont d
                  \<and> (a = 0xF0 \<longrightarrow> 0x90 \<le> b) \<and> (a = 0xF4 \<longrightarrow> b \<le> 0x8F)
               then map_option (Cons ((unat a - 0xF0) * 262144 + utf8_value [b, c, d])) (utf8_decode es)
               else None))))"

lemma utf8_encode_simps [simp]:
  "utf8_encode [] = []"
  "utf8_encode (c # s) = utf8_char c @ utf8_encode s"
  by (simp_all add: utf8_encode_def)

definition is_ascii :: "rstr \<Rightarrow> bool" where
  "is_ascii s = (\<forall>c\<in>set s. c < 128)"

lemma utf8_decode_encode_ascii: "is_ascii s \<Longrightarrow> utf8_decode (utf8_encode s) = Some s"
proof (induction s)
  case Nil
  then show ?case by simp
next
  case (Cons c s)
  then have "c < 128" by (simp add: is_ascii_def)
  then have "(of_nat c :: byte) < 0x80" and "unat (of_nat c :: byte) = c"
    by (simp_all add: word_less_nat_alt unat_of_nat)
  with Cons \<open>c < 128\<close> show ?case by (simp add: utf8_char_def is_ascii_def)
qed

text \<open>Every string of Unicode scalar values reads back.\<close>

definition is_scalar :: "nat \<Rightarrow> bool" where
  "is_scalar c = (c < 0x110000 \<and> \<not> (0xD800 \<le> c \<and> c \<le> 0xDFFF))"

lemma utf8_value_simps: "utf8_value [b] = unat b - 0x80" "utf8_value [b, c] = (unat b - 0x80) * 64 + (unat c - 0x80)"
  "utf8_value [b, c, d] = ((unat b - 0x80) * 64 + (unat c - 0x80)) * 64 + (unat d - 0x80)"
  by (simp_all add: utf8_value_def)

lemma byte_of_nat: "n < 256 \<Longrightarrow> unat (of_nat n :: byte) = n"
  by (simp add: unat_of_nat)

lemma utf8_cont_of_nat: "n < 64 \<Longrightarrow> utf8_cont (of_nat (0x80 + n))" "n < 64 \<Longrightarrow> unat (of_nat (0x80 + n) :: byte) - 0x80 = n"
  using byte_of_nat [of "0x80 + n"] by (simp_all add: utf8_cont_def word_le_nat_alt)

lemma mod_block: "q * 64 \<le> x \<Longrightarrow> x < q * 64 + r \<Longrightarrow> r \<le> 64 \<Longrightarrow> x mod 64 < (r :: nat)"
proof -
  assume a: "q * 64 \<le> x" "x < q * 64 + r" "r \<le> 64"
  then obtain y where y: "x = y + q * 64" by (metis add.commute le_Suc_ex)
  then have "x mod 64 = y" using a by simp
  then show ?thesis using a y by simp
qed

lemma split64: "c div 4096 = c div 64 div (64 :: nat)" "c div 262144 = c div 64 div 64 div (64 :: nat)"
  by (simp_all add: div_mult2_eq [symmetric])

lemma utf8_decode_char:
  assumes "is_scalar c"
  shows "utf8_decode (utf8_char c @ bs) = map_option (Cons c) (utf8_decode bs)"
proof -
  consider "c < 0x80" | "0x80 \<le> c" "c < 0x800" | "0x800 \<le> c" "c < 0x10000" | "0x10000 \<le> c" "c < 0x110000"
    using assms by (fastforce simp: is_scalar_def)
  then show ?thesis
  proof cases
    case 1
    then show ?thesis using byte_of_nat [of c] by (simp add: utf8_char_def word_less_nat_alt)
  next
    case 2
    let ?a = "of_nat (0xC0 + c div 64) :: byte" and ?b = "of_nat (0x80 + c mod 64) :: byte"
    have a: "unat ?a = 0xC0 + c div 64" by (rule byte_of_nat) (use 2 in simp)
    have b: "utf8_cont ?b" "unat ?b - 0x80 = c mod 64" using utf8_cont_of_nat [of "c mod 64"] by simp_all
    have "2 \<le> c div 64" "c div 64 < 32" using 2 by simp_all
    then have cmp: "\<not> ?a < 0x80" "0xC2 \<le> ?a" "?a \<le> 0xDF" using a by (simp_all add: word_less_nat_alt word_le_nat_alt)
    have char: "utf8_char c = [?a, ?b]" using 2 unfolding utf8_char_def by simp
    show ?thesis unfolding char using cmp b a by (simp add: utf8_value_simps del: of_nat_add)
  next
    case 3
    let ?a = "of_nat (0xE0 + c div 4096) :: byte" and ?b = "of_nat (0x80 + c div 64 mod 64) :: byte" and ?c = "of_nat (0x80 + c mod 64) :: byte"
    have d: "c div 4096 < 16" using 3 by simp
    have a: "unat ?a = 0xE0 + c div 4096" by (rule byte_of_nat) (use d in simp)
    have b: "utf8_cont ?b" "unat ?b - 0x80 = c div 64 mod 64" "unat ?b = 0x80 + c div 64 mod 64"
      using utf8_cont_of_nat [of "c div 64 mod 64"] byte_of_nat [of "0x80 + c div 64 mod 64"] by simp_all
    have e: "utf8_cont ?c" "unat ?c - 0x80 = c mod 64" using utf8_cont_of_nat [of "c mod 64"] by simp_all
    have cmp: "\<not> ?a < 0x80" "\<not> ?a \<le> 0xDF" "0xE0 \<le> ?a" "?a \<le> 0xEF"
      using a d by (simp_all add: word_less_nat_alt word_le_nat_alt)
    have lo: "0xA0 \<le> ?b" if "?a = 0xE0"
    proof -
      have "c div 4096 = 0" using a that by simp
      then have "32 \<le> c div 64" "c div 64 < 64" using 3 by simp_all
      then show ?thesis using b(3) by (simp add: word_le_nat_alt)
    qed
    have hi: "?b \<le> 0x9F" if "?a = 0xED"
    proof -
      have "c div 4096 = 13" using a that by simp
      then have "53248 \<le> c" "c < 57344" by simp_all
      then have "c < 0xD800" using assms by (simp add: is_scalar_def)
      then have "c div 64 < 864" "832 \<le> c div 64" using \<open>53248 \<le> c\<close> by simp_all
      then have "c div 64 mod 64 < 32" using mod_block [of 13 "c div 64" 32] by simp
      then show ?thesis using b(3) by (simp add: word_le_nat_alt)
    qed
    have char: "utf8_char c = [?a, ?b, ?c]" using 3 unfolding utf8_char_def by simp
    have sum: "c div 4096 * 4096 + (c div 64 mod 64 * 64 + c mod 64) = c"
      using div_mult_mod_eq [of c 64] div_mult_mod_eq [of "c div 64" 64] unfolding split64 distrib_right by linarith
    show ?thesis unfolding char using cmp b e a lo hi sum by (simp add: utf8_value_simps del: of_nat_add)
  next
    case 4
    let ?a = "of_nat (0xF0 + c div 262144) :: byte" and ?b = "of_nat (0x80 + c div 4096 mod 64) :: byte"
      and ?c = "of_nat (0x80 + c div 64 mod 64) :: byte" and ?d = "of_nat (0x80 + c mod 64) :: byte"
    have q: "c div 262144 < 5" using 4 by simp
    have a: "unat ?a = 0xF0 + c div 262144" by (rule byte_of_nat) (use q in simp)
    have b: "utf8_cont ?b" "unat ?b - 0x80 = c div 4096 mod 64" "unat ?b = 0x80 + c div 4096 mod 64"
      using utf8_cont_of_nat [of "c div 4096 mod 64"] byte_of_nat [of "0x80 + c div 4096 mod 64"] by simp_all
    have e: "utf8_cont ?c" "unat ?c - 0x80 = c div 64 mod 64" using utf8_cont_of_nat [of "c div 64 mod 64"] by simp_all
    have g: "utf8_cont ?d" "unat ?d - 0x80 = c mod 64" using utf8_cont_of_nat [of "c mod 64"] by simp_all
    have cmp: "\<not> ?a < 0x80" "\<not> ?a \<le> 0xDF" "\<not> ?a \<le> 0xEF" "0xF0 \<le> ?a" "?a \<le> 0xF4"
      using a q by (simp_all add: word_less_nat_alt word_le_nat_alt)
    have lo: "0x90 \<le> ?b" if "?a = 0xF0"
    proof -
      have "c div 262144 = 0" using a that by simp
      then have "16 \<le> c div 4096" "c div 4096 < 64" using 4 by simp_all
      then show ?thesis using b(3) by (simp add: word_le_nat_alt)
    qed
    have hi: "?b \<le> 0x8F" if "?a = 0xF4"
    proof -
      have "c div 262144 = 4" using a that by simp
      then have "256 \<le> c div 4096" "c div 4096 < 272" using 4 by simp_all
      then have "c div 4096 mod 64 < 16" using mod_block [of 4 "c div 4096" 16] by simp
      then show ?thesis using b(3) by (simp add: word_le_nat_alt)
    qed
    have char: "utf8_char c = [?a, ?b, ?c, ?d]" using 4 unfolding utf8_char_def by simp
    have sum: "c div 262144 * 262144 + ((c div 4096 mod 64 * 64 + c div 64 mod 64) * 64 + c mod 64) = c"
      using div_mult_mod_eq [of c 64] div_mult_mod_eq [of "c div 64" 64] div_mult_mod_eq [of "c div 64 div 64" 64] unfolding split64 distrib_right by linarith
    show ?thesis unfolding char using cmp b e g a lo hi sum by (simp add: utf8_value_simps del: of_nat_add)
  qed
qed

lemma utf8_decode_encode: "list_all is_scalar s \<Longrightarrow> utf8_decode (utf8_encode s) = Some s"
  by (induction s) (simp_all add: utf8_decode_char)

text \<open>A string literal of the source.\<close>

definition str :: "string \<Rightarrow> rstr" where
  "str s = map of_char s"

section \<open>Ranges\<close>

text \<open>\<open>std::ops::Bound\<close> and \<open>RangeBounds::contains\<close>.\<close>

datatype 'a bound = Included 'a | Excluded 'a | Unbounded

fun above_start :: "bytes bound \<Rightarrow> bytes \<Rightarrow> bool" where
  "above_start (Included s) k = (s \<le> k)"
| "above_start (Excluded s) k = (s < k)"
| "above_start Unbounded k = True"

fun below_end :: "bytes bound \<Rightarrow> bytes \<Rightarrow> bool" where
  "below_end (Included e) k = (k \<le> e)"
| "below_end (Excluded e) k = (k < e)"
| "below_end Unbounded k = True"

definition in_range :: "bytes bound \<times> bytes bound \<Rightarrow> bytes \<Rightarrow> bool" where
  "in_range r k = (above_start (fst r) k \<and> below_end (snd r) k)"

section \<open>Ordered maps and sets\<close>

text \<open>\<open>BTreeMap\<close> as an association list in ascending key order, \<open>BTreeSet\<close> as an ascending
  list.\<close>

fun btree_insert :: "'k::linorder \<Rightarrow> 'v \<Rightarrow> ('k \<times> 'v) list \<Rightarrow> ('k \<times> 'v) list" where
  "btree_insert k v [] = [(k, v)]"
| "btree_insert k v ((k', v') # m) =
     (if k < k' then (k, v) # (k', v') # m
      else if k = k' then (k, v) # m
      else (k', v') # btree_insert k v m)"

definition btree_ok :: "('k::linorder \<times> 'v) list \<Rightarrow> bool" where
  "btree_ok m = sorted_wrt (<) (map fst m)"

definition btset_insert :: "'a::linorder \<Rightarrow> 'a list \<Rightarrow> 'a list" where
  "btset_insert x xs = (if x \<in> set xs then xs else insort x xs)"

lemma map_of_btree_insert [simp]: "map_of (btree_insert k v m) = (map_of m)(k \<mapsto> v)"
  by (induction m) (auto simp: fun_eq_iff)

lemma keys_btree_insert: "fst ` set (btree_insert k v m) = insert k (fst ` set m)"
  by (simp flip: dom_map_of_conv_image_fst)

lemma btree_ok_insert [simp]: "btree_ok m \<Longrightarrow> btree_ok (btree_insert k v m)"
proof (induction m)
  case (Cons e m)
  have "fst ` set (btree_insert k v m) = insert k (fst ` set m)"
    by (rule keys_btree_insert)
  with Cons show ?case by (cases e) (force simp: btree_ok_def)
qed (simp add: btree_ok_def)

lemma btree_ok_Nil [simp]: "btree_ok []"
  by (simp add: btree_ok_def)

lemma btree_ok_filter [simp]: "btree_ok m \<Longrightarrow> btree_ok (filter P m)"
  by (simp add: btree_ok_def sorted_wrt_map sorted_wrt_filter)

lemma btree_ok_distinct: "btree_ok m \<Longrightarrow> distinct (map fst m)"
  unfolding btree_ok_def by (simp add: strict_sorted_iff)

lemma btree_ok_map_of: "btree_ok m \<Longrightarrow> map_of m k = Some v \<longleftrightarrow> (k, v) \<in> set m"
  using btree_ok_distinct by (metis map_of_eq_Some_iff)

lemma in_btree_insert:
  "e \<in> set (btree_insert k v m) \<Longrightarrow> e = (k, v) \<or> e \<in> set m"
  "(k, v) \<in> set (btree_insert k v m)"
  "e \<in> set m \<Longrightarrow> fst e \<noteq> k \<Longrightarrow> e \<in> set (btree_insert k v m)"
  by (induction m) (auto split: if_splits)

lemma set_btset_insert [simp]: "set (btset_insert x xs) = insert x (set xs)"
  by (auto simp: btset_insert_def set_insort_key)

section \<open>Interfaces of codecs\<close>

text \<open>A fallible encoder with its decoder: what was encoded decodes to the same value.\<close>

locale result_codec =
  fixes enc :: "'a \<Rightarrow> 'e + 'b"
    and dec :: "'b \<Rightarrow> 'e + 'a"
  assumes dec_enc: "enc x = Inr b \<Longrightarrow> dec b = Inr x"
begin

lemma enc_inject: "enc x = Inr b \<Longrightarrow> enc y = Inr b \<Longrightarrow> x = y"
  using dec_enc [of x b] dec_enc [of y b] by simp

lemma enc_eq_iff: "enc x = Inr b \<Longrightarrow> enc y = Inr c \<Longrightarrow> b = c \<longleftrightarrow> x = y"
  using enc_inject by auto

end

text \<open>A codec whose decoder accepts only what the encoder produces, up to a size condition.\<close>

locale canonical_codec = result_codec +
  fixes fits :: "'b \<Rightarrow> bool"
  assumes enc_dec: "dec b = Inr x \<Longrightarrow> fits b \<Longrightarrow> enc x = Inr b"
begin

lemma dec_inject: "dec b = Inr x \<Longrightarrow> dec c = Inr x \<Longrightarrow> fits b \<Longrightarrow> fits c \<Longrightarrow> b = c"
  using enc_dec [of b x] enc_dec [of c x] by simp

lemma dec_iff: "fits b \<Longrightarrow> dec b = Inr x \<longleftrightarrow> enc x = Inr b"
  using enc_dec dec_enc by blast

end

text \<open>A codec on streams: the decoder returns the bytes it did not consume, and fails on every
  strict prefix of an encoding.\<close>

locale stream_codec =
  fixes enc :: "'a \<Rightarrow> bytes"
    and dec :: "bytes \<Rightarrow> 'e + ('a \<times> bytes)"
    and valid :: "'a \<Rightarrow> bool"
  assumes dec_append: "valid x \<Longrightarrow> dec (enc x @ rest) = Inr (x, rest)"
    and dec_short: "valid x \<Longrightarrow> strict_prefix p (enc x) \<Longrightarrow> is_err (dec p)"
begin

lemma enc_append_inject:
  "valid x \<Longrightarrow> valid y \<Longrightarrow> enc x @ r = enc y @ s \<longleftrightarrow> x = y \<and> r = s"
  by (metis Pair_inject dec_append sum.inject(2))

lemma enc_not_prefix: "valid x \<Longrightarrow> valid y \<Longrightarrow> prefix (enc x) (enc y) \<Longrightarrow> x = y"
  using enc_append_inject [of x y _ "[]"] by (metis append_Nil2 prefixE)

end

text \<open>A stream codec whose decoder accepts encodings only; failing on strict prefixes follows.\<close>

locale exact_stream_codec =
  fixes enc :: "'a \<Rightarrow> bytes"
    and dec :: "bytes \<Rightarrow> 'e + ('a \<times> bytes)"
    and valid :: "'a \<Rightarrow> bool"
  assumes append: "valid x \<Longrightarrow> dec (enc x @ rest) = Inr (x, rest)"
    and exact: "dec bs = Inr (x, rest) \<Longrightarrow> valid x \<and> bs = enc x @ rest"
begin

lemma short:
  assumes "valid x" "strict_prefix p (enc x)"
  shows "is_err (dec p)"
proof (cases "dec p")
  case (Inr z)
  obtain y r where z: "z = (y, r)" by (cases z)
  from exact [OF Inr [unfolded z]] have y: "valid y" "p = enc y @ r" by simp_all
  from assms(2) obtain s where s: "enc x = p @ s" "s \<noteq> []"
    by (metis append_Nil2 prefixE strict_prefix_def)
  have "dec (enc x) = Inr (x, [])"
    using append [OF assms(1), of "[]"] by simp
  moreover have "dec (enc x) = Inr (y, r @ s)"
    using append [OF y(1), of "r @ s"] s(1) y(2) by simp
  ultimately show ?thesis using s(2) by simp
qed simp

end

sublocale exact_stream_codec \<subseteq> stream_codec
  by unfold_locales (auto simp: append short)

section \<open>Decoders that read a stream\<close>

text \<open>A decoder is local when its result depends only on the bytes it consumed; a sequence of
  local decoders is local.\<close>

definition local_dec :: "(bytes \<Rightarrow> 'e + ('a \<times> bytes)) \<Rightarrow> bool" where
  "local_dec dec = (\<forall>bs x r. dec bs = Inr (x, r) \<longrightarrow> (\<exists>v. bs = v @ r \<and> (\<forall>z. dec (v @ z) = Inr (x, z))))"

lemma local_decD:
  assumes "local_dec dec" "dec bs = Inr (x, r)"
  obtains v where "bs = v @ r" "\<And>z. dec (v @ z) = Inr (x, z)"
  using assms unfolding local_dec_def by blast

lemma local_dec_bind:
  assumes d: "local_dec d" and f: "\<And>x. local_dec (f x)"
  shows "local_dec (\<lambda>bs. bind_r (d bs) (\<lambda>(x, r). f x r))"
  unfolding local_dec_def
proof (intro allI impI)
  fix bs y r
  assume "bind_r (d bs) (\<lambda>(x, r). f x r) = Inr (y, r)"
  then obtain x t where dx: "d bs = Inr (x, t)" and fx: "f x t = Inr (y, r)"
    by (auto simp: bind_r_eq_Inr)
  from local_decD [OF d dx] obtain v where v: "bs = v @ t" "\<And>z. d (v @ z) = Inr (x, z)" by metis
  from local_decD [OF f fx] obtain w where w: "t = w @ r" "\<And>z. f x (w @ z) = Inr (y, z)" by metis
  have "bs = (v @ w) @ r" "\<forall>z. bind_r (d ((v @ w) @ z)) (\<lambda>(x, r). f x r) = Inr (y, z)"
    using v w by simp_all
  then show "\<exists>v. bs = v @ r \<and> (\<forall>z. bind_r (d (v @ z)) (\<lambda>(x, r). f x r) = Inr (y, z))" by blast
qed

lemma local_dec_return: "local_dec (\<lambda>bs. Inr (x, bs))"
  by (auto simp: local_dec_def)

lemma local_dec_fail: "local_dec (\<lambda>bs. Inl e)"
  by (simp add: local_dec_def)

lemma local_dec_map: "local_dec d \<Longrightarrow> local_dec (\<lambda>bs. map_r (\<lambda>(x, r). (g x, r)) (d bs))"
  by (fastforce simp: local_dec_def map_r_eq_Inr)

lemma local_dec_map_err: "local_dec d \<Longrightarrow> local_dec (\<lambda>bs. map_err f (d bs))"
  by (simp add: local_dec_def)

lemma local_dec_if: "local_dec f \<Longrightarrow> local_dec g \<Longrightarrow> local_dec (\<lambda>r. if b then f r else g r)"
  by (cases b) simp_all

lemma local_dec_bind_value: "(\<And>x. local_dec (f x)) \<Longrightarrow> local_dec (\<lambda>r. bind_r m (\<lambda>x. f x r))"
  by (cases m) (simp_all add: local_dec_fail)

text \<open>\<open>Read::read_exact\<close> and the \<open>byteorder\<close> readers on a buffer.\<close>

definition read_exact :: "nat \<Rightarrow> bytes \<Rightarrow> (bytes \<times> bytes) result" where
  "read_exact n bs = (if length bs < n then Inl (Io UnexpectedEof) else Inr (take n bs, drop n bs))"

definition read_u8 :: "bytes \<Rightarrow> (byte \<times> bytes) result" where
  "read_u8 bs = (case bs of [] \<Rightarrow> Inl (Io UnexpectedEof) | b # r \<Rightarrow> Inr (b, r))"

definition read_u16_le :: "bytes \<Rightarrow> (u16 \<times> bytes) result" where
  "read_u16_le bs = map_r (\<lambda>(x, r). (u16_from_le x, r)) (read_exact 2 bs)"

definition read_u32_le :: "bytes \<Rightarrow> (u32 \<times> bytes) result" where
  "read_u32_le bs = map_r (\<lambda>(x, r). (u32_from_le x, r)) (read_exact 4 bs)"

definition read_u64_le :: "bytes \<Rightarrow> (u64 \<times> bytes) result" where
  "read_u64_le bs = map_r (\<lambda>(x, r). (u64_from_le x, r)) (read_exact 8 bs)"

lemma local_read_exact: "local_dec (read_exact n)"
  unfolding local_dec_def
proof (intro allI impI)
  fix bs x r
  assume "read_exact n bs = Inr (x, r)"
  then have "bs = take n bs @ r" "\<forall>z. read_exact n (take n bs @ z) = Inr (x, z)"
    by (auto simp: read_exact_def split: if_splits)
  then show "\<exists>v. bs = v @ r \<and> (\<forall>z. read_exact n (v @ z) = Inr (x, z))" by blast
qed

lemma local_read_u8: "local_dec read_u8"
  by (auto simp: local_dec_def read_u8_def split: list.splits intro!: exI [of _ "[_]"])

lemma local_read_words: "local_dec read_u16_le" "local_dec read_u32_le" "local_dec read_u64_le"
  unfolding read_u16_le_def [abs_def] read_u32_le_def [abs_def] read_u64_le_def [abs_def]
  by (rule local_dec_map, rule local_read_exact)+

lemmas local_intros = local_read_exact local_read_u8 local_read_words local_dec_bind
  local_dec_return local_dec_fail local_dec_if local_dec_bind_value local_dec_map_err

lemma read_append [simp, codec_simps]:
  "length x = n \<Longrightarrow> read_exact n (x @ r) = Inr (x, r)"
  "read_u8 (b # r) = Inr (b, r)"
  "read_u16_le (u16_to_le h @ r) = Inr (h, r)"
  "read_u32_le (u32_to_le w @ r) = Inr (w, r)"
  "read_u64_le (u64_to_le l @ r) = Inr (l, r)"
  by (simp_all add: read_exact_def read_u8_def read_u16_le_def read_u32_le_def read_u64_le_def)

text \<open>A stream codec with a local decoder; failing on strict prefixes follows.\<close>

locale local_stream_codec =
  fixes enc :: "'a \<Rightarrow> bytes"
    and dec :: "bytes \<Rightarrow> 'e + ('a \<times> bytes)"
    and valid :: "'a \<Rightarrow> bool"
  assumes append: "valid x \<Longrightarrow> dec (enc x @ rest) = Inr (x, rest)"
    and local: "local_dec dec"
begin

lemma consumed:
  assumes "valid x" "enc x = u @ w" "dec (u @ z) = Inr (y, r)"
  shows "w = [] \<or> length r \<le> length z"
proof (rule ccontr)
  assume neg: "\<not> (w = [] \<or> length r \<le> length z)"
  from local_decD [OF local assms(3)] obtain v where v: "u @ z = v @ r" "\<And>z. dec (v @ z) = Inr (y, z)"
    by metis
  with neg obtain t where t: "u = v @ t" "t \<noteq> []"
    by (auto simp: append_eq_append_conv2)
  then have "dec (enc x) = Inr (y, t @ w)"
    using v(2) [of "t @ w"] assms(2) by simp
  moreover have "dec (enc x) = Inr (x, [])"
    using append [OF assms(1), of "[]"] by simp
  ultimately show False using t(2) by simp
qed

lemma short:
  assumes "valid x" "strict_prefix p (enc x)"
  shows "is_err (dec p)"
proof (cases "dec p")
  case (Inr z)
  obtain y r where z: "z = (y, r)" by (cases z)
  from assms(2) obtain w where w: "enc x = p @ w" "w \<noteq> []"
    by (metis append_Nil2 prefixE strict_prefix_def)
  from local_decD [OF local Inr [unfolded z]] obtain v where v: "p = v @ r" "\<And>z. dec (v @ z) = Inr (y, z)"
    by metis
  have "dec (enc x) = Inr (y, r @ w)"
    using v(2) [of "r @ w"] w(1) v(1) by simp
  moreover have "dec (enc x) = Inr (x, [])"
    using append [OF assms(1), of "[]"] by simp
  ultimately show ?thesis using w(2) by simp
qed simp

end

sublocale local_stream_codec \<subseteq> stream_codec
  by unfold_locales (auto simp: append short)

interpretation u64_le: local_stream_codec u64_to_le read_u64_le "\<lambda>_. True"
  by unfold_locales (simp_all add: local_read_words)

interpretation u32_le: local_stream_codec u32_to_le read_u32_le "\<lambda>_. True"
  by unfold_locales (simp_all add: local_read_words)

end
