(* ===== verification/JournalEntry.thy ===== *)
theory JournalEntry
  imports Prelude
begin

text \<open>
  \<open>src/journal/entry.rs\<close>: the entries of the write-ahead journal and their byte codec.
  A batch is a start marker, items or clear markers, and an end marker with a checksum and a
  fixed trailer.

  What the codec takes from other crates is a parameter \<open>journal_env\<close>: the tags of value types
  and compression types, LZ4, \<open>Slice::from_reader\<close> and the XXH3 hash.  \<open>journal_env_ok\<close> names
  what the code relies on: tags and compressed values read back, readers are local, and a
  slice reader reads exactly the bytes asked for.  Length fields are truncated to their
  width as in the code; the debug assertion on uncompressed lengths is not part of a release
  build and not modelled.
\<close>

section \<open>Parameters\<close>

record journal_env =
  vt_to_u8 :: "value_type \<Rightarrow> byte"
  vt_from_u8 :: "byte \<Rightarrow> value_type option"
  comp_encode :: "compression_type \<Rightarrow> bytes"
  comp_decode :: "bytes \<Rightarrow> lsm_error + (compression_type \<times> bytes)"
  lz4_compress :: "bytes \<Rightarrow> bytes"
  lz4_decompress_into :: "bytes \<Rightarrow> nat \<Rightarrow> bytes option"
  slice_from_reader :: "nat \<Rightarrow> bytes \<Rightarrow> (bytes \<times> bytes) result"
  xxh3 :: "bytes \<Rightarrow> u64"

definition journal_env_ok :: "journal_env \<Rightarrow> bool" where
  "journal_env_ok env =
     ((\<forall>v. vt_from_u8 env (vt_to_u8 env v) = Some v) \<and>
      (\<forall>c r. comp_decode env (comp_encode env c @ r) = Inr (c, r)) \<and>
      local_dec (comp_decode env) \<and>
      (\<forall>v. lz4_decompress_into env (lz4_compress env v) (length v) = Some v) \<and>
      (\<forall>n bs. slice_from_reader env n bs = read_exact n bs))"

section \<open>Entries\<close>

definition MAGIC_BYTES :: bytes where
  "MAGIC_BYTES = [0x46, 0x4A, 0x4C, 3]"

datatype entry =
    Start u32 seqno
  | Item u64 bytes bytes value_type compression_type
  | End u64
  | Clear u64

datatype tag = TagStart | TagItem | TagEnd | TagClear

fun tag_to_u8 :: "tag \<Rightarrow> byte" where
  "tag_to_u8 TagStart = 1"
| "tag_to_u8 TagItem = 2"
| "tag_to_u8 TagEnd = 3"
| "tag_to_u8 TagClear = 4"

definition tag_try_from :: "byte \<Rightarrow> tag result" where
  "tag_try_from v =
     (if v = 1 then Inr TagStart
      else if v = 2 then Inr TagItem
      else if v = 3 then Inr TagEnd
      else if v = 4 then Inr TagClear
      else Inl (InvalidTag (''JournalMarkerTag'', v)))"

definition on_disk_value :: "journal_env \<Rightarrow> bytes \<Rightarrow> compression_type \<Rightarrow> bytes" where
  "on_disk_value env value compression =
     (case compression of CompressionNone \<Rightarrow> value | Lz4 \<Rightarrow> lz4_compress env value)"

definition serialize_marker_item ::
    "journal_env \<Rightarrow> u64 \<Rightarrow> bytes \<Rightarrow> bytes \<Rightarrow> value_type \<Rightarrow> compression_type \<Rightarrow> bytes" where
  "serialize_marker_item env keyspace_id key value vt compression =
     (let compressed_value = on_disk_value env value compression in
      [tag_to_u8 TagItem] @ [vt_to_u8 env vt] @ comp_encode env compression
      @ u64_to_le keyspace_id
      @ u16_to_le (of_nat (length key))
      @ u32_to_le (of_nat (length value))
      @ u32_to_le (of_nat (length compressed_value))
      @ key @ compressed_value)"

fun entry_encode :: "journal_env \<Rightarrow> entry \<Rightarrow> bytes" where
  "entry_encode env (Start count seqno) = [tag_to_u8 TagStart] @ u32_to_le count @ u64_to_le seqno"
| "entry_encode env (Item ks key value vt compression) =
     serialize_marker_item env ks key value vt compression"
| "entry_encode env (End checksum) = [tag_to_u8 TagEnd] @ u64_to_le checksum @ MAGIC_BYTES"
| "entry_encode env (Clear ks) = [tag_to_u8 TagClear] @ u64_to_le ks"

definition decode_value ::
    "journal_env \<Rightarrow> compression_type \<Rightarrow> nat \<Rightarrow> nat \<Rightarrow> bytes \<Rightarrow> (bytes \<times> bytes) result" where
  "decode_value env compression value_len on_disk_len bs =
     (case compression of
        CompressionNone \<Rightarrow> slice_from_reader env on_disk_len bs
      | Lz4 \<Rightarrow>
          bind_r (slice_from_reader env on_disk_len bs) (\<lambda>(compressed, r).
            case lz4_decompress_into env compressed value_len of
              None \<Rightarrow> Inl (Decompress Lz4)
            | Some value \<Rightarrow>
                if length value \<noteq> value_len then Inl (Decompress Lz4) else Inr (value, r)))"

definition decode_item :: "journal_env \<Rightarrow> bytes \<Rightarrow> (entry \<times> bytes) result" where
  "decode_item env bs =
     bind_r (read_u8 bs) (\<lambda>(vt_byte, r).
     bind_r (ok_or (Storage (LsmInvalidTag (''ValueType'', vt_byte))) (vt_from_u8 env vt_byte)) (\<lambda>vt.
     bind_r (map_err Storage (comp_decode env r)) (\<lambda>(compression, r).
     bind_r (read_u64_le r) (\<lambda>(ks, r).
     bind_r (read_u16_le r) (\<lambda>(key_len, r).
     bind_r (read_u32_le r) (\<lambda>(value_len, r).
     bind_r (read_u32_le r) (\<lambda>(on_disk_len, r).
     bind_r (slice_from_reader env (unat key_len) r) (\<lambda>(key, r).
     bind_r (decode_value env compression (unat value_len) (unat on_disk_len) r) (\<lambda>(value, r).
       Inr (Item ks key value vt compression, r))))))))))"

definition decode_end :: "bytes \<Rightarrow> (entry \<times> bytes) result" where
  "decode_end bs =
     bind_r (read_u64_le bs) (\<lambda>(checksum, r).
     bind_r (read_exact (length MAGIC_BYTES) r) (\<lambda>(magic, r).
       if magic \<noteq> MAGIC_BYTES then Inl InvalidTrailer else Inr (End checksum, r)))"

definition entry_decode :: "journal_env \<Rightarrow> bytes \<Rightarrow> (entry \<times> bytes) result" where
  "entry_decode env bs =
     bind_r (read_u8 bs) (\<lambda>(b, r).
     bind_r (tag_try_from b) (\<lambda>t.
       case t of
         TagStart \<Rightarrow>
           bind_r (read_u32_le r) (\<lambda>(count, r).
           bind_r (read_u64_le r) (\<lambda>(seqno, r). Inr (Start count seqno, r)))
       | TagItem \<Rightarrow> decode_item env r
       | TagEnd \<Rightarrow> decode_end r
       | TagClear \<Rightarrow> bind_r (read_u64_le r) (\<lambda>(ks, r). Inr (Clear ks, r))))"

text \<open>An item whose lengths fit their fields.\<close>

fun entry_fits :: "journal_env \<Rightarrow> entry \<Rightarrow> bool" where
  "entry_fits env (Item ks key value vt compression) =
     (length key < 2 ^ 16 \<and> length value < 2 ^ 32 \<and>
      length (on_disk_value env value compression) < 2 ^ 32)"
| "entry_fits env _ = True"

section \<open>The codec\<close>

lemma unat_of_nat_lengths:
  "n < 2 ^ 16 \<Longrightarrow> unat (of_nat n :: u16) = n"
  "n < 2 ^ 32 \<Longrightarrow> unat (of_nat n :: u32) = n"
  by (simp_all add: unat_of_nat)

lemma env_okD:
  assumes "journal_env_ok env"
  shows "vt_from_u8 env (vt_to_u8 env v) = Some v"
    and "comp_decode env (comp_encode env c @ r) = Inr (c, r)"
    and "local_dec (comp_decode env)"
    and "lz4_decompress_into env (lz4_compress env b) (length b) = Some b"
    and "slice_from_reader env = read_exact"
  using assms by (auto simp: journal_env_ok_def fun_eq_iff)

lemma decode_encode_item:
  assumes ok: "journal_env_ok env" and fits: "entry_fits env (Item ks key value vt c)"
  shows "entry_decode env (serialize_marker_item env ks key value vt c @ rest) =
    Inr (Item ks key value vt c, rest)"
proof -
  have "decode_value env c (length value) (length (on_disk_value env value c)) (on_disk_value env value c @ rest)
      = Inr (value, rest)"
    by (cases c) (simp_all add: decode_value_def on_disk_value_def env_okD [OF ok])
  with fits show ?thesis
    by (simp add: serialize_marker_item_def entry_decode_def decode_item_def tag_try_from_def
        unat_of_nat_lengths env_okD [OF ok] Let_def)
qed

lemma entry_decode_encode:
  assumes "journal_env_ok env" "entry_fits env e"
  shows "entry_decode env (entry_encode env e @ rest) = Inr (e, rest)"
  using assms
  by (cases e) (simp_all add: decode_encode_item, simp_all add: entry_decode_def decode_end_def tag_try_from_def)

lemma local_decode_value:
  assumes "journal_env_ok env"
  shows "local_dec (decode_value env c n m)"
proof (cases c)
  case CompressionNone
  then show ?thesis
    by (simp add: decode_value_def [abs_def] env_okD [OF assms] local_intros)
next
  case Lz4
  have "local_dec (\<lambda>r. case lz4_decompress_into env x n of None \<Rightarrow> Inl (Decompress Lz4)
      | Some value \<Rightarrow> if length value \<noteq> n then Inl (Decompress Lz4) else Inr (value, r))" for x
    by (cases "lz4_decompress_into env x n") (simp_all only: option.case local_intros)
  with Lz4 show ?thesis
    by (simp add: decode_value_def [abs_def] env_okD [OF assms])
      (intro local_dec_bind local_read_exact, simp)
qed

lemma local_entry_decode:
  assumes "journal_env_ok env"
  shows "local_dec (entry_decode env)"
proof -
  note loc = local_intros env_okD(3) [OF assms] local_decode_value [OF assms]
  have "local_dec (decode_item env)"
    unfolding decode_item_def [abs_def] env_okD(5) [OF assms] by (intro loc)
  moreover have "local_dec decode_end"
    unfolding decode_end_def [abs_def] by (intro loc)
  moreover have "local_dec (\<lambda>r. bind_r (read_u32_le r) (\<lambda>(count, r).
      bind_r (read_u64_le r) (\<lambda>(seqno, r). Inr (Start count seqno, r))))"
    by (intro loc)
  moreover have "local_dec (\<lambda>r. bind_r (read_u64_le r) (\<lambda>(ks, r). Inr (Clear ks, r)))"
    by (intro loc)
  ultimately have "local_dec (\<lambda>r. case t of
         TagStart \<Rightarrow>
           bind_r (read_u32_le r) (\<lambda>(count, r).
           bind_r (read_u64_le r) (\<lambda>(seqno, r). Inr (Start count seqno, r)))
       | TagItem \<Rightarrow> decode_item env r
       | TagEnd \<Rightarrow> decode_end r
       | TagClear \<Rightarrow> bind_r (read_u64_le r) (\<lambda>(ks, r). Inr (Clear ks, r)))" for t
    by (cases t) simp_all
  then show ?thesis
    unfolding entry_decode_def [abs_def] by (intro loc)
qed

lemma entry_decode_consumes:
  assumes "journal_env_ok env" "entry_decode env bs = Inr (e, r)"
  shows "length r < length bs"
proof -
  obtain v where v: "bs = v @ r" "\<And>z. entry_decode env (v @ z) = Inr (e, z)"
    using local_decD [OF local_entry_decode [OF assms(1)] assms(2)] by metis
  have "v \<noteq> []"
    using v(2) [of "[]"] by (auto simp: entry_decode_def read_u8_def)
  with v(1) show ?thesis by simp
qed

lemma read_errors:
  "read_u8 bs = Inl e \<Longrightarrow> e = Io UnexpectedEof"
  "read_exact n bs = Inl e \<Longrightarrow> e = Io UnexpectedEof"
  "read_u16_le bs = Inl e \<Longrightarrow> e = Io UnexpectedEof"
  "read_u32_le bs = Inl e \<Longrightarrow> e = Io UnexpectedEof"
  "read_u64_le bs = Inl e \<Longrightarrow> e = Io UnexpectedEof"
  by (auto simp: read_u8_def read_exact_def read_u16_le_def read_u32_le_def read_u64_le_def
      map_r_eq_Inl split: list.splits if_splits)

lemma decode_value_errors:
  "journal_env_ok env \<Longrightarrow> decode_value env c n m bs = Inl e \<Longrightarrow> e = Io UnexpectedEof \<or> e = Decompress Lz4"
  by (cases c) (auto simp: decode_value_def result_elims env_okD(5) dest: read_errors split: option.splits if_splits)

text \<open>Decoding fails with an end of file or a format error, never with another I/O error.\<close>

lemma entry_decode_errors:
  assumes "journal_env_ok env" "entry_decode env bs = Inl (Io k)"
  shows "k = UnexpectedEof"
proof -
  have "decode_item env r = Inl (Io k) \<Longrightarrow> k = UnexpectedEof" for r
    by (auto simp: decode_item_def result_elims env_okD(5) [OF assms(1)]
        dest!: read_errors decode_value_errors [OF assms(1)])
  moreover have "decode_end r = Inl (Io k) \<Longrightarrow> k = UnexpectedEof" for r
    by (auto simp: decode_end_def result_elims dest!: read_errors split: if_splits)
  ultimately show ?thesis
    using assms(2)
    by (auto simp: entry_decode_def result_elims tag_try_from_def dest!: read_errors split: tag.splits if_splits) (metis tag.exhaust)+
qed

lemma entry_encode_nonempty: "entry_encode env e \<noteq> []"
  by (cases e) (simp_all add: serialize_marker_item_def Let_def)

lemma entry_codec:
  "journal_env_ok env \<Longrightarrow> local_stream_codec (entry_encode env) (entry_decode env) (entry_fits env)"
  by unfold_locales (simp_all add: entry_decode_encode local_entry_decode)

section \<open>A concrete environment\<close>

text \<open>Tags of one byte, stored values as they are, and the sum of the bytes for the hash.\<close>

definition sample_env :: journal_env where
  "sample_env = \<lparr>
     vt_to_u8 = (\<lambda>v. case v of Value \<Rightarrow> 0 | Tombstone \<Rightarrow> 1 | WeakTombstone \<Rightarrow> 2 | Indirection \<Rightarrow> 4),
     vt_from_u8 = (\<lambda>b. if b = 0 then Some Value else if b = 1 then Some Tombstone
       else if b = 2 then Some WeakTombstone else if b = 4 then Some Indirection else None),
     comp_encode = (\<lambda>c. case c of CompressionNone \<Rightarrow> [0] | Lz4 \<Rightarrow> [1]),
     comp_decode = (\<lambda>bs. bind_r (map_err (\<lambda>_. LsmIo UnexpectedEof) (read_u8 bs)) (\<lambda>(b, r).
       if b = 0 then Inr (CompressionNone, r) else if b = 1 then Inr (Lz4, r)
       else Inl (LsmInvalidTag (''CompressionType'', b)))),
     lz4_compress = (\<lambda>v. v),
     lz4_decompress_into = (\<lambda>v n. if length v = n then Some v else None),
     slice_from_reader = read_exact,
     xxh3 = (\<lambda>bs. fold (\<lambda>b acc. acc + ucast b) bs 0)\<rparr>"

lemma sample_env_ok: "journal_env_ok sample_env"
proof -
  have "local_dec (\<lambda>bs. bind_r (map_err (\<lambda>_. LsmIo UnexpectedEof) (read_u8 bs)) (\<lambda>(b, r).
       if b = 0 then Inr (CompressionNone, r) else if b = 1 then Inr (Lz4, r)
       else Inl (LsmInvalidTag (''CompressionType'', b))))"
    by (intro local_intros)
  moreover have "vt_from_u8 sample_env (vt_to_u8 sample_env v) = Some v" for v
    by (cases v) (simp_all add: sample_env_def)
  moreover have "comp_decode sample_env (comp_encode sample_env c @ r) = Inr (c, r)" for c r
    by (cases c) (simp_all add: sample_env_def)
  ultimately show ?thesis
    by (simp add: journal_env_ok_def) (simp add: sample_env_def)
qed

section \<open>Properties\<close>

text \<open>C32: journal entries round trip on a stream.  An entry whose lengths fit their fields, written
  in front of any bytes, reads back as itself with those bytes left, compressed values
  included; and every strict prefix of it is refused.\<close>

theorem entry_roundtrip:
  assumes "journal_env_ok env" "entry_fits env e"
  shows "entry_decode env (entry_encode env e @ rest) = Inr (e, rest) \<and>
    (\<forall>p. strict_prefix p (entry_encode env e) \<longrightarrow> is_err (entry_decode env p))"
  using entry_decode_encode [OF assms] local_stream_codec.short [OF entry_codec [OF assms(1)] assms(2)]
  by blast

theorem entry_roundtrip_witness:
  "entry_decode sample_env (entry_encode sample_env (Item 7 [1, 2] [3] Value Lz4) @ [9]) =
     Inr (Item 7 [1, 2] [3] Value Lz4, [9]) \<and>
   is_err (entry_decode sample_env (butlast (entry_encode sample_env (Item 7 [1, 2] [3] Value Lz4))))"
proof -
  let ?e = "Item 7 [1, 2] [3] Value Lz4"
  have "entry_fits sample_env ?e" by (simp add: sample_env_def on_disk_value_def)
  note rt = entry_roundtrip [OF sample_env_ok this]
  have "strict_prefix (butlast xs) xs" if "xs \<noteq> []" for xs :: bytes
    using that by (metis append_butlast_last_id strict_prefixI' )
  then show ?thesis
    using rt entry_encode_nonempty by blast
qed

end
