(* ===== verification/JournalWriter.thy ===== *)
theory JournalWriter
  imports JournalEntry
begin

text \<open>
  \<open>src/journal/writer.rs\<close>: appending batches to the journal.  The writer's file is the byte
  string written so far, buffered bytes included; a new file is preallocated with zeros behind
  the write position, which \<open>journal_file\<close> adds.  Errors of the operating system are not
  modelled.
\<close>

datatype persist_mode = Buffer | SyncData | SyncAll

record batch_item =
  bi_keyspace :: u64
  bi_key :: bytes
  bi_value :: bytes
  bi_type :: value_type

text \<open>\<open>jw_synced\<close> is how much of the file an fsync has made durable, \<open>jw_flushed\<close> how much has
  left the buffer.\<close>

record journal_writer =
  jw_bytes :: bytes
  jw_is_buffer_dirty :: bool
  jw_flushed :: nat
  jw_synced :: nat
  jw_compression :: compression_type
  jw_compression_threshold :: nat

definition PRE_ALLOCATED_BYTES :: nat where
  "PRE_ALLOCATED_BYTES = 64 * 1024 * 1024"

definition writer_create_new :: journal_writer where
  "writer_create_new = \<lparr>jw_bytes = [], jw_is_buffer_dirty = False, jw_flushed = 0, jw_synced = 0,
     jw_compression = CompressionNone, jw_compression_threshold = 0\<rparr>"

definition writer_from_file :: "bytes option \<Rightarrow> journal_writer" where
  "writer_from_file file =
     (case file of
        None \<Rightarrow> writer_create_new
      | Some bs \<Rightarrow> writer_create_new\<lparr>jw_bytes := bs, jw_flushed := length bs, jw_synced := length bs\<rparr>)"

definition set_compression :: "compression_type \<Rightarrow> nat \<Rightarrow> journal_writer \<Rightarrow> journal_writer" where
  "set_compression c threshold w =
     w\<lparr>jw_compression := c, jw_compression_threshold := threshold\<rparr>"

definition writer_append :: "bytes \<Rightarrow> journal_writer \<Rightarrow> journal_writer" where
  "writer_append bs w = w\<lparr>jw_bytes := jw_bytes w @ bs\<rparr>"

definition persist :: "persist_mode \<Rightarrow> journal_writer \<Rightarrow> journal_writer" where
  "persist mode w =
     (let w1 = (if jw_is_buffer_dirty w
                then w\<lparr>jw_flushed := length (jw_bytes w), jw_is_buffer_dirty := False\<rparr> else w)
      in case mode of
           SyncAll \<Rightarrow> w1\<lparr>jw_synced := jw_flushed w1\<rparr>
         | SyncData \<Rightarrow> w1\<lparr>jw_synced := jw_flushed w1\<rparr>
         | Buffer \<Rightarrow> w1)"

definition write_start :: "journal_env \<Rightarrow> u32 \<Rightarrow> seqno \<Rightarrow> journal_writer \<Rightarrow> journal_writer \<times> nat" where
  "write_start env item_count seqno w =
     (let buf = entry_encode env (Start item_count seqno) in (writer_append buf w, length buf))"

definition write_end :: "journal_env \<Rightarrow> u64 \<Rightarrow> journal_writer \<Rightarrow> journal_writer \<times> nat" where
  "write_end env checksum w =
     (let buf = entry_encode env (End checksum) in (writer_append buf w, length buf))"

definition value_compression :: "journal_writer \<Rightarrow> bytes \<Rightarrow> compression_type" where
  "value_compression w value =
     (if jw_compression_threshold w > 0 \<and> length value \<ge> jw_compression_threshold w
      then jw_compression w else CompressionNone)"

definition write_raw ::
    "journal_env \<Rightarrow> u64 \<Rightarrow> bytes \<Rightarrow> bytes \<Rightarrow> value_type \<Rightarrow> seqno \<Rightarrow> journal_writer \<Rightarrow> journal_writer \<times> nat" where
  "write_raw env keyspace_id key value vt seqno w =
     (let w0 = w\<lparr>jw_is_buffer_dirty := True\<rparr>;
          (w1, n1) = write_start env 1 seqno w0;
          buf = serialize_marker_item env keyspace_id key value vt (value_compression w value);
          w2 = writer_append buf w1;
          checksum = xxh3 env buf;
          (w3, n3) = write_end env checksum w2
      in (w3, n1 + length buf + n3))"

definition write_clear :: "journal_env \<Rightarrow> u64 \<Rightarrow> seqno \<Rightarrow> journal_writer \<Rightarrow> journal_writer \<times> nat" where
  "write_clear env keyspace_id seqno w =
     (let w0 = w\<lparr>jw_is_buffer_dirty := True\<rparr>;
          (w1, n1) = write_start env 1 seqno w0;
          buf = entry_encode env (Clear keyspace_id);
          w2 = writer_append buf w1;
          checksum = xxh3 env buf;
          (w3, n3) = write_end env checksum w2
      in (w3, n1 + length buf + n3))"

text \<open>The item loop of \<open>write_batch\<close>: the writer, the bytes fed to the hasher and their count.\<close>

fun write_items ::
    "journal_env \<Rightarrow> batch_item list \<Rightarrow> journal_writer \<Rightarrow> bytes \<Rightarrow> nat \<Rightarrow> journal_writer \<times> bytes \<times> nat" where
  "write_items env [] w hashed n = (w, hashed, n)"
| "write_items env (item # items) w hashed n =
     (let buf = serialize_marker_item env (bi_keyspace item) (bi_key item) (bi_value item)
                  (bi_type item) (value_compression w (bi_value item))
      in write_items env items (writer_append buf w) (hashed @ buf) (n + length buf))"

definition write_batch ::
    "journal_env \<Rightarrow> batch_item list \<Rightarrow> nat \<Rightarrow> seqno \<Rightarrow> journal_writer \<Rightarrow> journal_writer \<times> nat" where
  "write_batch env items batch_size seqno w =
     (if batch_size = 0 then (w, 0)
      else
        let w0 = w\<lparr>jw_is_buffer_dirty := True\<rparr>;
            (w1, n1) = write_start env (of_nat batch_size) seqno w0;
            (w2, hashed, n2) = write_items env items w1 [] n1;
            (w3, n3) = write_end env (xxh3 env hashed) w2
        in (w3, n2 + n3))"

text \<open>What the file system holds: the bytes and the zeros of the preallocation.\<close>

definition journal_file :: "nat \<Rightarrow> journal_writer \<Rightarrow> bytes" where
  "journal_file padding w = jw_bytes w @ replicate padding 0"

section \<open>The bytes of a batch\<close>

text \<open>A written batch: its sequence number and its items or clear markers.\<close>

type_synonym wbatch = "seqno \<times> entry list"

definition payload :: "journal_env \<Rightarrow> entry list \<Rightarrow> bytes" where
  "payload env es = concat (map (entry_encode env) es)"

definition batch_entries :: "journal_env \<Rightarrow> wbatch \<Rightarrow> entry list" where
  "batch_entries env b =
     Start (of_nat (length (snd b))) (fst b) # snd b @ [End (xxh3 env (payload env (snd b)))]"

definition batch_bytes :: "journal_env \<Rightarrow> wbatch \<Rightarrow> bytes" where
  "batch_bytes env b = payload env (batch_entries env b)"

definition item_entry :: "journal_writer \<Rightarrow> batch_item \<Rightarrow> entry" where
  "item_entry w item = Item (bi_keyspace item) (bi_key item) (bi_value item) (bi_type item)
     (value_compression w (bi_value item))"

lemma payload_simps [simp]:
  "payload env [] = []"
  "payload env (e # es) = entry_encode env e @ payload env es"
  "payload env (es @ fs) = payload env es @ payload env fs"
  by (simp_all add: payload_def)

lemma writer_append_simps [simp]:
  "jw_bytes (writer_append bs w) = jw_bytes w @ bs"
  "value_compression (writer_append bs w) = value_compression w"
  "value_compression (w\<lparr>jw_is_buffer_dirty := d\<rparr>) = value_compression w"
  by (simp_all add: writer_append_def value_compression_def fun_eq_iff)

lemma writer_append_append [simp]: "writer_append b (writer_append a w) = writer_append (a @ b) w"
  by (simp add: writer_append_def)

lemma item_entry_append [simp]: "item_entry (writer_append bs w) = item_entry w"
  by (simp add: item_entry_def fun_eq_iff)

lemma write_items_eq:
  "write_items env items w hashed n =
    (writer_append (payload env (map (item_entry w) items)) w,
     hashed @ payload env (map (item_entry w) items),
     n + length (payload env (map (item_entry w) items)))"
proof (induction items arbitrary: w hashed n)
  case Nil
  then show ?case by (simp add: writer_append_def)
next
  case (Cons i items)
  have "item_entry w i = Item (bi_keyspace i) (bi_key i) (bi_value i) (bi_type i)
      (value_compression w (bi_value i))"
    by (simp add: item_entry_def)
  with Cons show ?case by (simp add: Let_def)
qed

lemma write_batch_eq:
  assumes "batch_size = length items" "items \<noteq> []"
  shows "write_batch env items batch_size seqno w =
    (writer_append (batch_bytes env (seqno, map (item_entry w) items)) (w\<lparr>jw_is_buffer_dirty := True\<rparr>),
     length (batch_bytes env (seqno, map (item_entry w) items)))"
proof -
  have "item_entry (w\<lparr>jw_is_buffer_dirty := True\<rparr>) = item_entry w"
    by (simp add: item_entry_def fun_eq_iff)
  then show ?thesis
    using assms
    by (simp add: write_batch_def write_start_def write_end_def Let_def write_items_eq
        batch_bytes_def batch_entries_def payload_def)
qed

lemma write_raw_eq:
  "write_raw env ks key value vt seqno w =
    (writer_append (batch_bytes env (seqno, [Item ks key value vt (value_compression w value)]))
       (w\<lparr>jw_is_buffer_dirty := True\<rparr>),
     length (batch_bytes env (seqno, [Item ks key value vt (value_compression w value)])))"
  by (simp add: write_raw_def write_start_def write_end_def Let_def batch_bytes_def batch_entries_def)

lemma write_clear_eq:
  "write_clear env ks seqno w =
    (writer_append (batch_bytes env (seqno, [Clear ks])) (w\<lparr>jw_is_buffer_dirty := True\<rparr>),
     length (batch_bytes env (seqno, [Clear ks])))"
  by (simp add: write_clear_def write_start_def write_end_def Let_def batch_bytes_def batch_entries_def)

end
