(* ===== verification/JournalReader.thy ===== *)
theory JournalReader
  imports JournalWriter
begin

text \<open>
  \<open>src/journal/reader.rs\<close> and \<open>src/journal/batch_reader.rs\<close>: reading a journal file back, entry
  by entry and batch by batch, and truncating it behind the last valid position.

  The file is its byte string; a reader is not used again after it has returned \<open>None\<close>.  The
  hasher's state is the bytes fed to it.  The reading loops carry fuel; two more than the length
  of the file is enough because every entry consumes a byte.
\<close>

section \<open>Entries\<close>

record journal_reader =
  jr_file :: bytes
  jr_last_valid_pos :: nat

definition reader_new :: "bytes \<Rightarrow> journal_reader" where
  "reader_new file = \<lparr>jr_file = file, jr_last_valid_pos = 0\<rparr>"

text \<open>\<open>File::set_len\<close>.\<close>

definition set_len :: "nat \<Rightarrow> bytes \<Rightarrow> bytes" where
  "set_len n bs = take n bs @ replicate (n - length bs) 0"

definition truncate_file :: "nat \<Rightarrow> journal_reader \<Rightarrow> journal_reader" where
  "truncate_file pos r = r\<lparr>jr_file := set_len pos (jr_file r)\<rparr>"

text \<open>A failed read has moved the stream past the last valid position unless nothing was left.\<close>

definition maybe_truncate_file_to_last_valid_pos :: "journal_reader \<Rightarrow> journal_reader" where
  "maybe_truncate_file_to_last_valid_pos r =
     (if drop (jr_last_valid_pos r) (jr_file r) \<noteq> [] then truncate_file (jr_last_valid_pos r) r else r)"

definition reader_next :: "journal_env \<Rightarrow> journal_reader \<Rightarrow> journal_reader \<times> entry result option" where
  "reader_next env r =
     (case entry_decode env (drop (jr_last_valid_pos r) (jr_file r)) of
        Inr (e, rest) \<Rightarrow>
          (r\<lparr>jr_last_valid_pos := length (jr_file r) - length rest\<rparr>, Some (Inr e))
      | Inl (Io k) \<Rightarrow>
          if k = UnexpectedEof \<or> k = OtherIo
          then (maybe_truncate_file_to_last_valid_pos r, None)
          else (r, Some (Inl (Io k)))
      | Inl e \<Rightarrow> (maybe_truncate_file_to_last_valid_pos r, None))"

section \<open>Batches\<close>

record read_batch =
  rb_seqno :: seqno
  rb_items :: "batch_item list"
  rb_cleared_keyspaces :: "u64 list"

record batch_reader =
  br_reader :: journal_reader
  br_items :: "batch_item list"
  br_cleared_keyspaces :: "u64 list"
  br_is_in_batch :: bool
  br_batch_counter :: u32
  br_batch_seqno :: seqno
  br_last_valid_pos :: nat
  br_hashed :: bytes

definition batch_reader_new :: "journal_reader \<Rightarrow> batch_reader" where
  "batch_reader_new r = \<lparr>br_reader = r, br_items = [], br_cleared_keyspaces = [], br_is_in_batch = False,
     br_batch_counter = 0, br_batch_seqno = 0, br_last_valid_pos = 0, br_hashed = []\<rparr>"

definition br_truncate_to :: "nat \<Rightarrow> batch_reader \<Rightarrow> batch_reader" where
  "br_truncate_to pos br = br\<lparr>br_reader := truncate_file pos (br_reader br)\<rparr>"

definition br_on_close :: "batch_reader \<Rightarrow> batch_reader" where
  "br_on_close br = (if br_is_in_batch br then br_truncate_to (br_last_valid_pos br) br else br)"

text \<open>One iteration of the loop of \<open>next\<close> on an entry: \<open>None\<close> continues, \<open>Some r\<close> returns \<open>r\<close>.\<close>

fun batch_step ::
    "journal_env \<Rightarrow> entry \<Rightarrow> batch_reader \<Rightarrow> batch_reader \<times> read_batch result option option" where
  "batch_step env (Start count seqno) br =
     (if br_is_in_batch br then (br_truncate_to (br_last_valid_pos br) br, Some None)
      else (br\<lparr>br_is_in_batch := True, br_batch_counter := count, br_batch_seqno := seqno\<rparr>, None))"
| "batch_step env (End expected) br =
     (if br_batch_counter br > 0 then (br, Some (Some (Inl (JournalRecovery InsufficientLength))))
      else if \<not> br_is_in_batch br then (br_truncate_to (br_last_valid_pos br) br, Some None)
      else if xxh3 env (br_hashed br) \<noteq> expected
        then (br\<lparr>br_hashed := []\<rparr>, Some (Some (Inl (JournalRecovery ChecksumMismatch))))
      else
        (br\<lparr>br_hashed := [], br_is_in_batch := False, br_batch_counter := 0,
            br_last_valid_pos := jr_last_valid_pos (br_reader br),
            br_items := [], br_cleared_keyspaces := []\<rparr>,
         Some (Some (Inr \<lparr>rb_seqno = br_batch_seqno br, rb_items = br_items br,
                          rb_cleared_keyspaces = br_cleared_keyspaces br\<rparr>))))"
| "batch_step env (Item ks key value vt compression) br =
     (let br1 = br\<lparr>br_hashed := br_hashed br @ entry_encode env (Item ks key value vt compression)\<rparr> in
      if \<not> br_is_in_batch br then (br_truncate_to (br_last_valid_pos br) br1, Some None)
      else if br_batch_counter br = 0 then (br1, Some (Some (Inl (JournalRecovery TooManyItems))))
      else (br1\<lparr>br_batch_counter := br_batch_counter br - 1,
                br_items := br_items br @ [\<lparr>bi_keyspace = ks, bi_key = key, bi_value = value, bi_type = vt\<rparr>]\<rparr>,
            None))"
| "batch_step env (Clear ks) br =
     (let br1 = br\<lparr>br_hashed := br_hashed br @ entry_encode env (Clear ks)\<rparr> in
      if \<not> br_is_in_batch br then (br_truncate_to (br_last_valid_pos br) br1, Some None)
      else if br_batch_counter br = 0 then (br1, Some (Some (Inl (JournalRecovery TooManyItems))))
      else (br1\<lparr>br_batch_counter := br_batch_counter br - 1,
                br_cleared_keyspaces := br_cleared_keyspaces br @ [ks]\<rparr>, None))"

fun batch_reader_next ::
    "nat \<Rightarrow> journal_env \<Rightarrow> batch_reader \<Rightarrow> (batch_reader \<times> read_batch result option) option" where
  "batch_reader_next 0 env br = None"
| "batch_reader_next (Suc fuel) env br =
     (case reader_next env (br_reader br) of
        (r, None) \<Rightarrow> Some (br_on_close (br\<lparr>br_reader := r\<rparr>), None)
      | (r, Some (Inl e)) \<Rightarrow> Some (br\<lparr>br_reader := r\<rparr>, Some (Inl e))
      | (r, Some (Inr entry)) \<Rightarrow>
          (case batch_step env entry (br\<lparr>br_reader := r\<rparr>) of
             (br', Some result) \<Rightarrow> Some (br', result)
           | (br', None) \<Rightarrow> batch_reader_next fuel env br'))"

text \<open>The recovery loop: batches until the reader ends or an error stops it.\<close>

fun read_batches ::
    "nat \<Rightarrow> nat \<Rightarrow> journal_env \<Rightarrow> batch_reader \<Rightarrow> (batch_reader \<times> read_batch list \<times> error option) option" where
  "read_batches 0 step_fuel env br = None"
| "read_batches (Suc fuel) step_fuel env br =
     (case batch_reader_next step_fuel env br of
        None \<Rightarrow> None
      | Some (br', None) \<Rightarrow> Some (br', [], None)
      | Some (br', Some (Inl e)) \<Rightarrow> Some (br', [], Some e)
      | Some (br', Some (Inr b)) \<Rightarrow>
          (case read_batches fuel step_fuel env br' of
             None \<Rightarrow> None
           | Some (br'', bs, e) \<Rightarrow> Some (br'', b # bs, e)))"

definition recover_journal_file :: "journal_env \<Rightarrow> bytes \<Rightarrow> (bytes \<times> read_batch list \<times> error option) option" where
  "recover_journal_file env file =
     map_option (\<lambda>(br, bs, e). (jr_file (br_reader br), bs, e))
       (read_batches (length file + 2) (length file + 2) env (batch_reader_new (reader_new file)))"

section \<open>What a written batch reads as\<close>

definition items_of :: "entry list \<Rightarrow> batch_item list" where
  "items_of es = concat (map (\<lambda>e. case e of
     Item ks key value vt c \<Rightarrow> [\<lparr>bi_keyspace = ks, bi_key = key, bi_value = value, bi_type = vt\<rparr>]
   | _ \<Rightarrow> []) es)"

definition cleared_of :: "entry list \<Rightarrow> u64 list" where
  "cleared_of es = concat (map (\<lambda>e. case e of Clear ks \<Rightarrow> [ks] | _ \<Rightarrow> []) es)"

definition read_of :: "wbatch \<Rightarrow> read_batch" where
  "read_of b = \<lparr>rb_seqno = fst b, rb_items = items_of (snd b), rb_cleared_keyspaces = cleared_of (snd b)\<rparr>"

fun is_payload :: "entry \<Rightarrow> bool" where
  "is_payload (Item _ _ _ _ _) = True"
| "is_payload (Clear _) = True"
| "is_payload _ = False"

definition wbatch_ok :: "journal_env \<Rightarrow> wbatch \<Rightarrow> bool" where
  "wbatch_ok env b = (length (snd b) < 2 ^ 32 \<and> (\<forall>e\<in>set (snd b). is_payload e \<and> entry_fits env e))"

definition batches_bytes :: "journal_env \<Rightarrow> wbatch list \<Rightarrow> bytes" where
  "batches_bytes env bs = concat (map (batch_bytes env) bs)"

text \<open>The reader between batches, and inside one after the entries \<open>es\<close> with \<open>n\<close> to come.\<close>

definition clean :: "bytes \<Rightarrow> nat \<Rightarrow> seqno \<Rightarrow> batch_reader" where
  "clean file p s = \<lparr>br_reader = \<lparr>jr_file = file, jr_last_valid_pos = p\<rparr>, br_items = [], br_cleared_keyspaces = [],
     br_is_in_batch = False, br_batch_counter = 0, br_batch_seqno = s, br_last_valid_pos = p, br_hashed = []\<rparr>"

definition inside :: "journal_env \<Rightarrow> bytes \<Rightarrow> nat \<Rightarrow> nat \<Rightarrow> seqno \<Rightarrow> entry list \<Rightarrow> nat \<Rightarrow> batch_reader" where
  "inside env file p q s es n = \<lparr>br_reader = \<lparr>jr_file = file, jr_last_valid_pos = q\<rparr>, br_items = items_of es,
     br_cleared_keyspaces = cleared_of es, br_is_in_batch = True, br_batch_counter = of_nat n,
     br_batch_seqno = s, br_last_valid_pos = p, br_hashed = payload env es\<rparr>"

lemma reader_next_entry:
  assumes "journal_env_ok env" "entry_fits env e"
    and "drop p file = entry_encode env e @ rest"
  shows "reader_next env \<lparr>jr_file = file, jr_last_valid_pos = p\<rparr> =
    (\<lparr>jr_file = file, jr_last_valid_pos = p + length (entry_encode env e)\<rparr>, Some (Inr e))"
proof -
  have "length (drop p file) = length (entry_encode env e) + length rest" "p \<le> length file"
    using assms(3) entry_encode_nonempty [of env e] by (simp, cases "p \<le> length file") auto
  then have "length file - length rest = p + length (entry_encode env e)" by simp
  then show ?thesis
    using entry_decode_encode [OF assms(1,2), of rest] by (simp add: reader_next_def assms(3))
qed

lemma drop_past: "drop p xs = ys @ zs \<Longrightarrow> drop (p + length ys) xs = zs"
  by (metis add.commute append_eq_conv_conj drop_drop)

lemma step_payload:
  assumes "is_payload e" "Suc n < 2 ^ 32"
  shows "batch_step env e (inside env file p q s es (Suc n)) = (inside env file p q s (es @ [e]) n, None)"
proof -
  have "(of_nat (Suc n) :: u32) \<noteq> 0"
    using assms(2) unat_of_nat_lengths(2) [of "Suc n"] by auto
  with assms(1) show ?thesis
    by (cases e) (auto simp: inside_def items_of_def cleared_of_def simp del: of_nat_Suc, auto simp: algebra_simps)
qed

lemma inside_reader [simp]:
  "br_reader (inside env file p q s es n) = \<lparr>jr_file = file, jr_last_valid_pos = q\<rparr>"
  "(inside env file p q s es n)\<lparr>br_reader := \<lparr>jr_file = file', jr_last_valid_pos = q'\<rparr>\<rparr> = inside env file' p q' s es n"
  "br_reader (clean file p s) = \<lparr>jr_file = file, jr_last_valid_pos = p\<rparr>"
  by (simp_all add: inside_def clean_def)

text \<open>Entries wholly in the file are read one per iteration.\<close>

lemma next_payload:
  assumes env: "journal_env_ok env"
    and "drop q file = payload env es @ rest"
    and "\<forall>e\<in>set es. is_payload e \<and> entry_fits env e" "n + length es < 2 ^ 32"
  shows "batch_reader_next (length es + fuel) env (inside env file p q s done (n + length es)) =
    batch_reader_next fuel env (inside env file p (q + length (payload env es)) s (done @ es) n)"
  using assms(2-)
proof (induction es arbitrary: q "done")
  case Nil
  then show ?case by simp
next
  case (Cons e es)
  note read = reader_next_entry [OF env _ Cons.prems(1) [unfolded payload_simps append_assoc]]
  let ?q = "q + length (entry_encode env e)"
  have "drop ?q file = payload env es @ rest"
    using drop_past [where ys = "entry_encode env e"] Cons.prems(1) by simp
  then have IH: "batch_reader_next (length es + fuel) env (inside env file p ?q s (done @ [e]) (n + length es)) =
      batch_reader_next fuel env (inside env file p (?q + length (payload env es)) s ((done @ [e]) @ es) n)"
    using Cons.prems by (intro Cons.IH) auto
  have "batch_step env e (inside env file p ?q s done (Suc (n + length es))) =
      (inside env file p ?q s (done @ [e]) (n + length es), None)"
    using Cons.prems by (intro step_payload) auto
  with IH read Cons.prems show ?case by (simp add: add.assoc)
qed

lemma next_start:
  assumes "journal_env_ok env" "drop p file = entry_encode env (Start (of_nat n) s) @ rest"
  shows "batch_reader_next (Suc fuel) env (clean file p s0) =
    batch_reader_next fuel env (inside env file p (p + length (entry_encode env (Start (of_nat n) s))) s [] n)"
proof -
  have "batch_step env (Start (of_nat n) s) ((clean file p s0)\<lparr>br_reader := \<lparr>jr_file = file, jr_last_valid_pos = q\<rparr>\<rparr>)
      = (inside env file p q s [] n, None)" for q
    by (simp add: clean_def inside_def items_of_def cleared_of_def)
  with reader_next_entry [OF assms(1) _ assms(2)] show ?thesis by simp
qed

lemma next_end:
  assumes "journal_env_ok env" "drop q file = entry_encode env (End (xxh3 env (payload env es))) @ rest"
  shows "batch_reader_next (Suc fuel) env (inside env file p q s es 0) =
    Some (clean file (q + length (entry_encode env (End (xxh3 env (payload env es))))) s,
          Some (Inr (read_of (s, es))))"
proof -
  have "batch_step env (End (xxh3 env (payload env es))) (inside env file p q' s es 0) =
      (clean file q' s, Some (Some (Inr (read_of (s, es)))))" for q'
    by (simp add: inside_def clean_def read_of_def)
  with reader_next_entry [OF assms(1) _ assms(2)] show ?thesis by simp
qed

lemma next_batch:
  assumes env: "journal_env_ok env" and ok: "wbatch_ok env b"
    and rest: "drop p file = batch_bytes env b @ rest"
  shows "batch_reader_next (Suc (length (snd b) + Suc fuel)) env (clean file p s0) =
    Some (clean file (p + length (batch_bytes env b)) (fst b), Some (Inr (read_of b)))"
proof -
  obtain s es where b: "b = (s, es)" by (cases b)
  let ?S = "entry_encode env (Start (of_nat (length es)) s)" and ?E = "entry_encode env (End (xxh3 env (payload env es)))"
  have d0: "drop p file = ?S @ payload env es @ ?E @ rest"
    using rest by (simp add: b batch_bytes_def batch_entries_def)
  then have d1: "drop (p + length ?S) file = payload env es @ ?E @ rest"
    by (rule drop_past)
  then have d2: "drop (p + length ?S + length (payload env es)) file = ?E @ rest"
    by (rule drop_past)
  have es: "\<forall>e\<in>set es. is_payload e \<and> entry_fits env e" "0 + length es < 2 ^ 32"
    using ok by (auto simp: wbatch_ok_def b)
  have "batch_reader_next (Suc (length es + Suc fuel)) env (clean file p s0) =
      batch_reader_next (length es + Suc fuel) env (inside env file p (p + length ?S) s [] (length es))"
    by (rule next_start [OF env d0])
  also have "\<dots> = batch_reader_next (Suc fuel) env
      (inside env file p (p + length ?S + length (payload env es)) s es 0)"
    using next_payload [OF env d1 es, of "Suc fuel" p s "[]"] by simp
  also have "\<dots> = Some (clean file (p + length ?S + length (payload env es) + length ?E) s, Some (Inr (read_of (s, es))))"
    by (rule next_end [OF env d2])
  finally show ?thesis by (simp add: b batch_bytes_def batch_entries_def add.assoc)
qed

section \<open>Torn tails\<close>

fun entry_tag :: "entry \<Rightarrow> tag" where
  "entry_tag (Start _ _) = TagStart"
| "entry_tag (Item _ _ _ _ _) = TagItem"
| "entry_tag (End _) = TagEnd"
| "entry_tag (Clear _) = TagClear"

lemma hd_entry_encode: "\<exists>t. entry_encode env e = tag_to_u8 (entry_tag e) # t"
  by (cases e) (simp_all add: serialize_marker_item_def Let_def)

lemma tag_try_from_tag: "tag_try_from (tag_to_u8 t) = Inr t"
  by (cases t) (simp_all add: tag_try_from_def)

lemma decode_item_tag: "decode_item env bs = Inr (e, r) \<Longrightarrow> entry_tag e = TagItem"
  by (auto simp: decode_item_def result_elims)

lemma decode_end_tag: "decode_end bs = Inr (e, r) \<Longrightarrow> entry_tag e = TagEnd"
  by (auto simp: decode_end_def result_elims split: if_splits)

lemma entry_decode_tag:
  assumes "entry_decode env (tag_to_u8 t # bs) = Inr (e, r)"
  shows "entry_tag e = t"
  using assms
  by (cases t) (auto simp: entry_decode_def tag_try_from_def result_elims dest: decode_item_tag decode_end_tag)

lemma decode_zeros: "is_err (entry_decode env (replicate m 0))"
  by (cases m) (simp_all add: entry_decode_def read_u8_def tag_try_from_def)

lemma length_MAGIC_BYTES [simp]: "length MAGIC_BYTES = 4"
  by (simp add: MAGIC_BYTES_def)

lemma decode_end_bytes:
  assumes "decode_end z = Inr x"
  shows "12 \<le> length z" "take 4 (drop 8 z) = MAGIC_BYTES"
  using assms by (auto simp: decode_end_def result_elims read_u64_le_def read_exact_def split: if_splits)

text \<open>An end marker cut short cannot be completed by zeros: the last trailer byte is not zero.\<close>

lemma decode_torn_end:
  assumes "strict_prefix u (entry_encode env (End c))"
  shows "is_err (entry_decode env (u @ replicate m 0))"
proof (cases u)
  case Nil
  then show ?thesis using decode_zeros by simp
next
  case (Cons b w)
  have len: "length u < 13"
    using prefix_length_less [OF assms] by (simp add: MAGIC_BYTES_def)
  have b: "b = tag_to_u8 TagEnd"
    using assms Cons by (auto simp: strict_prefix_def prefix_def)
  have "is_err (decode_end (w @ replicate m 0))"
  proof (rule ccontr)
    assume "\<not> is_err (decode_end (w @ replicate m 0))"
    then obtain x where "decode_end (w @ replicate m 0) = Inr x"
      by (cases "decode_end (w @ replicate m 0)") auto
    note e = decode_end_bytes [OF this]
    have "take 4 (drop 8 z) ! 3 = z ! 11" if "12 \<le> length z" for z :: bytes
      using that by simp
    then have "(w @ replicate m 0) ! 11 = take 4 (drop 8 (w @ replicate m 0)) ! 3"
      using e(1) by metis
    then have "(w @ replicate m 0) ! 11 = MAGIC_BYTES ! 3"
      by (simp only: e(2))
    moreover have "(w @ replicate m 0) ! 11 = 0"
      using len Cons e(1) by (simp add: nth_append)
    ultimately show False by (simp add: MAGIC_BYTES_def)
  qed
  then show ?thesis
    using Cons b by (cases "decode_end (w @ replicate m 0)") (simp_all add: entry_decode_def tag_try_from_def)
qed

lemma torn_decode:
  assumes env: "journal_env_ok env" and fits: "entry_fits env e"
    and u: "strict_prefix u (entry_encode env e)"
    and dec: "entry_decode env (u @ replicate m 0) = Inr (e', r)"
  shows "entry_tag e' = entry_tag e" "entry_tag e \<noteq> TagEnd" "\<exists>k. r = replicate k 0"
proof -
  show tag: "entry_tag e' = entry_tag e"
  proof (cases u)
    case Nil
    then show ?thesis using dec decode_zeros [of env m] by simp
  next
    case (Cons b w)
    then have "b = tag_to_u8 (entry_tag e)"
      using u hd_entry_encode [of env e] by (auto simp: strict_prefix_def prefix_def)
    then show ?thesis using entry_decode_tag dec Cons by simp
  qed
  show "entry_tag e \<noteq> TagEnd"
  proof
    assume "entry_tag e = TagEnd"
    then obtain c where "e = End c" by (cases e) auto
    then show False using decode_torn_end [of u env c m] u dec by simp
  qed
  obtain w where w: "entry_encode env e = u @ w" "w \<noteq> []"
    using u by (metis append_Nil2 prefixE strict_prefix_def)
  have len: "length r \<le> m"
    using local_stream_codec.consumed [OF entry_codec [OF env] fits w(1) dec] w(2) by simp
  obtain v where v: "u @ replicate m 0 = v @ r"
    using local_decD [OF local_entry_decode [OF env] dec] by metis
  then have "r = drop (length v) (u @ replicate m 0)" by simp
  moreover have "length u \<le> length v"
    using arg_cong [OF v, of length] len by simp
  ultimately show "\<exists>k. r = replicate k 0" by simp
qed

lemma reader_next_err:
  assumes "journal_env_ok env" "is_err (entry_decode env (drop q file))"
  shows "\<exists>f. reader_next env \<lparr>jr_file = file, jr_last_valid_pos = q\<rparr> =
    (\<lparr>jr_file = f, jr_last_valid_pos = q\<rparr>, None) \<and> f = (if q < length file then take q file else file)"
proof -
  obtain e where e: "entry_decode env (drop q file) = Inl e"
    using assms(2) by (cases "entry_decode env (drop q file)") auto
  then have io: "\<And>k. e = Io k \<Longrightarrow> k = UnexpectedEof"
    using entry_decode_errors [OF assms(1)] by blast
  show ?thesis
    by (cases e) (auto simp: reader_next_def e io maybe_truncate_file_to_last_valid_pos_def
        truncate_file_def set_len_def)
qed

text \<open>With the rest of the file unreadable, the reader ends and the file is cut back to the end of
  the last whole batch.\<close>

lemma next_closes:
  assumes env: "journal_env_ok env" and err: "is_err (entry_decode env (drop q file))"
    and pq: "p \<le> q" "q \<le> length file"
  shows "\<exists>br. batch_reader_next (Suc fuel) env (inside env file p q s es n) = Some (br, None) \<and>
      jr_file (br_reader br) = take p file"
    and "p = q \<Longrightarrow> \<exists>br. batch_reader_next (Suc fuel) env (clean file p s) = Some (br, None) \<and>
      jr_file (br_reader br) = take p file"
proof -
  obtain f where f: "reader_next env \<lparr>jr_file = file, jr_last_valid_pos = q\<rparr> =
      (\<lparr>jr_file = f, jr_last_valid_pos = q\<rparr>, None)" "f = (if q < length file then take q file else file)"
    using reader_next_err [OF env err] by blast
  then have t: "set_len p f = take p file" "p = q \<Longrightarrow> f = take p file"
    using pq by (auto simp: set_len_def min_def)
  show "\<exists>br. batch_reader_next (Suc fuel) env (inside env file p q s es n) = Some (br, None) \<and>
      jr_file (br_reader br) = take p file"
    using t(1) by (simp add: f(1)) (simp add: br_on_close_def inside_def br_truncate_to_def truncate_file_def)
  show "\<exists>br. batch_reader_next (Suc fuel) env (clean file p s) = Some (br, None) \<and>
      jr_file (br_reader br) = take p file" if "p = q"
    using t(2) [OF that] f(1) that by (simp add: br_on_close_def clean_def)
qed

lemma reader_next_torn:
  assumes env: "journal_env_ok env" and fits: "entry_fits env e"
    and u: "strict_prefix u (entry_encode env e)" and d: "drop q file = u @ replicate m 0"
    and q: "q \<le> length file"
  obtains "is_err (entry_decode env (drop q file))"
  | e' q' where "reader_next env \<lparr>jr_file = file, jr_last_valid_pos = q\<rparr> =
        (\<lparr>jr_file = file, jr_last_valid_pos = q'\<rparr>, Some (Inr e'))"
      "entry_tag e' = entry_tag e" "entry_tag e \<noteq> TagEnd" "q \<le> q'" "q' \<le> length file"
      "is_err (entry_decode env (drop q' file))"
proof (cases "entry_decode env (drop q file)")
  case (Inl x)
  then show thesis using that(1) by simp
next
  case (Inr x)
  obtain e' r where x: "x = (e', r)" by (cases x)
  note dec = Inr [unfolded x d]
  note torn = torn_decode [OF env fits u dec]
  obtain v where v: "drop q file = v @ r"
    using local_decD [OF local_entry_decode [OF env] Inr [unfolded x]] by metis
  let ?q = "length file - length r"
  have lr: "length r \<le> length file - q" using arg_cong [OF v, of length] by simp
  have "length file = q + length v + length r"
    using arg_cong [OF v, of length] q by simp
  then have "drop ?q file = r"
    using drop_past [OF v] by simp
  then have "is_err (entry_decode env (drop ?q file))"
    using torn(3) decode_zeros by auto
  moreover have "reader_next env \<lparr>jr_file = file, jr_last_valid_pos = q\<rparr> =
        (\<lparr>jr_file = file, jr_last_valid_pos = ?q\<rparr>, Some (Inr e'))"
    by (simp add: reader_next_def Inr x)
  ultimately show thesis
    using that(2) [of ?q e'] torn(1,2) lr q by auto
qed

lemma next_fuel_Suc:
  "batch_reader_next f env br = Some r \<Longrightarrow> batch_reader_next (Suc f) env br = Some r"
proof (induction f arbitrary: br)
  case (Suc f)
  obtain q x where q: "reader_next env (br_reader br) = (q, x)" by fastforce
  show ?case
  proof (cases "\<exists>entry. x = Some (Inr entry)")
    case True
    then obtain entry where x: "x = Some (Inr entry)" by blast
    obtain br' y where "batch_step env entry (br\<lparr>br_reader := q\<rparr>) = (br', y)" by fastforce
    with Suc q x show ?thesis
      by (subst batch_reader_next.simps, subst (asm) (2) batch_reader_next.simps) (cases y; simp)
  next
    case False
    then show ?thesis using Suc.prems q by (cases x rule: option.exhaust; cases "the x") auto
  qed
qed simp

lemma next_fuel_mono:
  assumes "batch_reader_next f env br = Some r" "f \<le> f'"
  shows "batch_reader_next f' env br = Some r"
  using assms(2) by (induction rule: dec_induct) (use assms(1) next_fuel_Suc in blast)+

lemma next_start_torn:
  assumes env: "journal_env_ok env" and u: "strict_prefix u (entry_encode env (Start n s))"
    and d: "drop p file = u @ replicate m 0" and p: "p \<le> length file"
  shows "\<exists>br. batch_reader_next 2 env (clean file p s0) = Some (br, None) \<and> jr_file (br_reader br) = take p file"
proof -
  have "entry_fits env (Start n s)" by simp
  from env this u d p show ?thesis
  proof (cases rule: reader_next_torn)
    case 1
    then show ?thesis unfolding numeral_2_eq_2 by (rule next_closes(2) [OF env _ order.refl p refl])
  next
    case (2 e' q')
    then obtain n' s' where e': "e' = Start n' s'" by (cases e') auto
    have "batch_reader_next 2 env (clean file p s0) =
        batch_reader_next 1 env (inside env file p q' s' [] (unat n'))"
      using 2 by (simp add: numeral_2_eq_2 e') (simp add: clean_def inside_def items_of_def cleared_of_def)
    then show ?thesis
      using next_closes(1) [OF env 2(6,4,5)] unfolding One_nat_def by metis
  qed
qed

lemma next_payload_torn:
  assumes env: "journal_env_ok env" and fits: "entry_fits env e" and n: "is_payload e \<Longrightarrow> 0 < n" "n < 2 ^ 32"
    and e: "is_payload e \<or> entry_tag e = TagEnd"
    and u: "strict_prefix u (entry_encode env e)"
    and d: "drop q file = u @ replicate m 0" and q: "p \<le> q" "q \<le> length file"
  shows "\<exists>br. batch_reader_next 2 env (inside env file p q s es n) = Some (br, None) \<and>
    jr_file (br_reader br) = take p file"
  using env fits u d q(2)
proof (cases rule: reader_next_torn)
  case 1
  then show ?thesis unfolding numeral_2_eq_2 by (rule next_closes(1) [OF env _ q])
next
  case (2 e' q')
  then have pay: "is_payload e" "is_payload e'" using e by (cases e; cases e'; auto)+
  then obtain n' where n': "n = Suc n'" using n by (cases n) auto
  have "batch_reader_next 2 env (inside env file p q s es n) =
      batch_reader_next 1 env (inside env file p q' s (es @ [e']) n')"
    using 2 step_payload [OF pay(2)] n by (simp add: numeral_2_eq_2 n')
  moreover have "p \<le> q'" using 2(4) q by simp
  ultimately show ?thesis
    using next_closes(1) [OF env 2(6) _ 2(5)] unfolding One_nat_def by metis
qed

lemma payload_torn:
  assumes "strict_prefix u (payload env es)"
  obtains es1 e es2 u' where "es = es1 @ e # es2" "u = payload env es1 @ u'"
    "strict_prefix u' (entry_encode env e)"
  using assms
proof (induction es arbitrary: u thesis)
  case (Cons e es)
  show ?case
  proof (cases "prefix (entry_encode env e) u")
    case False
    then have "strict_prefix u (entry_encode env e)"
      using Cons.prems(2) prefix_same_cases [of u "payload env (e # es)" "entry_encode env e"]
      by (auto simp: strict_prefix_def prefix_def)
    then show ?thesis using Cons.prems(1) [of "[]" e es u] by simp
  next
    case True
    then obtain v where v: "u = entry_encode env e @ v" by (auto simp: prefix_def)
    then have "strict_prefix v (payload env es)"
      using Cons.prems(2) by (simp add: strict_prefix_def)
    then obtain es1 e' es2 u' where "es = es1 @ e' # es2" "v = payload env es1 @ u'"
      "strict_prefix u' (entry_encode env e')" by (rule Cons.IH [rotated])
    then show ?thesis using Cons.prems(1) [of "e # es1" e' es2 u'] v by simp
  qed
qed simp

lemma length_payload: "length es \<le> length (payload env es)"
proof (induction es)
  case (Cons e es)
  then show ?case using entry_encode_nonempty [of env e] by (cases "entry_encode env e") auto
qed simp

lemma next_torn:
  assumes env: "journal_env_ok env" and ok: "wbatch_ok env b"
    and u: "strict_prefix u (batch_bytes env b)"
    and d: "drop p file = u @ replicate m 0" and p: "p \<le> length file"
    and fuel: "length file + 2 \<le> fuel"
  shows "\<exists>br. batch_reader_next fuel env (clean file p s0) = Some (br, None) \<and> jr_file (br_reader br) = take p file"
proof -
  obtain s es where b: "b = (s, es)" by (cases b)
  let ?S = "Start (of_nat (length es)) s" and ?E = "End (xxh3 env (payload env es))"
  obtain es1 e es2 u' where split: "?S # es @ [?E] = es1 @ e # es2" "u = payload env es1 @ u'"
    "strict_prefix u' (entry_encode env e)"
    using payload_torn [OF u [unfolded batch_bytes_def batch_entries_def b fst_conv snd_conv]] by metis
  show ?thesis
  proof (cases es1)
    case Nil
    then have "strict_prefix u (entry_encode env ?S)" using split by simp
    from next_start_torn [OF env this d p]
    obtain br where "batch_reader_next 2 env (clean file p s0) = Some (br, None)" "jr_file (br_reader br) = take p file"
      by blast
    moreover have "2 \<le> fuel" using fuel by simp
    ultimately show ?thesis using next_fuel_mono by blast
  next
    case (Cons x es')
    then have x: "x = ?S" "es @ [?E] = es' @ e # es2" using split(1) by auto
    have fits: "\<forall>e\<in>set es. is_payload e \<and> entry_fits env e" "length es < 2 ^ 32"
      using ok by (auto simp: wbatch_ok_def b)
    obtain n where n: "length es = n + length es'" "set es' \<subseteq> set es"
      "entry_fits env e" "is_payload e \<Longrightarrow> 0 < n" "is_payload e \<or> entry_tag e = TagEnd"
    proof (cases es2 rule: rev_cases)
      case Nil
      then show ?thesis using x(2) that [of 0] by auto
    next
      case (snoc ys y)
      then have "es = es' @ e # ys" using x(2) by (metis append_Cons append_assoc butlast_snoc)
      then show ?thesis using fits that [of "Suc (length ys)"] by auto
    qed
    have d0: "drop p file = entry_encode env ?S @ payload env es' @ u' @ replicate m 0"
      using d split(2) Cons x by simp
    let ?q = "p + length (entry_encode env ?S)" and ?q' = "p + length (entry_encode env ?S) + length (payload env es')"
    have d1: "drop ?q file = payload env es' @ u' @ replicate m 0" by (rule drop_past [OF d0])
    have d2: "drop ?q' file = u' @ replicate m 0" by (rule drop_past [OF d1])
    have len: "?q' \<le> length file" "length es' < length file"
      using arg_cong [OF d0, of length] p length_payload [of es' env] entry_encode_nonempty [of env ?S] by auto
    have "batch_reader_next (Suc (length es' + 2)) env (clean file p s0) =
        batch_reader_next (length es' + 2) env (inside env file p ?q s [] (length es))"
      by (rule next_start [OF env d0])
    also have "\<dots> = batch_reader_next 2 env (inside env file p ?q' s es' n)"
      using next_payload [OF env d1, of n 2 p s "[]"] fits n by auto
    finally obtain br where "batch_reader_next (Suc (length es' + 2)) env (clean file p s0) = Some (br, None)"
      "jr_file (br_reader br) = take p file"
      using next_payload_torn [OF env n(3,4) _ n(5) split(3) d2 _ len(1), of p s es'] fits n(1) by auto
    moreover have "Suc (length es' + 2) \<le> fuel" using fuel len by simp
    ultimately show ?thesis using next_fuel_mono by blast
  qed
qed

section \<open>Recovery\<close>

lemma next_end_of_file:
  assumes "journal_env_ok env" "drop p file = replicate m 0" "p \<le> length file"
  shows "\<exists>br. batch_reader_next (Suc fuel) env (clean file p s0) = Some (br, None) \<and> jr_file (br_reader br) = take p file"
  using next_closes(2) [OF assms(1) _ order.refl assms(3) refl] assms(2) decode_zeros by metis

text \<open>How many of the batches lie wholly within the first \<open>k\<close> bytes.\<close>

fun whole :: "journal_env \<Rightarrow> nat \<Rightarrow> wbatch list \<Rightarrow> nat" where
  "whole env k [] = 0"
| "whole env k (b # bs) =
     (if length (batch_bytes env b) \<le> k then Suc (whole env (k - length (batch_bytes env b)) bs) else 0)"

lemma batches_bytes_simps [simp]:
  "batches_bytes env [] = []"
  "batches_bytes env (b # bs) = batch_bytes env b @ batches_bytes env bs"
  "batches_bytes env (bs @ cs) = batches_bytes env bs @ batches_bytes env cs"
  by (simp_all add: batches_bytes_def)

lemma whole_bounds:
  "whole env k bs \<le> length bs"
  "length (batches_bytes env (take (whole env k bs) bs)) \<le> k"
  "whole env k bs < length bs \<Longrightarrow> k < length (batches_bytes env (take (Suc (whole env k bs)) bs))"
  by (induction env k bs rule: whole.induct) (auto split: if_splits)

lemma whole_covers:
  "length (batches_bytes env bs) \<le> k \<Longrightarrow> length bs \<le> whole env k (bs @ cs)"
  by (induction bs arbitrary: k) auto

lemma length_batch_bytes: "length (snd b) + 2 \<le> length (batch_bytes env b)"
  using length_payload [of "batch_entries env b" env]
  by (simp add: batch_bytes_def batch_entries_def)

lemma length_batches_bytes: "length bs \<le> length (batches_bytes env bs)"
proof (induction bs)
  case (Cons b bs)
  then show ?case using length_batch_bytes [of b env] by simp
qed simp

lemma read_batches_torn:
  assumes env: "journal_env_ok env" and "\<forall>b\<in>set bs. wbatch_ok env b"
    and "drop p file = take k (batches_bytes env bs) @ replicate m 0" "p \<le> length file"
    and fuel: "length file + 2 \<le> step_fuel" and "whole env k bs < fuel"
  shows "\<exists>br. read_batches fuel step_fuel env (clean file p s0) =
      Some (br, map read_of (take (whole env k bs) bs), None) \<and>
    jr_file (br_reader br) = take (p + length (batches_bytes env (take (whole env k bs) bs))) file"
  using assms(2-4,6)
proof (induction bs arbitrary: k p s0 fuel)
  case Nil
  then obtain g where g: "fuel = Suc g" by (cases fuel) auto
  obtain f where "step_fuel = Suc f" using fuel by (cases step_fuel) auto
  then obtain br where "batch_reader_next step_fuel env (clean file p s0) = Some (br, None)"
    "jr_file (br_reader br) = take p file"
    using next_end_of_file [OF env _ Nil(3), of m f s0] Nil(2) by auto
  then show ?case using g by simp
next
  case (Cons b bs)
  note 2 = Cons
  then obtain g where g: "fuel = Suc g" by (cases fuel) auto
  let ?n = "length (batch_bytes env b)"
  show ?case
  proof (cases "?n \<le> k")
    case True
    then have d: "drop p file = batch_bytes env b @ take (k - ?n) (batches_bytes env bs) @ replicate m 0"
      using 2(3) by simp
    have len: "p + ?n \<le> length file" using arg_cong [OF d, of length] 2(4) by auto
    have "length (snd b) + 2 \<le> step_fuel" using length_batch_bytes [of b env] len fuel by simp
    then have nxt: "batch_reader_next step_fuel env (clean file p s0) =
        Some (clean file (p + ?n) (fst b), Some (Inr (read_of b)))"
      using next_fuel_mono [OF next_batch [OF env _ d, of 0 s0]] 2(2) by simp
    have "\<exists>br. read_batches g step_fuel env (clean file (p + ?n) (fst b)) =
        Some (br, map read_of (take (whole env (k - ?n) bs) bs), None) \<and>
      jr_file (br_reader br) = take ((p + ?n) + length (batches_bytes env (take (whole env (k - ?n) bs) bs))) file"
      using 2(2-5) True len drop_past [OF d] g by (intro 2(1)) auto
    then show ?thesis using True nxt g by (auto simp: add.assoc)
  next
    case False
    then have u: "strict_prefix (take k (batch_bytes env b)) (batch_bytes env b)"
      by (metis append_take_drop_id drop_eq_Nil not_le prefixI strict_prefix_def append_Nil2 append_eq_append_conv)
    have "drop p file = take k (batch_bytes env b) @ replicate m 0" using 2(3) False by simp
    then obtain br where "batch_reader_next step_fuel env (clean file p s0) = Some (br, None)"
      "jr_file (br_reader br) = take p file"
      using next_torn [OF env _ u _ 2(4) fuel, of m s0] 2(2) by auto
    then show ?thesis using False g by simp
  qed
qed

lemma recover_torn:
  assumes "journal_env_ok env" "\<forall>b\<in>set bs. wbatch_ok env b"
  shows "recover_journal_file env (take k (batches_bytes env bs) @ replicate m 0) =
    Some (batches_bytes env (take (whole env k bs) bs), map read_of (take (whole env k bs) bs), None)"
proof -
  let ?f = "take k (batches_bytes env bs) @ replicate m 0" and ?w = "whole env k bs"
  let ?t = "batches_bytes env (take ?w bs)"
  have split: "batches_bytes env bs = ?t @ batches_bytes env (drop ?w bs)"
    by (simp flip: batches_bytes_simps(3))
  have k: "length ?t \<le> k" by (rule whole_bounds)
  then have t: "take (length ?t) ?f = ?t" "length ?t \<le> length ?f" by (subst split, simp)+
  have "?w \<le> length ?t" for w
    using length_batches_bytes [of "take ?w bs" env] whole_bounds(1) [of env k bs] by simp
  with t(2) have "?w < length ?f + 2" by linarith
  from read_batches_torn [OF assms, of 0 ?f k m "length ?f + 2" "length ?f + 2" 0] this
  obtain br where "read_batches (length ?f + 2) (length ?f + 2) env (clean ?f 0 0) =
      Some (br, map read_of (take ?w bs), None)" "jr_file (br_reader br) = take (length ?t) ?f"
    by auto
  moreover have "batch_reader_new (reader_new ?f) = clean ?f 0 0"
    by (simp add: batch_reader_new_def reader_new_def clean_def)
  ultimately show ?thesis
    using t(1) unfolding recover_journal_file_def by simp
qed

end
