(* ===== verification/Journal.thy ===== *)
theory Journal
  imports JournalReader
begin

text \<open>
  \<open>src/journal/mod.rs\<close>: the journal is a writer behind a mutex, so the calls on it form a
  sequence.  Proved here: which bytes a sequence of calls leaves, and what a crash at any later
  moment lets recovery read back.
\<close>

section \<open>Calls on the writer\<close>

datatype journal_call =
    CallRaw u64 bytes bytes value_type seqno
  | CallClear u64 seqno
  | CallBatch "batch_item list" seqno
  | CallPersist persist_mode

fun run_call :: "journal_env \<Rightarrow> journal_call \<Rightarrow> journal_writer \<Rightarrow> journal_writer" where
  "run_call env (CallRaw ks key value vt seqno) w = fst (write_raw env ks key value vt seqno w)"
| "run_call env (CallClear ks seqno) w = fst (write_clear env ks seqno w)"
| "run_call env (CallBatch items seqno) w = fst (write_batch env items (length items) seqno w)"
| "run_call env (CallPersist mode) w = persist mode w"

definition journal_create_new :: "compression_type \<Rightarrow> nat \<Rightarrow> journal_writer" where
  "journal_create_new c threshold = set_compression c threshold writer_create_new"

text \<open>The batches a call appends.\<close>

fun call_batches :: "journal_writer \<Rightarrow> journal_call \<Rightarrow> wbatch list" where
  "call_batches w (CallRaw ks key value vt seqno) = [(seqno, [Item ks key value vt (value_compression w value)])]"
| "call_batches w (CallClear ks seqno) = [(seqno, [Clear ks])]"
| "call_batches w (CallBatch items seqno) = (if items = [] then [] else [(seqno, map (item_entry w) items)])"
| "call_batches w (CallPersist mode) = []"

definition calls_batches :: "journal_writer \<Rightarrow> journal_call list \<Rightarrow> wbatch list" where
  "calls_batches w cs = concat (map (call_batches w) cs)"

definition writer_inv :: "journal_writer \<Rightarrow> bool" where
  "writer_inv w \<longleftrightarrow> jw_synced w \<le> jw_flushed w \<and> jw_flushed w \<le> length (jw_bytes w) \<and>
     (\<not> jw_is_buffer_dirty w \<longrightarrow> jw_flushed w = length (jw_bytes w))"

lemma call_batches_cong:
  assumes "value_compression w = value_compression w'"
  shows "call_batches w c = call_batches w' c"
  using assms by (cases c) (simp_all add: item_entry_def)

lemma persist_simps [simp]:
  "jw_bytes (persist mode w) = jw_bytes w"
  "value_compression (persist mode w) = value_compression w"
  by (cases mode; simp add: persist_def value_compression_def fun_eq_iff Let_def)+

text \<open>A call either persists or appends its batches, if any.\<close>

lemma run_call_cases:
  obtains (persist) mode where "c = CallPersist mode" "run_call env c w = persist mode w"
  | (nothing) "run_call env c w = w" "call_batches w c = []"
  | (append) "run_call env c w =
      writer_append (batches_bytes env (call_batches w c)) (w\<lparr>jw_is_buffer_dirty := True\<rparr>)"
proof (cases c)
  case (CallBatch items seqno)
  show thesis
  proof (cases "items = []")
    case True
    then show thesis using that(2) CallBatch by (simp add: write_batch_def)
  next
    case False
    then show thesis using that(3) CallBatch write_batch_eq [OF refl False] by simp
  qed
qed (use that in \<open>simp_all add: write_raw_eq write_clear_eq\<close>)

lemma run_call_bytes:
  "jw_bytes (run_call env c w) = jw_bytes w @ batches_bytes env (call_batches w c)"
  "value_compression (run_call env c w) = value_compression w"
  by (cases rule: run_call_cases [where c = c and env = env and w = w]; simp)+

lemma run_call_inv:
  assumes "writer_inv w"
  shows "writer_inv (run_call env c w)" "jw_synced w \<le> jw_synced (run_call env c w)"
proof -
  have "writer_inv (persist mode w) \<and> jw_synced w \<le> jw_synced (persist mode w)" for mode
    using assms by (cases mode) (auto simp: writer_inv_def persist_def Let_def)
  moreover have "writer_inv (writer_append bs (w\<lparr>jw_is_buffer_dirty := True\<rparr>))"
    "jw_synced (writer_append bs (w\<lparr>jw_is_buffer_dirty := True\<rparr>)) = jw_synced w" for bs
    using assms by (auto simp: writer_inv_def writer_append_def)
  ultimately show "writer_inv (run_call env c w)" "jw_synced w \<le> jw_synced (run_call env c w)"
    using assms by (cases rule: run_call_cases [where c = c and env = env and w = w]; metis order.refl)+
qed

lemma fold_calls:
  assumes "writer_inv w"
  shows "jw_bytes (fold (run_call env) cs w) = jw_bytes w @ batches_bytes env (calls_batches w cs) \<and>
    writer_inv (fold (run_call env) cs w) \<and>
    jw_synced w \<le> jw_synced (fold (run_call env) cs w) \<and>
    value_compression (fold (run_call env) cs w) = value_compression w"
  using assms
proof (induction cs arbitrary: w)
  case (Cons c cs)
  note step = run_call_bytes [of env c w] run_call_inv [OF Cons.prems, of env c]
  have "calls_batches (run_call env c w) cs = calls_batches w cs"
    using call_batches_cong [OF step(2)] by (simp add: calls_batches_def cong: map_cong)
  with Cons.IH [OF step(3)] step show ?case
    by (simp add: calls_batches_def)
qed (simp add: calls_batches_def)

lemma create_new_inv: "writer_inv (journal_create_new c t)" "jw_bytes (journal_create_new c t) = []"
  by (simp_all add: journal_create_new_def set_compression_def writer_create_new_def writer_inv_def)

lemma persist_sync:
  assumes "writer_inv w" "mode \<noteq> Buffer"
  shows "jw_synced (persist mode w) = length (jw_bytes w)"
  using assms by (cases mode) (auto simp: persist_def writer_inv_def Let_def)

section \<open>Properties\<close>

text \<open>C1: batches are atomic under crashes.  When the machine stops with any number of bytes of the
  journal on disk, zeros of the preallocation behind them, recovery succeeds, returns exactly
  the batches that are wholly on disk, in order and with their contents, and cuts the file back
  to the end of the last of them; no part of the torn batch is seen.\<close>

theorem crash_recovery:
  assumes "journal_env_ok env" "\<forall>b\<in>set bs. wbatch_ok env b"
  shows "\<exists>j\<le>length bs.
    recover_journal_file env (take k (batches_bytes env bs) @ replicate m 0) =
      Some (batches_bytes env (take j bs), map read_of (take j bs), None) \<and>
    length (batches_bytes env (take j bs)) \<le> k \<and>
    (j < length bs \<longrightarrow> k < length (batches_bytes env (take (Suc j) bs)))"
  using recover_torn [OF assms, of k m] whole_bounds [of env k bs] by blast

theorem crash_recovery_witness:
  "recover_journal_file sample_env
     (take 20 (batches_bytes sample_env [(5, []), (6, [Clear 3])]) @ replicate 100 0) \<noteq> None"
proof -
  have "\<forall>b\<in>set [(5, []), (6, [Clear 3])]. wbatch_ok sample_env b"
    by (simp add: wbatch_ok_def)
  from crash_recovery [OF sample_env_ok this, of 20 100] show ?thesis by auto
qed

text \<open>C11: synced batches survive.  Let a new journal serve any calls, then a persist that syncs,
  then any further calls.  Whatever the disk holds after a crash beyond the synced bytes,
  recovery returns every batch written before the sync, and nothing but a prefix of the
  batches written.\<close>

theorem synced_batches_survive:
  assumes "journal_env_ok env" "mode \<noteq> Buffer"
    and "w1 = fold (run_call env) (cs1 @ [CallPersist mode]) (journal_create_new c t)"
    and "w2 = fold (run_call env) cs2 w1"
    and "\<forall>b\<in>set (calls_batches w1 (cs1 @ cs2)). wbatch_ok env b"
    and "jw_synced w2 \<le> k"
  shows "\<exists>file rs. recover_journal_file env (take k (jw_bytes w2) @ replicate m 0) = Some (file, rs, None) \<and>
    prefix (map read_of (calls_batches w1 cs1)) rs \<and>
    prefix rs (map read_of (calls_batches w1 (cs1 @ cs2)))"
proof -
  let ?w = "fold (run_call env) cs1 (journal_create_new c t)"
  let ?bs1 = "calls_batches w1 cs1" and ?bs = "calls_batches w1 (cs1 @ cs2)"
  have w: "jw_bytes ?w = batches_bytes env (calls_batches (journal_create_new c t) cs1)"
      "writer_inv ?w" "value_compression ?w = value_compression (journal_create_new c t)"
    using fold_calls [OF create_new_inv(1) [of c t], of env cs1] by (simp_all add: create_new_inv)
  have w1: "w1 = persist mode ?w" using assms(3) by simp
  have cong: "calls_batches w1 cs = calls_batches (journal_create_new c t) cs" for cs
    using call_batches_cong [OF trans [OF persist_simps(2) w(3)]]
    by (simp add: calls_batches_def w1 cong: map_cong)
  have inv: "writer_inv w1" using run_call_inv(1) [OF w(2), of env "CallPersist mode"] w1 by simp
  have w2: "jw_bytes w2 = jw_bytes w1 @ batches_bytes env (calls_batches w1 cs2)" "jw_synced w1 \<le> jw_synced w2"
    using fold_calls [OF inv, of env cs2] assms(4) by simp_all
  have b1: "jw_bytes w1 = batches_bytes env ?bs1" using w(1) w1 cong by simp
  have b2: "jw_bytes w2 = batches_bytes env ?bs"
    using w2 b1 by (simp add: calls_batches_def)
  have "length (batches_bytes env ?bs1) \<le> k"
    using persist_sync [OF w(2) assms(2)] w2 assms(6) b1 w1 by simp
  then have "length ?bs1 \<le> whole env k ?bs"
    using whole_covers [of env ?bs1 k "calls_batches w1 cs2"] by (simp add: calls_batches_def)
  then have "prefix (map read_of ?bs1) (map read_of (take (whole env k ?bs) ?bs))"
    by (intro map_mono_prefix) (auto simp: calls_batches_def prefix_def)
  moreover have "prefix (map read_of (take (whole env k ?bs) ?bs)) (map read_of ?bs)"
    by (intro map_mono_prefix take_is_prefix)
  ultimately show ?thesis
    using recover_torn [OF assms(1,5), of k m] b2 by auto
qed

theorem synced_batches_survive_witness:
  "let cs1 = [CallClear 3 1]; cs2 = [CallClear 4 2];
       w1 = fold (run_call sample_env) (cs1 @ [CallPersist SyncAll]) (journal_create_new CompressionNone 0);
       w2 = fold (run_call sample_env) cs2 w1
   in \<exists>file rs. recover_journal_file sample_env (take 40 (jw_bytes w2) @ replicate 8 0) = Some (file, rs, None) \<and>
     prefix (map read_of (calls_batches w1 cs1)) rs"
proof -
  let ?w1 = "fold (run_call sample_env) ([CallClear 3 1] @ [CallPersist SyncAll]) (journal_create_new CompressionNone 0)"
  let ?w2 = "fold (run_call sample_env) [CallClear 4 2] ?w1"
  have mode: "SyncAll \<noteq> Buffer" by simp
  have ok: "\<forall>b\<in>set (calls_batches ?w1 ([CallClear 3 1] @ [CallClear 4 2])). wbatch_ok sample_env b"
    by (simp add: calls_batches_def wbatch_ok_def)
  have synced: "jw_synced ?w2 \<le> 40"
    by (simp add: write_clear_eq writer_append_def persist_def Let_def journal_create_new_def
        set_compression_def writer_create_new_def batch_bytes_def batch_entries_def)
  obtain r rs where "recover_journal_file sample_env (take 40 (jw_bytes ?w2) @ replicate 8 0) = Some (r, rs, None)"
    "prefix (map read_of (calls_batches ?w1 [CallClear 3 1])) rs"
    using synced_batches_survive [OF sample_env_ok mode refl refl ok synced, of 8] by (elim exE conjE)
  then show ?thesis unfolding Let_def by (intro exI conjI)
qed

end
