(* ===== verification/Composite.thy ===== *)
theory Composite
  imports Prelude "HOL-Library.Product_Lexorder"
begin

text \<open>
  \<open>src/secure/composite.rs\<close>: the ordered encoding of wide-row keys.  A key is a version
  byte, four escaped and zero-terminated fields and a descending big-endian timestamp.
  The lemmas show that encoding and decoding are inverse, that the byte order of encoded keys
  is the documented order of the keys, and that prefix ranges select exactly the keys with the
  given fields.  \<open>prefix_to_range\<close> belongs to the storage engine and is a parameter.
\<close>

section \<open>Definitions\<close>

definition FORMAT_VERSION :: byte where "FORMAT_VERSION = 1"
definition FIELD_TERMINATOR :: byte where "FIELD_TERMINATOR = 0"
definition FIELD_ESCAPE :: byte where "FIELD_ESCAPE = 1"
definition ESCAPED_ZERO :: byte where "ESCAPED_ZERO = 1"
definition ESCAPED_ONE :: byte where "ESCAPED_ONE = 2"
definition ENCODED_TIMESTAMP_LEN :: nat where "ENCODED_TIMESTAMP_LEN = 8"
definition MAX_USER_KEY_LEN :: nat where "MAX_USER_KEY_LEN = 65535"

lemmas composite_consts = FORMAT_VERSION_def FIELD_TERMINATOR_def FIELD_ESCAPE_def
  ESCAPED_ZERO_def ESCAPED_ONE_def ENCODED_TIMESTAMP_LEN_def MAX_USER_KEY_LEN_def

record composite_key =
  row :: bytes
  family :: bytes
  qualifier :: bytes
  visibility :: bytes
  timestamp :: i64

record composite_prefix =
  p_row :: "bytes option"
  p_family :: "bytes option"
  p_qualifier :: "bytes option"
  p_visibility :: "bytes option"

definition validate_encoded_len :: "nat \<Rightarrow> unit result" where
  "validate_encoded_len len =
     (if len > MAX_USER_KEY_LEN
      then Inl (InvalidCompositeKey ''encoded composite key exceeds Fjall's user-key length limit'')
      else Inr ())"

definition encoded_field_len :: "bytes \<Rightarrow> nat" where
  "encoded_field_len field =
     sum_list (map (\<lambda>b. if b = FIELD_TERMINATOR \<or> b = FIELD_ESCAPE then 2 else 1) field) + 1"

definition encode_byte :: "byte \<Rightarrow> bytes" where
  "encode_byte b =
     (if b = FIELD_TERMINATOR then [FIELD_ESCAPE, ESCAPED_ZERO]
      else if b = FIELD_ESCAPE then [FIELD_ESCAPE, ESCAPED_ONE]
      else [b])"

fun encode_field :: "bytes \<Rightarrow> bytes" where
  "encode_field [] = [FIELD_TERMINATOR]"
| "encode_field (b # bs) = encode_byte b @ encode_field bs"

definition encode_prefix_fields :: "bytes list \<Rightarrow> bytes" where
  "encode_prefix_fields fs = FORMAT_VERSION # concat (map encode_field fs)"

text \<open>The loop of \<open>decode_field\<close>, with the bytes decoded so far.\<close>

fun decode_field_loop :: "bytes \<Rightarrow> bytes \<Rightarrow> (bytes \<times> bytes) result" where
  "decode_field_loop decoded [] = Inl (InvalidCompositeKey ''unterminated composite key field'')"
| "decode_field_loop decoded (b # tail) =
     (if b = FIELD_TERMINATOR then Inr (decoded, tail)
      else if b = FIELD_ESCAPE then
        (case tail of
           [] \<Rightarrow> Inl (InvalidCompositeKey ''unterminated field escape'')
         | e # next \<Rightarrow>
             if e = ESCAPED_ZERO then decode_field_loop (decoded @ [FIELD_TERMINATOR]) next
             else if e = ESCAPED_ONE then decode_field_loop (decoded @ [FIELD_ESCAPE]) next
             else Inl (InvalidCompositeKey ''invalid field escape''))
      else decode_field_loop (decoded @ [b]) tail)"

definition decode_field :: "bytes \<Rightarrow> (bytes \<times> bytes) result" where
  "decode_field remaining = decode_field_loop [] remaining"

definition encode_descending_timestamp :: "i64 \<Rightarrow> bytes" where
  "encode_descending_timestamp ts = u64_to_be (NOT (ts XOR 0x8000000000000000))"

definition decode_descending_timestamp :: "bytes \<Rightarrow> i64" where
  "decode_descending_timestamp encoded = (NOT (u64_from_be encoded)) XOR 0x8000000000000000"

definition composite_encode :: "composite_key \<Rightarrow> bytes result" where
  "composite_encode k =
     (let encoded = encode_prefix_fields [row k, family k, qualifier k, visibility k]
                    @ encode_descending_timestamp (timestamp k)
      in bind_r (validate_encoded_len (length encoded)) (\<lambda>_. Inr encoded))"

definition composite_decode :: "bytes \<Rightarrow> composite_key result" where
  "composite_decode encoded =
     (case encoded of
        [] \<Rightarrow> Inl (InvalidCompositeKey ''missing composite key version'')
      | version # rest \<Rightarrow>
          if version \<noteq> FORMAT_VERSION
          then Inl (InvalidCompositeKey ''unsupported composite key version'')
          else
            bind_r (decode_field rest) (\<lambda>(r, rest).
            bind_r (decode_field rest) (\<lambda>(f, rest).
            bind_r (decode_field rest) (\<lambda>(q, rest).
            bind_r (decode_field rest) (\<lambda>(v, rest).
              if length rest \<noteq> ENCODED_TIMESTAMP_LEN
              then Inl (InvalidCompositeKey ''composite key timestamp must be exactly 8 bytes'')
              else Inr \<lparr>row = r, family = f, qualifier = q, visibility = v,
                        timestamp = decode_descending_timestamp rest\<rparr>)))))"

definition prefix_fields :: "composite_prefix \<Rightarrow> bytes list result" where
  "prefix_fields p =
     (case (p_row p, p_family p, p_qualifier p, p_visibility p) of
        (None, None, None, None) \<Rightarrow> Inr []
      | (Some r, None, None, None) \<Rightarrow> Inr [r]
      | (Some r, Some f, None, None) \<Rightarrow> Inr [r, f]
      | (Some r, Some f, Some q, None) \<Rightarrow> Inr [r, f, q]
      | (Some r, Some f, Some q, Some v) \<Rightarrow> Inr [r, f, q, v]
      | _ \<Rightarrow> Inl (InvalidCompositeKey ''composite prefix fields must be contiguous''))"

type_synonym key_range = "bytes bound \<times> bytes bound"

definition composite_prefix_range ::
    "(bytes \<Rightarrow> key_range) \<Rightarrow> composite_prefix \<Rightarrow> key_range result" where
  "composite_prefix_range prefix_to_range p =
     bind_r (prefix_fields p) (\<lambda>fs.
       let prefix = encode_prefix_fields fs
       in bind_r (validate_encoded_len (length prefix)) (\<lambda>_. Inr (prefix_to_range prefix)))"

text \<open>What the crate relies on of the storage engine's \<open>prefix_to_range\<close>: the range holds exactly
  the keys that start with the prefix.\<close>

definition prefix_range_law :: "(bytes \<Rightarrow> key_range) \<Rightarrow> bool" where
  "prefix_range_law prefix_to_range = (\<forall>p k. in_range (prefix_to_range p) k \<longleftrightarrow> prefix p k)"

section \<open>Specification\<close>

text \<open>The documented order: row, family, qualifier and visibility ascending by bytes, then
  timestamp descending as a signed integer.\<close>

definition cell_order :: "composite_key \<Rightarrow> bytes \<times> bytes \<times> bytes \<times> bytes \<times> int" where
  "cell_order k = (row k, family k, qualifier k, visibility k, - sint (timestamp k))"

definition field_matches :: "bytes option \<Rightarrow> bytes \<Rightarrow> bool" where
  "field_matches p f = (case p of None \<Rightarrow> True | Some x \<Rightarrow> f = x)"

definition prefix_matches :: "composite_prefix \<Rightarrow> composite_key \<Rightarrow> bool" where
  "prefix_matches p k =
     (field_matches (p_row p) (row k) \<and> field_matches (p_family p) (family k)
      \<and> field_matches (p_qualifier p) (qualifier k) \<and> field_matches (p_visibility p) (visibility k))"

section \<open>Fields\<close>

lemma decode_field_loop_append:
  "decode_field_loop d (encode_field f @ rest) = Inr (d @ f, rest)"
  by (induction f arbitrary: d) (auto simp: encode_byte_def composite_consts)

lemma decode_encode_field [simp, codec_simps]: "decode_field (encode_field f @ rest) = Inr (f, rest)"
  by (simp add: decode_field_def decode_field_loop_append)

lemma decode_field_loop_step:
  assumes "decode_field_loop d (b # tail) = Inr x"
  shows "(b = FIELD_TERMINATOR \<and> x = (d, tail)) \<or>
    (\<exists>n. b = FIELD_ESCAPE \<and> tail = ESCAPED_ZERO # n \<and> decode_field_loop (d @ [FIELD_TERMINATOR]) n = Inr x) \<or>
    (\<exists>n. b = FIELD_ESCAPE \<and> tail = ESCAPED_ONE # n \<and> decode_field_loop (d @ [FIELD_ESCAPE]) n = Inr x) \<or>
    (b \<noteq> FIELD_TERMINATOR \<and> b \<noteq> FIELD_ESCAPE \<and> decode_field_loop (d @ [b]) tail = Inr x)"
proof (cases tail)
  case Nil
  then show ?thesis using assms by (simp split: if_splits)
next
  case (Cons c n)
  then show ?thesis
    using assms by (simp add: decode_field_loop.simps(2) [of d b] del: decode_field_loop.simps split: if_splits)
qed

lemma decode_field_loop_canonical:
  "decode_field_loop d bs = Inr (f, rest) \<Longrightarrow> \<exists>g. f = d @ g \<and> bs = encode_field g @ rest"
proof (induction bs arbitrary: d rule: length_induct)
  case (1 bs)
  have distinct: "FIELD_ESCAPE \<noteq> FIELD_TERMINATOR" "ESCAPED_ONE \<noteq> ESCAPED_ZERO"
    by (simp_all add: composite_consts)
  have IH: "\<exists>g. f = d' @ g \<and> cs = encode_field g @ rest"
    if "decode_field_loop d' cs = Inr (f, rest)" "length cs < length bs" for d' cs
    using 1(1) that by blast
  obtain b tail where bs: "bs = b # tail"
    using 1(2) by (cases bs) auto
  show ?case
    using decode_field_loop_step [OF 1(2) [unfolded bs]]
  proof (elim disjE exE conjE)
    assume "b = FIELD_TERMINATOR" "(f, rest) = (d, tail)"
    then show ?thesis by (intro exI [of _ "[]"]) (simp add: bs)
  next
    fix n
    assume h: "b = FIELD_ESCAPE" "tail = ESCAPED_ZERO # n"
      "decode_field_loop (d @ [FIELD_TERMINATOR]) n = Inr (f, rest)"
    with IH [OF h(3)] obtain g where "f = (d @ [FIELD_TERMINATOR]) @ g" "n = encode_field g @ rest"
      by (auto simp: bs)
    with h distinct show ?thesis
      by (intro exI [of _ "FIELD_TERMINATOR # g"]) (simp add: encode_byte_def bs)
  next
    fix n
    assume h: "b = FIELD_ESCAPE" "tail = ESCAPED_ONE # n"
      "decode_field_loop (d @ [FIELD_ESCAPE]) n = Inr (f, rest)"
    with IH [OF h(3)] obtain g where "f = (d @ [FIELD_ESCAPE]) @ g" "n = encode_field g @ rest"
      by (auto simp: bs)
    with h distinct show ?thesis
      by (intro exI [of _ "FIELD_ESCAPE # g"]) (simp add: encode_byte_def bs)
  next
    assume h: "b \<noteq> FIELD_TERMINATOR" "b \<noteq> FIELD_ESCAPE" "decode_field_loop (d @ [b]) tail = Inr (f, rest)"
    with IH [OF h(3)] obtain g where "f = (d @ [b]) @ g" "tail = encode_field g @ rest"
      by (auto simp: bs)
    with h show ?thesis
      by (intro exI [of _ "b # g"]) (simp add: encode_byte_def bs)
  qed
qed

lemma decode_field_canonical: "decode_field bs = Inr (f, rest) \<Longrightarrow> bs = encode_field f @ rest"
  using decode_field_loop_canonical [of "[]" bs f rest] by (auto simp: decode_field_def)

interpretation field: exact_stream_codec encode_field decode_field "\<lambda>_. True"
  by unfold_locales (simp_all add: decode_field_canonical)

lemma length_encode_field: "length (encode_field f) = encoded_field_len f"
  by (induction f) (auto simp: encoded_field_len_def encode_byte_def composite_consts)

text \<open>Escaping keeps the byte order and makes fields self-delimiting, so concatenated fields
  compare like tuples.\<close>

lemma encode_field_less:
  "encode_field f @ xs < encode_field g @ ys \<longleftrightarrow> f < g \<or> (f = g \<and> xs < ys)"
proof (induction f arbitrary: g)
  case Nil
  show ?case
    by (cases g) (auto simp: encode_byte_def composite_consts word_gt_0)
next
  case (Cons b f)
  note IH = Cons.IH
  show ?case
  proof (cases g)
    case Nil
    then show ?thesis by (auto simp: encode_byte_def composite_consts word_gt_0)
  next
    case (Cons c g')
    show ?thesis
      unfolding Cons using IH [of g'] byte_gt_one [of b] byte_gt_one [of c]
      by (auto simp: encode_byte_def composite_consts word_gt_0)
  qed
qed

section \<open>Timestamps\<close>

lemma decode_encode_timestamp [simp, codec_simps]:
  "decode_descending_timestamp (encode_descending_timestamp ts) = ts"
  by (simp add: decode_descending_timestamp_def encode_descending_timestamp_def xor.assoc)

lemma encode_decode_timestamp:
  "length bs = 8 \<Longrightarrow> encode_descending_timestamp (decode_descending_timestamp bs) = bs"
  by (simp add: decode_descending_timestamp_def encode_descending_timestamp_def xor.assoc u64_from_be_inverse)

lemma length_encode_timestamp [simp]: "length (encode_descending_timestamp ts) = 8"
  by (simp add: encode_descending_timestamp_def)

lemma encode_timestamp_less:
  "encode_descending_timestamp a < encode_descending_timestamp b \<longleftrightarrow> sint b < sint a"
  by (simp add: encode_descending_timestamp_def u64_to_be_less_iff not_xor_top_less)

section \<open>Keys\<close>

definition key_bytes :: "composite_key \<Rightarrow> bytes" where
  "key_bytes k = FORMAT_VERSION # encode_field (row k) @ encode_field (family k) @
     encode_field (qualifier k) @ encode_field (visibility k) @ encode_descending_timestamp (timestamp k)"

lemma composite_encode_eq:
  "composite_encode k =
    (if length (key_bytes k) \<le> MAX_USER_KEY_LEN then Inr (key_bytes k)
     else Inl (InvalidCompositeKey ''encoded composite key exceeds Fjall's user-key length limit''))"
  by (simp add: composite_encode_def key_bytes_def encode_prefix_fields_def validate_encoded_len_def Let_def)

lemma composite_encodeI: "key_bytes k = b \<Longrightarrow> length b \<le> 65535 \<Longrightarrow> composite_encode k = Inr b"
  by (simp add: composite_encode_eq MAX_USER_KEY_LEN_def)

lemma composite_decode_key_bytes: "composite_decode (key_bytes k) = Inr k"
  by (simp add: composite_decode_def key_bytes_def ENCODED_TIMESTAMP_LEN_def)

lemma composite_decode_exact: "composite_decode bs = Inr k \<Longrightarrow> bs = key_bytes k"
  by (auto simp: composite_decode_def key_bytes_def result_elims ENCODED_TIMESTAMP_LEN_def
      encode_decode_timestamp split: list.splits if_splits dest!: decode_field_canonical)

interpretation composite: canonical_codec composite_encode composite_decode
  "\<lambda>bs. length bs \<le> MAX_USER_KEY_LEN"
  by unfold_locales
    (auto simp: composite_encode_eq composite_decode_key_bytes dest: composite_decode_exact split: if_splits)

lemma key_bytes_less: "key_bytes a < key_bytes b \<longleftrightarrow> cell_order a < cell_order b"
  by (simp add: key_bytes_def cell_order_def encode_field_less encode_timestamp_less less_prod_simp le_less) blast

lemma length_key_bytes:
  "length (key_bytes k) = 1 + encoded_field_len (row k) + encoded_field_len (family k) +
    encoded_field_len (qualifier k) + encoded_field_len (visibility k) + ENCODED_TIMESTAMP_LEN"
  by (simp add: key_bytes_def length_encode_field ENCODED_TIMESTAMP_LEN_def)

section \<open>Prefix ranges\<close>

lemma prefix_encode_field:
  "prefix (encode_field f @ xs) (encode_field g @ ys) \<longleftrightarrow> f = g \<and> prefix xs ys"
proof
  assume "prefix (encode_field f @ xs) (encode_field g @ ys)"
  then obtain zs where "encode_field g @ ys = encode_field f @ xs @ zs"
    by (auto simp: prefix_def)
  then show "f = g \<and> prefix xs ys"
    using field.enc_append_inject [where x = g and y = f and r = ys and s = "xs @ zs"] by auto
qed auto

lemma prefix_fields_cases:
  assumes "prefix_fields p = Inr fs"
  shows "prefix (encode_prefix_fields fs) (key_bytes k) \<longleftrightarrow> prefix_matches p k"
proof -
  note encs = prefix_encode_field [where xs = "[]", simplified] prefix_encode_field
  show ?thesis
    using assms
    by (cases "p_row p"; cases "p_family p"; cases "p_qualifier p"; cases "p_visibility p")
      (auto simp: prefix_fields_def prefix_matches_def field_matches_def
        encode_prefix_fields_def key_bytes_def encs)
qed

text \<open>A concrete \<open>prefix_to_range\<close>: from the prefix up to the next byte string that does not
  start with it.\<close>

fun prefix_successor :: "bytes \<Rightarrow> bytes option" where
  "prefix_successor [] = None"
| "prefix_successor (b # bs) =
     (case prefix_successor bs of
        Some cs \<Rightarrow> Some (b # cs)
      | None \<Rightarrow> if b = 0xFF then None else Some [b + 1])"

definition sample_prefix_to_range :: "bytes \<Rightarrow> key_range" where
  "sample_prefix_to_range p =
     (Included p, case prefix_successor p of None \<Rightarrow> Unbounded | Some q \<Rightarrow> Excluded q)"

lemma byte_max: "c \<le> (0xFF :: byte)"
  using unsigned_less [of c, where 'a = nat] by (simp add: word_le_nat_alt)

lemma byte_less_Suc:
  assumes "b \<noteq> 0xFF"
  shows "c < b + 1 \<longleftrightarrow> c \<le> (b :: byte)"
proof -
  have "1 + b \<noteq> 0"
    using assms by (auto simp: add_eq_0_iff)
  then have "unat (b + 1) = Suc (unat b)"
    using unatSuc [of b] by (simp add: add.commute)
  then show ?thesis by (simp add: word_less_nat_alt word_le_nat_alt less_Suc_eq_le)
qed

lemma prefix_iff_between:
  "prefix p k \<longleftrightarrow> p \<le> k \<and> (case prefix_successor p of None \<Rightarrow> True | Some q \<Rightarrow> k < q)"
proof (induction p arbitrary: k)
  case (Cons b bs)
  show ?case
  proof (cases k)
    case (Cons c cs)
    then show ?thesis
      using Cons.IH [of cs] by (auto simp: byte_less_Suc byte_max leD [OF byte_max] split: option.splits)
  qed simp
qed simp

lemma sample_prefix_range_law: "prefix_range_law sample_prefix_to_range"
  by (auto simp: prefix_range_law_def sample_prefix_to_range_def in_range_def prefix_iff_between split: option.splits)

section \<open>Properties\<close>

text \<open>C24: encoding and decoding of composite keys are inverse.  Within the user-key length limit a
  byte string decodes to a key exactly when the key encodes to that byte string: every encoded
  key decodes to itself, no two keys share an encoding and no key has two encodings.\<close>

theorem composite_roundtrip:
  assumes "length b \<le> MAX_USER_KEY_LEN"
  shows "composite_decode b = Inr k \<longleftrightarrow> composite_encode k = Inr b"
  using assms by (rule composite.dec_iff)

theorem composite_roundtrip_witness:
  "composite_decode [1, 97, 1, 1, 0, 0, 98, 0, 0, 127, 255, 255, 255, 255, 255, 255, 254] =
     Inr \<lparr>row = [97, 0], family = [], qualifier = [98], visibility = [], timestamp = 1\<rparr>"
  by (rule composite_roundtrip [THEN iffD2], simp add: MAX_USER_KEY_LEN_def)
    (rule composite_encodeI, code_simp, simp)

text \<open>C23: encoded keys sort, as byte strings, by row, family, qualifier and visibility in
  ascending byte order and then by timestamp in descending signed order.\<close>

theorem composite_order_preserving:
  assumes "composite_encode a = Inr x" "composite_encode b = Inr y"
  shows "x < y \<longleftrightarrow> cell_order a < cell_order b"
  using assms key_bytes_less [of a b] by (simp add: composite_encode_eq split: if_splits)

theorem composite_order_preserving_witness:
  "[1, 97, 0, 0, 0, 0, 127, 255, 255, 255, 255, 255, 255, 250] <
     ([1, 97, 0, 0, 0, 0, 128, 0, 0, 0, 0, 0, 0, 0] :: bytes)"
  by (rule composite_order_preserving [where
        a = "\<lparr>row = [97], family = [], qualifier = [], visibility = [], timestamp = 5\<rparr>" and
        b = "\<lparr>row = [97], family = [], qualifier = [], visibility = [], timestamp = - 1\<rparr>", THEN iffD2];
      (rule composite_encodeI, code_simp, simp)?) (simp add: cell_order_def less_prod_simp)

text \<open>C31: a prefix range selects exactly the cells whose supplied fields are equal to the
  prefix: no cell with other fields falls into the range and none with these fields is missed.
  The engine's \<open>prefix_to_range\<close> is assumed to return the keys that start with its argument.\<close>

theorem composite_prefix_range_exact:
  assumes "prefix_range_law prefix_to_range"
    and "composite_prefix_range prefix_to_range p = Inr r"
    and "composite_encode k = Inr x"
  shows "in_range r x \<longleftrightarrow> prefix_matches p k"
proof -
  obtain fs where fs: "prefix_fields p = Inr fs" "r = prefix_to_range (encode_prefix_fields fs)"
    using assms(2) by (auto simp: composite_prefix_range_def result_elims Let_def)
  have "x = key_bytes k"
    using assms(3) by (simp add: composite_encode_eq split: if_splits)
  with fs assms(1) show ?thesis
    by (simp add: prefix_range_law_def prefix_fields_cases [OF fs(1)])
qed

theorem composite_prefix_range_exact_witness:
  "in_range (Included [1, 97, 0], Excluded [1, 97, 1]) [1, 97, 0, 0, 0, 0, 127, 255, 255, 255, 255, 255, 255, 250]"
  by (rule composite_prefix_range_exact [where
        p = "\<lparr>p_row = Some [97], p_family = None, p_qualifier = None, p_visibility = None\<rparr>" and
        k = "\<lparr>row = [97], family = [], qualifier = [], visibility = [], timestamp = 5\<rparr>", OF sample_prefix_range_law, THEN iffD2];
      (rule composite_encodeI, code_simp, simp)?)
    (simp_all add: composite_prefix_range_def prefix_fields_def encode_prefix_fields_def composite_consts
      validate_encoded_len_def sample_prefix_to_range_def prefix_matches_def field_matches_def encode_byte_def)

text \<open>C34: encoding fails exactly when the encoded key would exceed 65535 bytes; otherwise its
  length is the one the code reserves up front: the version byte, the escaped length of each
  field and eight timestamp bytes.\<close>

theorem composite_encode_length:
  "let n = 1 + encoded_field_len (row k) + encoded_field_len (family k) +
           encoded_field_len (qualifier k) + encoded_field_len (visibility k) + ENCODED_TIMESTAMP_LEN
   in case composite_encode k of
        Inr b \<Rightarrow> length b = n \<and> n \<le> 65535
      | Inl e \<Rightarrow> 65535 < n \<and> (\<exists>m. e = InvalidCompositeKey m)"
  by (simp add: composite_encode_eq length_key_bytes MAX_USER_KEY_LEN_def Let_def)

end
