(* ===== verification/LsmTree.thy ===== *)
theory LsmTree
  imports Prelude
begin

text \<open>
  The interface of the storage engine (the crate \<open>lsm-tree\<close>, which is not part of the sources).
  A value of the record \<open>lsm\<close> holds the engine operations the program calls: \<open>'t\<close> is the type
  of its trees, \<open>'m\<close> the type of its memtables.  Nothing is assumed of them here; the
  documented behaviour that the properties rely on is the predicate \<open>lsm_ok\<close>, stated over the
  abstract content of a tree: for each key, the versions by sequence number, a version being
  a value or a tombstone.  A read at an instant sees the newest version below it.
\<close>

section \<open>Operations\<close>

record internal_value =
  iv_key :: bytes
  iv_value :: bytes
  iv_seqno :: seqno
  iv_type :: value_type

fun is_tombstone :: "value_type \<Rightarrow> bool" where
  "is_tombstone Tombstone = True"
| "is_tombstone WeakTombstone = True"
| "is_tombstone _ = False"

type_synonym guard = "lsm_error + bytes \<times> bytes"

record ('t, 'm) lsm =
  t_insert :: "bytes \<Rightarrow> bytes \<Rightarrow> seqno \<Rightarrow> 't \<Rightarrow> 't \<times> u64 \<times> u64"
  t_remove :: "bytes \<Rightarrow> seqno \<Rightarrow> 't \<Rightarrow> 't \<times> u64 \<times> u64"
  t_remove_weak :: "bytes \<Rightarrow> seqno \<Rightarrow> 't \<Rightarrow> 't \<times> u64 \<times> u64"
  t_clear :: "'t \<Rightarrow> lsm_error + 't"
  t_get :: "bytes \<Rightarrow> seqno \<Rightarrow> 't \<Rightarrow> lsm_error + bytes option"
  t_contains_key :: "bytes \<Rightarrow> seqno \<Rightarrow> 't \<Rightarrow> lsm_error + bool"
  t_size_of :: "bytes \<Rightarrow> seqno \<Rightarrow> 't \<Rightarrow> lsm_error + u32 option"
  t_is_empty :: "seqno \<Rightarrow> 't \<Rightarrow> lsm_error + bool"
  t_first_key_value :: "seqno \<Rightarrow> 't \<Rightarrow> guard option"
  t_last_key_value :: "seqno \<Rightarrow> 't \<Rightarrow> guard option"
  t_iter :: "seqno \<Rightarrow> ('m \<times> seqno) option \<Rightarrow> 't \<Rightarrow> guard list"
  t_range :: "bytes bound \<times> bytes bound \<Rightarrow> seqno \<Rightarrow> ('m \<times> seqno) option \<Rightarrow> 't \<Rightarrow> guard list"
  t_prefix :: "bytes \<Rightarrow> seqno \<Rightarrow> ('m \<times> seqno) option \<Rightarrow> 't \<Rightarrow> guard list"
  t_memtable_id :: "'t \<Rightarrow> u64"
  t_memtable_size :: "'t \<Rightarrow> u64"
  t_highest_persisted_seqno :: "'t \<Rightarrow> seqno option"
  t_highest_seqno :: "'t \<Rightarrow> seqno option"
  m_new :: 'm
  m_insert :: "internal_value \<Rightarrow> 'm \<Rightarrow> 'm"
  m_get :: "bytes \<Rightarrow> seqno \<Rightarrow> 'm \<Rightarrow> internal_value option"
  m_iter :: "'m \<Rightarrow> internal_value list"

definition SEQNO_MAX :: seqno where "SEQNO_MAX = - 1"

section \<open>Content\<close>

type_synonym versions = "seqno \<Rightarrow> bytes option option"

type_synonym content = "bytes \<Rightarrow> versions"

definition newest :: "versions \<Rightarrow> seqno \<Rightarrow> bytes option option" where
  "newest vs s = (let below = {q \<in> dom vs. q < s} in if below = {} then None else vs (Max below))"

definition seen :: "content \<Rightarrow> seqno \<Rightarrow> bytes \<Rightarrow> bytes option" where
  "seen c s k = (case newest (c k) s of None \<Rightarrow> None | Some x \<Rightarrow> x)"

text \<open>A read with a memtable over the tree: its versions below \<open>q\<close> come first.\<close>

definition overlaid :: "content \<Rightarrow> seqno \<Rightarrow> content \<Rightarrow> seqno \<Rightarrow> bytes \<Rightarrow> bytes option" where
  "overlaid mc q c s k = (case newest (mc k) q of None \<Rightarrow> seen c s k | Some x \<Rightarrow> x)"

definition add_version :: "bytes \<Rightarrow> seqno \<Rightarrow> bytes option \<Rightarrow> content \<Rightarrow> content" where
  "add_version k s x c = c(k := (c k)(s \<mapsto> x))"

definition version_of :: "internal_value \<Rightarrow> bytes option" where
  "version_of iv = (if is_tombstone (iv_type iv) then None else Some (iv_value iv))"

text \<open>A scan returns each visible pair within \<open>P\<close> once, in key order.\<close>

definition scans :: "(bytes \<Rightarrow> bool) \<Rightarrow> (bytes \<Rightarrow> bytes option) \<Rightarrow> guard list \<Rightarrow> bool" where
  "scans P view gs = (\<exists>kvs. gs = map Inr kvs \<and> sorted_wrt (<) (map fst kvs) \<and>
     (\<forall>k v. (k, v) \<in> set kvs \<longleftrightarrow> P k \<and> view k = Some v))"

text \<open>The content of a memtable is what iterating it yields.\<close>

definition iv_content :: "internal_value list \<Rightarrow> content" where
  "iv_content ivs k s = map_option version_of (find (\<lambda>iv. iv_key iv = k \<and> iv_seqno iv = s) ivs)"

definition view_over ::
    "('t, 'm) lsm \<Rightarrow> ('m \<times> seqno) option \<Rightarrow> content \<Rightarrow> seqno \<Rightarrow> bytes \<Rightarrow> bytes option" where
  "view_over L over c s =
     (case over of None \<Rightarrow> seen c s | Some (m, q) \<Rightarrow> overlaid (iv_content (m_iter L m)) q c s)"

section \<open>What the engine promises\<close>

definition lsm_writes_ok :: "('t, 'm) lsm \<Rightarrow> ('t \<Rightarrow> content) \<Rightarrow> bool" where
  "lsm_writes_ok L h \<longleftrightarrow>
     (\<forall>k v s t. h (fst (t_insert L k v s t)) = add_version k s (Some v) (h t)) \<and>
     (\<forall>k s t. h (fst (t_remove L k s t)) = add_version k s None (h t)) \<and>
     (\<forall>k s t. h (fst (t_remove_weak L k s t)) = add_version k s None (h t)) \<and>
     (\<forall>t t'. t_clear L t = Inr t' \<longrightarrow> h t' = (\<lambda>_. Map.empty))"

definition lsm_reads_ok :: "('t, 'm) lsm \<Rightarrow> ('t \<Rightarrow> content) \<Rightarrow> bool" where
  "lsm_reads_ok L h \<longleftrightarrow>
     (\<forall>k s t. t_get L k s t = Inr (seen (h t) s k)) \<and>
     (\<forall>k s t. t_contains_key L k s t = Inr (seen (h t) s k \<noteq> None)) \<and>
     (\<forall>k s t. t_size_of L k s t = Inr (map_option (\<lambda>v. of_nat (length v)) (seen (h t) s k))) \<and>
     (\<forall>s over t. scans (\<lambda>_. True) (view_over L over (h t) s) (t_iter L s over t)) \<and>
     (\<forall>r s over t. scans (in_range r) (view_over L over (h t) s) (t_range L r s over t)) \<and>
     (\<forall>p s over t. scans (prefix p) (view_over L over (h t) s) (t_prefix L p s over t))"

text \<open>A memtable keeps every version inserted at a new sequence number; iteration is by key,
  newest version first, and a lookup finds the newest version below an instant.\<close>

definition iv_before :: "internal_value \<Rightarrow> internal_value \<Rightarrow> bool" where
  "iv_before a b = (iv_key a < iv_key b \<or> (iv_key a = iv_key b \<and> iv_seqno b < iv_seqno a))"

definition memtable_ok :: "('t, 'm) lsm \<Rightarrow> bool" where
  "memtable_ok L \<longleftrightarrow>
     m_iter L (m_new L) = [] \<and>
     (\<forall>iv m. (\<forall>x\<in>set (m_iter L m). iv_seqno x < iv_seqno iv) \<longrightarrow>
        set (m_iter L (m_insert L iv m)) = insert iv (set (m_iter L m))) \<and>
     (\<forall>m. sorted_wrt iv_before (m_iter L m)) \<and>
     (\<forall>k s m. m_get L k s m = find (\<lambda>iv. iv_key iv = k \<and> iv_seqno iv < s) (m_iter L m))"

definition lsm_ok :: "('t, 'm) lsm \<Rightarrow> ('t \<Rightarrow> content) \<Rightarrow> bool" where
  "lsm_ok L h \<longleftrightarrow> lsm_writes_ok L h \<and> lsm_reads_ok L h \<and> memtable_ok L"

section \<open>Reading content\<close>

lemma newest_empty [simp]: "newest Map.empty s = None"
  by (simp add: newest_def)

lemma newest_later [simp]:
  assumes "i \<le> s"
  shows "newest (vs(s \<mapsto> x)) i = newest vs i"
proof -
  define B where "B = {q \<in> dom vs. q < i}"
  have eq: "{q \<in> dom (vs(s \<mapsto> x)). q < i} = B" using assms by (auto simp: B_def)
  have "Max B \<noteq> s" if "B \<noteq> {}"
    using Max_in [OF finite that] assms by (auto simp: B_def)
  then show ?thesis
    unfolding newest_def Let_def eq B_def [symmetric] by simp
qed

lemma newest_top:
  assumes "s < i" "\<And>q. q \<in> dom vs \<Longrightarrow> q < i \<Longrightarrow> q \<le> s"
  shows "newest (vs(s \<mapsto> x)) i = Some x"
proof -
  define B where "B = {q \<in> dom (vs(s \<mapsto> x)). q < i}"
  have "s \<in> B" using assms(1) by (simp add: B_def)
  moreover have "Max B = s"
    using assms \<open>s \<in> B\<close> by (intro Max_eqI [OF finite]) (auto simp: B_def)
  ultimately show ?thesis
    unfolding newest_def Let_def B_def [symmetric] by auto
qed

lemma newest_all:
  assumes "\<And>q. q \<in> dom vs \<Longrightarrow> q < i" "\<And>q. q \<in> dom vs \<Longrightarrow> q < j"
  shows "newest vs i = newest vs j"
proof -
  have "{q \<in> dom vs. q < i} = dom vs" "{q \<in> dom vs. q < j} = dom vs" using assms by auto
  then show ?thesis by (simp add: newest_def)
qed

text \<open>Every version is below \<open>s\<close>.\<close>

definition below :: "seqno \<Rightarrow> content \<Rightarrow> bool" where
  "below s c = (\<forall>k q x. c k q = Some x \<longrightarrow> q < s)"

lemma belowD: "below s c \<Longrightarrow> q \<in> dom (c k) \<Longrightarrow> q < s"
  by (auto simp: below_def)

lemma below_mono: "below s c \<Longrightarrow> s \<le> s' \<Longrightarrow> below s' c"
  unfolding below_def by (meson less_le_trans)

lemma below_add: "below s c \<Longrightarrow> q < s' \<Longrightarrow> s \<le> s' \<Longrightarrow> below s' (add_version k q x c)"
  using below_mono [of s c s'] by (auto simp: below_def add_version_def split: if_splits)

lemma below_empty [simp]: "below s (\<lambda>_. Map.empty)"
  by (simp add: below_def)

lemma seen_add_later [simp]: "i \<le> s \<Longrightarrow> seen (add_version k s x c) i = seen c i"
  by (auto simp: seen_def add_version_def fun_eq_iff)

lemma seen_add_other: "k' \<noteq> k \<Longrightarrow> seen (add_version k s x c) i k' = seen c i k'"
  by (simp add: seen_def add_version_def)

lemma seen_add_top:
  assumes "s < i" "\<And>q. q \<in> dom (c k) \<Longrightarrow> q \<le> s"
  shows "seen (add_version k s x c) i = (seen c i)(k := x)"
  using newest_top [OF assms(1), of "c k" x] assms(2)
  by (auto simp: seen_def add_version_def fun_eq_iff)

lemma seen_add_below: "below s c \<Longrightarrow> s < i \<Longrightarrow> seen (add_version k s x c) i = (seen c i)(k := x)"
  by (rule seen_add_top) (auto dest: belowD less_imp_le)

lemma seen_empty [simp]: "seen (\<lambda>_. Map.empty) s k = None"
  by (simp add: seen_def)

lemma seen_at_top: "below i c \<Longrightarrow> below j c \<Longrightarrow> seen c i = seen c j"
  using newest_all [of "c k" i j for k] by (simp add: belowD seen_def fun_eq_iff)

lemma strict_sorted_fst_unique:
  fixes xs ys :: "('a :: linorder \<times> 'b) list"
  assumes "sorted_wrt (<) (map fst xs)" "sorted_wrt (<) (map fst ys)" "set xs = set ys"
  shows "xs = ys"
proof (rule map_sorted_distinct_set_unique [of fst])
  have "distinct (map fst xs)" using assms(1) by (simp add: strict_sorted_iff)
  then show "inj_on fst (set xs \<union> set ys)" using assms(3) by (simp add: distinct_map)
qed (use assms in \<open>simp_all add: strict_sorted_iff\<close>)

lemma scans_unique:
  assumes "scans P view gs" "scans P view gs'"
  shows "gs = gs'"
proof -
  obtain kvs where 1: "gs = map Inr kvs" "sorted_wrt (<) (map fst kvs)"
      "\<forall>k v. (k, v) \<in> set kvs \<longleftrightarrow> P k \<and> view k = Some v"
    using assms(1) unfolding scans_def by blast
  obtain kvs' where 2: "gs' = map Inr kvs'" "sorted_wrt (<) (map fst kvs')"
      "\<forall>k v. (k, v) \<in> set kvs' \<longleftrightarrow> P k \<and> view k = Some v"
    using assms(2) unfolding scans_def by blast
  have "set kvs = set kvs'" using 1(3) 2(3) by (simp add: set_eq_iff)
  then have "kvs = kvs'" using strict_sorted_fst_unique 1(2) 2(2) by blast
  then show ?thesis using 1(1) 2(1) by simp
qed

section \<open>A reference engine\<close>

text \<open>A small engine with the documented behaviour: the versions in an association list, newest
  write first.  It shows that the promises can be kept.\<close>

type_synonym ref_tree = "((bytes \<times> seqno) \<times> bytes option) list"

definition ref_content :: "ref_tree \<Rightarrow> content" where
  "ref_content t k s = map_of t (k, s)"

definition ref_newest :: "ref_tree \<Rightarrow> bytes \<Rightarrow> seqno \<Rightarrow> bytes option option" where
  "ref_newest t k s =
     (case filter (\<lambda>q. q < s) (map (snd \<circ> fst) (filter (\<lambda>e. fst (fst e) = k) t)) of
        [] \<Rightarrow> None
      | q # qs \<Rightarrow> map_of t (k, foldr max qs q))"

fun ref_m_insert :: "internal_value \<Rightarrow> internal_value list \<Rightarrow> internal_value list" where
  "ref_m_insert iv [] = [iv]"
| "ref_m_insert iv (x # m) =
     (if iv_before iv x then iv # x # m
      else if iv_before x iv then x # ref_m_insert iv m
      else iv # m)"

definition ref_m_iter :: "internal_value list \<Rightarrow> internal_value list" where
  "ref_m_iter m = foldr ref_m_insert m []"

definition ref_of_memtable :: "internal_value list \<Rightarrow> ref_tree" where
  "ref_of_memtable m = map (\<lambda>iv. ((iv_key iv, iv_seqno iv), version_of iv)) (ref_m_iter m)"

definition ref_view :: "(internal_value list \<times> seqno) option \<Rightarrow> ref_tree \<Rightarrow> seqno \<Rightarrow> bytes \<Rightarrow> bytes option" where
  "ref_view over t s k =
     (case (case over of None \<Rightarrow> None | Some (m, q) \<Rightarrow> ref_newest (ref_of_memtable m) k q) of
        Some x \<Rightarrow> x
      | None \<Rightarrow> (case ref_newest t k s of None \<Rightarrow> None | Some x \<Rightarrow> x))"

definition ref_keys :: "(internal_value list \<times> seqno) option \<Rightarrow> ref_tree \<Rightarrow> bytes list" where
  "ref_keys over t =
     remdups (sort (map (fst \<circ> fst) t @ (case over of None \<Rightarrow> [] | Some (m, _) \<Rightarrow> map iv_key (ref_m_iter m))))"

definition ref_scan ::
    "(bytes \<Rightarrow> bool) \<Rightarrow> seqno \<Rightarrow> (internal_value list \<times> seqno) option \<Rightarrow> ref_tree \<Rightarrow> guard list" where
  "ref_scan P s over t =
     concat (map (\<lambda>k. case ref_view over t s k of None \<Rightarrow> [] | Some v \<Rightarrow> [Inr (k, v)])
       (filter P (ref_keys over t)))"

definition ref_lsm :: "(ref_tree, internal_value list) lsm" where
  "ref_lsm = \<lparr>
     t_insert = (\<lambda>k v s t. (((k, s), Some v) # t, 1, of_nat (length t) + 1)),
     t_remove = (\<lambda>k s t. (((k, s), None) # t, 1, of_nat (length t) + 1)),
     t_remove_weak = (\<lambda>k s t. (((k, s), None) # t, 1, of_nat (length t) + 1)),
     t_clear = (\<lambda>t. Inr []),
     t_get = (\<lambda>k s t. Inr (ref_view None t s k)),
     t_contains_key = (\<lambda>k s t. Inr (ref_view None t s k \<noteq> None)),
     t_size_of = (\<lambda>k s t. Inr (map_option (\<lambda>v. of_nat (length v)) (ref_view None t s k))),
     t_is_empty = (\<lambda>s t. Inr (ref_scan (\<lambda>_. True) s None t = [])),
     t_first_key_value = (\<lambda>s t. case ref_scan (\<lambda>_. True) s None t of [] \<Rightarrow> None | g # _ \<Rightarrow> Some g),
     t_last_key_value = (\<lambda>s t. case rev (ref_scan (\<lambda>_. True) s None t) of [] \<Rightarrow> None | g # _ \<Rightarrow> Some g),
     t_iter = ref_scan (\<lambda>_. True),
     t_range = (\<lambda>r. ref_scan (in_range r)),
     t_prefix = (\<lambda>p. ref_scan (prefix p)),
     t_memtable_id = (\<lambda>t. 0),
     t_memtable_size = (\<lambda>t. of_nat (length t)),
     t_highest_persisted_seqno = (\<lambda>t. None),
     t_highest_seqno = (\<lambda>t. case map (snd \<circ> fst) t of [] \<Rightarrow> None | q # qs \<Rightarrow> Some (foldr max qs q)),
     m_new = [],
     m_insert = Cons,
     m_get = (\<lambda>k s m. find (\<lambda>iv. iv_key iv = k \<and> iv_seqno iv < s) (ref_m_iter m)),
     m_iter = ref_m_iter\<rparr>"

lemma foldr_max: "foldr max qs q = Max (insert q (set qs))" for q :: "'a :: linorder"
  by (induction qs) (simp_all add: max.left_commute insert_commute)

lemma ref_newest_eq: "ref_newest t k s = newest (ref_content t k) s"
proof -
  define qs where "qs = filter (\<lambda>q. q < s) (map (snd \<circ> fst) (filter (\<lambda>e. fst (fst e) = k) t))"
  have "dom (ref_content t k) = (snd \<circ> fst) ` {e \<in> set t. fst (fst e) = k}"
    by (force simp: ref_content_def dom_def map_of_eq_None_iff [symmetric] image_iff weak_map_of_SomeI
        dest: map_of_SomeD)
  then have "{q \<in> dom (ref_content t k). q < s} = set qs"
    by (auto simp: qs_def)
  then show ?thesis
    unfolding ref_newest_def qs_def [symmetric] newest_def Let_def
    by (auto simp: foldr_max ref_content_def split: list.split)
qed

lemma iv_before_total: "\<not> iv_before a b \<Longrightarrow> \<not> iv_before b a \<Longrightarrow> iv_key a = iv_key b \<and> iv_seqno a = iv_seqno b"
  by (cases "iv_key a" "iv_key b" rule: linorder_cases;
      cases "iv_seqno a" "iv_seqno b" rule: linorder_cases) (simp_all add: iv_before_def)

lemma iv_before_trans: "iv_before a b \<Longrightarrow> iv_before b c \<Longrightarrow> iv_before a c"
  by (auto simp: iv_before_def)

lemma iv_before_cong:
  assumes "iv_key a = iv_key b" "iv_seqno a = iv_seqno b"
  shows "iv_before a x = iv_before b x" "iv_before x a = iv_before x b"
  using assms by (simp_all add: iv_before_def)

lemma set_ref_m_insert:
  "set (ref_m_insert iv m) \<subseteq> insert iv (set m)"
  "\<forall>x\<in>set m. iv_seqno x \<noteq> iv_seqno iv \<Longrightarrow> set (ref_m_insert iv m) = insert iv (set m)"
  by (induction m) (auto dest: iv_before_total)

lemma sorted_ref_m_insert: "sorted_wrt iv_before m \<Longrightarrow> sorted_wrt iv_before (ref_m_insert iv m)"
proof (induction m)
  case (Cons x m)
  have sub: "set (ref_m_insert iv m) \<subseteq> insert iv (set m)" by (rule set_ref_m_insert)
  show ?case
  proof (cases "iv_before iv x")
    case True
    then show ?thesis using Cons.prems iv_before_trans by auto
  next
    case False
    show ?thesis
    proof (cases "iv_before x iv")
      case True
      then show ?thesis using Cons False sub by auto
    next
      case False2: False
      then show ?thesis
        using Cons.prems False iv_before_cong [of iv x] iv_before_total [OF False False2] by simp
    qed
  qed
qed simp

lemma sorted_ref_m_iter: "sorted_wrt iv_before (ref_m_iter m)"
  unfolding ref_m_iter_def by (induction m) (simp_all add: sorted_ref_m_insert)

lemma memtable_ok_ref: "memtable_ok ref_lsm"
proof -
  have "set (ref_m_iter (iv # m)) = insert iv (set (ref_m_iter m))"
    if "\<forall>x\<in>set (ref_m_iter m). iv_seqno x < iv_seqno iv" for iv m
  proof -
    have "\<forall>x\<in>set (ref_m_iter m). iv_seqno x \<noteq> iv_seqno iv" using that less_imp_neq by blast
    from set_ref_m_insert(2) [OF this] show ?thesis by (simp add: ref_m_iter_def)
  qed
  moreover have "ref_m_iter [] = []" by (simp add: ref_m_iter_def)
  ultimately show ?thesis
    by (simp add: memtable_ok_def ref_lsm_def sorted_ref_m_iter)
qed

lemma map_of_find:
  "map_of (map (\<lambda>iv. ((iv_key iv, iv_seqno iv), version_of iv)) m) (k, q) = iv_content m k q"
  by (induction m) (auto simp: iv_content_def)

lemma ref_view_over: "ref_view over t s = view_over ref_lsm over (ref_content t) s"
proof -
  have eq: "ref_content (ref_of_memtable m) = iv_content (ref_m_iter m)" for m
    by (intro ext) (simp add: ref_content_def ref_of_memtable_def map_of_find)
  show ?thesis
    by (rule ext) (cases over; simp add: ref_view_def view_over_def overlaid_def seen_def
        ref_newest_eq ref_lsm_def eq split: prod.split option.split)
qed

lemma ref_view_keys: "ref_view over t s k = Some v \<Longrightarrow> k \<in> set (ref_keys over t)"
proof -
  have *: "ref_newest t' k q = Some x \<Longrightarrow> k \<in> (fst \<circ> fst) ` set t'" for t' q x
    by (force simp: ref_newest_def split: list.splits dest: map_of_SomeD)
  show "ref_view over t s k = Some v \<Longrightarrow> k \<in> set (ref_keys over t)"
    using * [of t s] * [of "ref_of_memtable m" q for m q]
    by (fastforce simp: ref_view_def ref_keys_def ref_of_memtable_def split: option.splits)
qed

lemma scans_concat:
  assumes "sorted_wrt (<) ks" "\<And>k v. view k = Some v \<Longrightarrow> P k \<Longrightarrow> k \<in> set ks"
  shows "scans P view (concat (map (\<lambda>k. case view k of None \<Rightarrow> [] | Some v \<Rightarrow> [Inr (k, v)]) (filter P ks)))"
proof -
  define kvs where "kvs = concat (map (\<lambda>k. case view k of None \<Rightarrow> [] | Some v \<Rightarrow> [(k, v)]) (filter P ks))"
  have "concat (map (\<lambda>k. case view k of None \<Rightarrow> [] | Some v \<Rightarrow> [Inr (k, v)]) (filter P ks)) = map Inr kvs"
    unfolding kvs_def by (induction ks) (auto split: option.split)
  moreover have "map fst kvs = filter (\<lambda>k. P k \<and> view k \<noteq> None) ks"
    unfolding kvs_def by (induction ks) (auto split: option.split)
  moreover have "(k, v) \<in> set kvs \<longleftrightarrow> P k \<and> view k = Some v" for k v
    using assms(2) unfolding kvs_def by (auto split: option.splits)
  ultimately show ?thesis
    using assms(1) unfolding scans_def by (intro exI [of _ kvs]) (simp add: sorted_wrt_filter)
qed

lemma scans_ref: "scans P (view_over ref_lsm over (ref_content t) s) (ref_scan P s over t)"
proof -
  have "sorted_wrt (<) (ref_keys over t)"
    unfolding ref_keys_def by (simp add: strict_sorted_iff)
  then show ?thesis
    using scans_concat [of "ref_keys over t" "ref_view over t s" P] ref_view_keys
    unfolding ref_scan_def ref_view_over by blast
qed

lemma ref_lsm_simps [simp]:
  "t_insert ref_lsm k v s t = (((k, s), Some v) # t, 1, of_nat (length t) + 1)"
  "t_remove ref_lsm k s t = (((k, s), None) # t, 1, of_nat (length t) + 1)"
  "t_remove_weak ref_lsm k s t = (((k, s), None) # t, 1, of_nat (length t) + 1)"
  "t_clear ref_lsm t = Inr []"
  "t_get ref_lsm k s t = Inr (ref_view None t s k)"
  "t_contains_key ref_lsm k s t = Inr (ref_view None t s k \<noteq> None)"
  "t_size_of ref_lsm k s t = Inr (map_option (\<lambda>v. of_nat (length v)) (ref_view None t s k))"
  "t_iter ref_lsm = ref_scan (\<lambda>_. True)"
  "t_range ref_lsm r = ref_scan (in_range r)"
  "t_prefix ref_lsm p = ref_scan (prefix p)"
  by (simp_all add: ref_lsm_def)

lemma lsm_ok_ref: "lsm_ok ref_lsm ref_content"
proof -
  have "ref_view None t s = seen (ref_content t) s" for t s
    by (simp add: ref_view_over view_over_def)
  then have "lsm_reads_ok ref_lsm ref_content"
    using scans_ref by (simp add: lsm_reads_ok_def)
  moreover have "lsm_writes_ok ref_lsm ref_content"
    by (simp add: lsm_writes_ok_def ref_content_def add_version_def fun_eq_iff)
  ultimately show ?thesis
    using memtable_ok_ref by (simp add: lsm_ok_def)
qed

end
