(* ===== verification/SnapshotTracker.thy ===== *)
theory SnapshotTracker
  imports Prelude "HOL-Library.Multiset"
begin

text \<open>
  \<open>src/snapshot_tracker.rs\<close> and \<open>src/snapshot_nonce.rs\<close>: the table of open snapshots
  and the garbage collection watermark.

  The \<open>DashMap\<close> is an association list with distinct keys; its order stands for the iteration
  order, which the map does not specify, and the step relation may permute it at any time.
  Counts are natural numbers (\<open>usize\<close> counters bounded by memory).  Each operation holds the
  lock \<open>gc_lock\<close> while it touches the table, so operations are atomic steps.  The ghost
  component of the step relation is the multiset of the instants of live nonces: a nonce is
  created by \<open>open\<close> or by cloning a live one, and its \<open>Drop\<close> closes its instant once.
\<close>

section \<open>Operations\<close>

type_synonym snapshot_table = "(seqno \<times> nat) list"

record tracker =
  tr_seqno :: seqno
  tr_data :: snapshot_table
  tr_freed_count :: u64
  tr_lowest_freed_instant :: seqno

definition tracker_new :: "seqno \<Rightarrow> tracker" where
  "tracker_new seqno =
     \<lparr>tr_seqno = seqno, tr_data = [], tr_freed_count = 0, tr_lowest_freed_instant = 0\<rparr>"

definition tracker_get :: "tracker \<Rightarrow> seqno" where
  "tracker_get t = tr_seqno t"

definition tracker_set :: "seqno \<Rightarrow> tracker \<Rightarrow> tracker" where
  "tracker_set v t = t\<lparr>tr_seqno := max (tr_seqno t) v\<rparr>"

definition tracker_len :: "tracker \<Rightarrow> nat" where
  "tracker_len t = length (tr_data t)"

definition open_snapshots :: "tracker \<Rightarrow> nat" where
  "open_snapshots t = sum_list (map snd (tr_data t))"

fun entry_increment :: "seqno \<Rightarrow> snapshot_table \<Rightarrow> snapshot_table" where
  "entry_increment s [] = [(s, 1)]"
| "entry_increment s ((k, v) # d) = (if k = s then (k, v + 1) # d else (k, v) # entry_increment s d)"

definition tracker_open :: "tracker \<Rightarrow> tracker \<times> seqno" where
  "tracker_open t =
     (let seqno = tr_seqno t in (t\<lparr>tr_data := entry_increment seqno (tr_data t)\<rparr>, seqno))"

definition clone_snapshot :: "seqno \<Rightarrow> tracker \<Rightarrow> tracker" where
  "clone_snapshot instant t = t\<lparr>tr_data := entry_increment instant (tr_data t)\<rparr>"

definition publish :: "seqno \<Rightarrow> tracker \<Rightarrow> tracker" where
  "publish batch_seqno t = t\<lparr>tr_seqno := max (tr_seqno t) (batch_seqno + 1)\<rparr>"

definition get_seqno_safe_to_gc :: "tracker \<Rightarrow> seqno" where
  "get_seqno_safe_to_gc t = tr_lowest_freed_instant t"

definition pullup :: "tracker \<Rightarrow> tracker" where
  "pullup t =
     (if tr_data t = [] then t\<lparr>tr_lowest_freed_instant := sat_sub (tr_seqno t) 1\<rparr> else t)"

definition gc_retained :: "seqno \<Rightarrow> seqno \<times> nat \<Rightarrow> bool" where
  "gc_retained threshold e = (snd e > 0 \<or> fst e \<ge> threshold)"

text \<open>The closure that \<open>gc\<close> hands to \<open>retain\<close>, run over the table in iteration order: it
  accumulates \<open>lowest_retained\<close> (0 meaning none yet) and \<open>none_retained\<close>.\<close>

fun gc_scan :: "seqno \<Rightarrow> snapshot_table \<Rightarrow> seqno \<times> bool \<Rightarrow> seqno \<times> bool" where
  "gc_scan threshold [] acc = acc"
| "gc_scan threshold (e # d) (lowest, none) =
     gc_scan threshold d
       (if gc_retained threshold e
        then (if lowest = 0 then fst e else min lowest (fst e), False)
        else (lowest, none))"

definition tracker_gc :: "tracker \<Rightarrow> tracker" where
  "tracker_gc t =
     (let threshold = tr_seqno t;
          (lowest, none) = gc_scan threshold (tr_data t) (0, True);
          lowest_retained = (if none then threshold else lowest)
      in t\<lparr>tr_data := filter (gc_retained threshold) (tr_data t),
           tr_lowest_freed_instant := max (tr_lowest_freed_instant t) (sat_sub lowest_retained 1)\<rparr>)"

definition entry_decrement :: "seqno \<Rightarrow> snapshot_table \<Rightarrow> snapshot_table" where
  "entry_decrement s d = map (\<lambda>(k, v). if k = s then (k, v - 1) else (k, v)) d"

definition close_raw :: "seqno \<Rightarrow> tracker \<Rightarrow> tracker" where
  "close_raw instant t =
     (let freed = tr_freed_count t + 1;
          t' = t\<lparr>tr_data := entry_decrement instant (tr_data t), tr_freed_count := freed\<rparr>
      in if freed mod 10000 = 0 then tracker_gc t' else t')"

section \<open>Steps\<close>

type_synonym tracker_state = "tracker \<times> seqno multiset"

inductive tracker_step :: "tracker_state \<Rightarrow> tracker_state \<Rightarrow> bool" where
  step_open: "tracker_open t = (t', i) \<Longrightarrow> tracker_step (t, L) (t', add_mset i L)"
| step_clone: "i \<in># L \<Longrightarrow> tracker_step (t, L) (clone_snapshot i t, add_mset i L)"
| step_drop: "i \<in># L \<Longrightarrow> tracker_step (t, L) (close_raw i t, L - {#i#})"
| step_publish: "s \<noteq> - 1 \<Longrightarrow> tracker_step (t, L) (publish s t, L)"
| step_set: "tracker_step (t, L) (tracker_set s t, L)"
| step_gc: "tracker_step (t, L) (tracker_gc t, L)"
| step_pullup: "tracker_step (t, L) (pullup t, L)"
| step_reorder: "mset d = mset (tr_data t) \<Longrightarrow> tracker_step (t, L) (t\<lparr>tr_data := d\<rparr>, L)"

inductive tracker_reachable :: "seqno \<Rightarrow> tracker_state \<Rightarrow> bool" for s0 where
  reach_new: "tracker_reachable s0 (tracker_new s0, {#})"
| reach_step: "tracker_reachable s0 x \<Longrightarrow> tracker_step x y \<Longrightarrow> tracker_reachable s0 y"

inductive_cases tracker_stepE: "tracker_step (t, L) y"

section \<open>The invariant\<close>

definition entry_count :: "snapshot_table \<Rightarrow> seqno \<Rightarrow> nat" where
  "entry_count d i = (case map_of d i of None \<Rightarrow> 0 | Some v \<Rightarrow> v)"

definition table_keys :: "snapshot_table \<Rightarrow> seqno set" where
  "table_keys d = fst ` set d"

text \<open>Every live nonce is counted under its instant, and the watermark is below every live
  instant and below the visible sequence number.\<close>

definition tracker_inv :: "tracker_state \<Rightarrow> bool" where
  "tracker_inv x = (case x of (t, L) \<Rightarrow>
     distinct (map fst (tr_data t)) \<and>
     (\<forall>i. entry_count (tr_data t) i = count L i) \<and>
     (\<forall>k\<in>table_keys (tr_data t). 0 < k \<and> k \<le> tr_seqno t) \<and>
     0 < tr_seqno t \<and>
     tr_lowest_freed_instant t < tr_seqno t \<and>
     (\<forall>i\<in>#L. tr_lowest_freed_instant t < i))"

lemma keys_entry_increment: "table_keys (entry_increment s d) = insert s (table_keys d)"
  by (induction s d rule: entry_increment.induct) (auto simp: table_keys_def)

lemma distinct_entry_increment: "distinct (map fst d) \<Longrightarrow> distinct (map fst (entry_increment s d))"
proof (induction s d rule: entry_increment.induct)
  case (2 s k v d)
  have "set (map fst (entry_increment s d)) = insert s (set (map fst d))"
    using keys_entry_increment [of s d] by (simp add: table_keys_def)
  with 2 show ?case by auto
qed simp

lemma entry_count_increment:
  "entry_count (entry_increment s d) i = entry_count d i + (if i = s then 1 else 0)"
  by (induction s d rule: entry_increment.induct) (auto simp: entry_count_def)

lemma map_fst_entry_decrement [simp]: "map fst (entry_decrement s d) = map fst d"
  by (induction d) (auto simp: entry_decrement_def)

lemma keys_entry_decrement [simp]: "table_keys (entry_decrement s d) = table_keys d"
  by (metis list.set_map map_fst_entry_decrement table_keys_def)

lemma keys_filter: "table_keys (filter P d) \<subseteq> table_keys d"
  by (auto simp: table_keys_def)

lemma entry_count_decrement:
  "entry_count (entry_decrement s d) i = entry_count d i - (if i = s then 1 else 0)"
  by (induction d) (auto simp: entry_count_def entry_decrement_def)

lemma entry_count_filter:
  assumes "distinct (map fst d)"
  shows "entry_count (filter (gc_retained th) d) i = entry_count d i"
  using assms
proof (induction d)
  case (Cons e d)
  have "map_of d (fst e) = None" "map_of (filter (gc_retained th) d) (fst e) = None"
    using Cons.prems by (auto simp: map_of_eq_None_iff)
  with Cons show ?case
    by (cases e) (auto simp: entry_count_def gc_retained_def)
qed (simp add: entry_count_def)

lemma entry_count_mset:
  assumes "distinct (map fst d)" "mset d' = mset d"
  shows "entry_count d' i = entry_count d i"
proof -
  have "distinct (map fst d')"
    using assms by (metis mset_eq_imp_distinct_iff mset_map)
  then have "map_of d' = map_of d"
    using assms by (metis map_of_inject_set set_mset_mset)
  then show ?thesis by (simp add: entry_count_def)
qed

text \<open>Without an entry for instant 0 the scan computes the least retained key, whatever the
  iteration order.\<close>

lemma gc_scan_none:
  "gc_scan th d (lo, n) = (lo', n') \<Longrightarrow> n' \<longleftrightarrow> n \<and> filter (gc_retained th) d = []"
  by (induction th d "(lo, n)" arbitrary: lo n rule: gc_scan.induct) (auto split: if_splits)

lemma gc_scan_min:
  assumes "\<forall>e\<in>set d. fst e \<noteq> 0" "gc_scan th d (lo, n) = (lo', n')" "lo \<noteq> 0"
  shows "lo' \<le> lo \<and> lo' \<noteq> 0 \<and> (\<forall>e\<in>set (filter (gc_retained th) d). lo' \<le> fst e)
    \<and> (lo' = lo \<or> (\<exists>e\<in>set (filter (gc_retained th) d). lo' = fst e))"
  using assms
proof (induction th d "(lo, n)" arbitrary: lo n rule: gc_scan.induct)
  case (2 th e d lo n)
  show ?case
  proof (cases "gc_retained th e")
    case True
    have "min lo (fst e) \<noteq> 0" using 2(2,4) by (auto simp: min_def)
    moreover have "gc_scan th d (min lo (fst e), False) = (lo', n')"
      using 2(3,4) True by simp
    ultimately have "lo' \<le> min lo (fst e) \<and> lo' \<noteq> 0 \<and>
        (\<forall>e\<in>set (filter (gc_retained th) d). lo' \<le> fst e) \<and>
        (lo' = min lo (fst e) \<or> (\<exists>e\<in>set (filter (gc_retained th) d). lo' = fst e))"
      using 2(1) [of "min lo (fst e)" False] 2(2,4) True by auto
    with True show ?thesis by (auto simp: min_def split: if_splits)
  next
    case False
    with 2(1) [of lo n] 2(2-4) show ?thesis by auto
  qed
qed simp

lemma gc_scan_least:
  assumes "\<forall>e\<in>set d. fst e \<noteq> 0" "gc_scan th d (0, True) = (lo, False)"
  shows "(\<exists>e\<in>set (filter (gc_retained th) d). lo = fst e) \<and>
    (\<forall>e\<in>set (filter (gc_retained th) d). lo \<le> fst e)"
  using assms
proof (induction d)
  case (Cons e d)
  show ?case
  proof (cases "gc_retained th e")
    case True
    then have "gc_scan th d (fst e, False) = (lo, False)" "fst e \<noteq> 0"
      using Cons.prems by simp_all
    with gc_scan_min [of d th "fst e" False lo False] Cons.prems True show ?thesis by auto
  qed (use Cons in auto)
qed simp

section \<open>Every step keeps the invariant\<close>

lemma sat_sub_one_less: "0 < a \<Longrightarrow> sat_sub a 1 < (a :: u64)"
  by (auto simp: sat_sub_def) unat_arith

lemma sat_sub_one_mono: "a \<le> b \<Longrightarrow> sat_sub a 1 \<le> sat_sub b (1 :: u64)"
  by (auto simp: sat_sub_def) unat_arith+

lemma inv_open:
  assumes "tracker_inv (t, L)" "tracker_open t = (t', i)"
  shows "tracker_inv (t', add_mset i L)"
  using assms
  by (auto simp: tracker_inv_def tracker_open_def Let_def distinct_entry_increment
      keys_entry_increment entry_count_increment)

lemma inv_clone:
  assumes "tracker_inv (t, L)" "i \<in># L"
  shows "tracker_inv (clone_snapshot i t, add_mset i L)"
proof -
  have "i \<in> table_keys (tr_data t)"
  proof (rule ccontr)
    assume "i \<notin> table_keys (tr_data t)"
    then have "entry_count (tr_data t) i = 0"
      by (simp add: entry_count_def table_keys_def map_of_eq_None_iff [THEN iffD2])
    with assms show False by (simp add: tracker_inv_def count_eq_zero_iff)
  qed
  with assms show ?thesis
    by (auto simp: tracker_inv_def clone_snapshot_def distinct_entry_increment
      keys_entry_increment entry_count_increment)
qed

lemma gc_lowest:
  assumes "tracker_inv (t, L)"
  obtains lr where
    "tracker_gc t = t\<lparr>tr_data := filter (gc_retained (tr_seqno t)) (tr_data t),
       tr_lowest_freed_instant := max (tr_lowest_freed_instant t) (sat_sub lr 1)\<rparr>"
    and "0 < lr" "lr \<le> tr_seqno t"
    and "\<forall>e\<in>set (filter (gc_retained (tr_seqno t)) (tr_data t)). lr \<le> fst e"
    and "lr = tr_seqno t \<or> (\<exists>e\<in>set (filter (gc_retained (tr_seqno t)) (tr_data t)). lr = fst e)"
proof -
  let ?th = "tr_seqno t" and ?d = "tr_data t"
  obtain lo n where scan: "gc_scan ?th ?d (0, True) = (lo, n)" by fastforce
  have nz: "\<forall>e\<in>set ?d. fst e \<noteq> 0" and le: "\<forall>e\<in>set ?d. fst e \<le> ?th" and pos: "0 < ?th"
    using assms by (auto simp: tracker_inv_def table_keys_def)
  define lr where "lr = (if n then ?th else lo)"
  have eq: "tracker_gc t = t\<lparr>tr_data := filter (gc_retained ?th) ?d,
       tr_lowest_freed_instant := max (tr_lowest_freed_instant t) (sat_sub lr 1)\<rparr>"
    by (simp add: tracker_gc_def Let_def scan lr_def)
  show thesis
  proof (cases n)
    case True
    with gc_scan_none [OF scan] have "filter (gc_retained ?th) ?d = []" by simp
    with True pos show thesis
      by (intro that [OF eq]) (simp_all add: lr_def)
  next
    case False
    with gc_scan_least [OF nz] scan
    have "(\<exists>e\<in>set (filter (gc_retained ?th) ?d). lo = fst e)"
      "(\<forall>e\<in>set (filter (gc_retained ?th) ?d). lo \<le> fst e)" by auto
    with False nz le show thesis
      by (intro that [OF eq]) (auto simp: lr_def word_gt_0)
  qed
qed

lemma live_retained:
  assumes "tracker_inv (t, L)" "i \<in># L"
  shows "\<exists>e\<in>set (filter (gc_retained (tr_seqno t)) (tr_data t)). fst e = i"
proof -
  have "entry_count (tr_data t) i > 0"
    using assms by (simp add: tracker_inv_def)
  then obtain v where "map_of (tr_data t) i = Some v" "v > 0"
    by (auto simp: entry_count_def split: option.splits)
  then have "(i, v) \<in> set (tr_data t)" by (simp add: map_of_SomeD)
  with \<open>v > 0\<close> show ?thesis by (auto simp: gc_retained_def intro!: bexI [of _ "(i, v)"])
qed

lemma live_bounds:
  assumes "tracker_inv (t, L)" "i \<in># L"
  shows "0 < i" "i \<le> tr_seqno t"
proof -
  have "i \<in> table_keys (tr_data t)"
    using live_retained [OF assms] by (auto simp: table_keys_def intro!: image_eqI)
  then show "0 < i" "i \<le> tr_seqno t"
    using assms(1) by (auto simp: tracker_inv_def)
qed

lemma inv_gc:
  assumes inv: "tracker_inv (t, L)"
  shows "tracker_inv (tracker_gc t, L)"
proof -
  obtain lr where gc: "tracker_gc t = t\<lparr>tr_data := filter (gc_retained (tr_seqno t)) (tr_data t),
       tr_lowest_freed_instant := max (tr_lowest_freed_instant t) (sat_sub lr 1)\<rparr>"
    and lr: "0 < lr" "lr \<le> tr_seqno t" "\<forall>e\<in>set (filter (gc_retained (tr_seqno t)) (tr_data t)). lr \<le> fst e"
    using gc_lowest [OF inv] by metis
  have lt: "sat_sub lr 1 < lr" using lr(1) by (rule sat_sub_one_less)
  have "sat_sub lr 1 < i" if "i \<in># L" for i
    using live_retained [OF inv that] lr(3) lt by fastforce
  moreover have "sat_sub lr 1 < tr_seqno t"
    using lt lr(2) by simp
  moreover have "distinct (map fst (filter (gc_retained (tr_seqno t)) (tr_data t)))"
    using inv by (simp add: tracker_inv_def distinct_map_filter)
  ultimately show ?thesis
    using inv keys_filter [of "gc_retained (tr_seqno t)" "tr_data t"]
    by (auto simp: gc tracker_inv_def entry_count_filter)
qed

lemma inv_close_raw:
  assumes inv: "tracker_inv (t, L)" and "i \<in># L"
  shows "tracker_inv (close_raw i t, L - {#i#})"
proof -
  let ?t = "t\<lparr>tr_data := entry_decrement i (tr_data t), tr_freed_count := tr_freed_count t + 1\<rparr>"
  have "tracker_inv (?t, L - {#i#})"
    using assms by (auto simp: tracker_inv_def entry_count_decrement dest: in_diffD)
  then show ?thesis
    using inv_gc [of ?t "L - {#i#}"] by (simp add: close_raw_def Let_def)
qed

lemma inv_advance:
  assumes "tracker_inv (t, L)"
  shows "tracker_inv (t\<lparr>tr_seqno := max (tr_seqno t) s\<rparr>, L)"
  using assms by (auto simp: tracker_inv_def max_def)

lemma inv_pullup: "tracker_inv (t, L) \<Longrightarrow> tracker_inv (pullup t, L)"
proof (cases "tr_data t = []")
  case True
  assume inv: "tracker_inv (t, L)"
  then have "L = {#}"
    using True by (auto simp: tracker_inv_def entry_count_def multiset_eq_iff)
  with inv True show ?thesis
    by (auto simp: tracker_inv_def pullup_def sat_sub_one_less entry_count_def table_keys_def)
qed (simp add: pullup_def)

lemma inv_reorder:
  assumes inv: "tracker_inv (t, L)" and d: "mset d = mset (tr_data t)"
  shows "tracker_inv (t\<lparr>tr_data := d\<rparr>, L)"
proof -
  have d0: "distinct (map fst (tr_data t))"
    using inv by (simp add: tracker_inv_def)
  have "mset (map fst d) = mset (map fst (tr_data t))"
    by (simp add: d)
  then have d1: "distinct (map fst d)"
    using d0 mset_eq_imp_distinct_iff by blast
  have k: "table_keys d = table_keys (tr_data t)"
    using mset_eq_setD [OF d] by (simp add: table_keys_def)
  show ?thesis
    using inv d1 k entry_count_mset [OF d0 d] by (simp add: tracker_inv_def)
qed

lemma tracker_step_inv: "tracker_step x y \<Longrightarrow> tracker_inv x \<Longrightarrow> tracker_inv y"
proof (induction rule: tracker_step.induct)
  case (step_publish s t L)
  then show ?case using inv_advance [of t L "s + 1"] by (simp add: publish_def)
next
  case (step_set t L s)
  then show ?case using inv_advance [of t L s] by (simp add: tracker_set_def)
qed (simp_all add: inv_open inv_clone inv_close_raw inv_gc inv_pullup inv_reorder)

lemma tracker_new_inv: "0 < s0 \<Longrightarrow> tracker_inv (tracker_new s0, {#})"
  by (simp add: tracker_inv_def tracker_new_def entry_count_def table_keys_def)

lemma tracker_reachable_inv: "tracker_reachable s0 x \<Longrightarrow> 0 < s0 \<Longrightarrow> tracker_inv x"
  by (induction rule: tracker_reachable.induct) (auto intro: tracker_step_inv tracker_new_inv)

lemma sum_table_eq_size:
  assumes "distinct (map fst d)" "\<forall>i. entry_count d i = count L i"
  shows "sum_list (map snd d) = size L"
  using assms
proof (induction d arbitrary: L)
  case Nil
  then have "L = {#}" by (auto simp: entry_count_def multiset_eq_iff)
  then show ?case by simp
next
  case (Cons e d)
  obtain k v where e: "e = (k, v)" by (cases e)
  let ?M = "filter_mset (\<lambda>i. i \<noteq> k) L"
  have kd: "map_of d k = None"
    using Cons.prems(1) by (simp add: e map_of_eq_None_iff)
  have "entry_count d i = count ?M i" for i
    using kd spec [OF Cons.prems(2), of i] by (cases "i = k") (simp_all add: e entry_count_def)
  then have "sum_list (map snd d) = size ?M"
    using Cons.IH [of ?M] Cons.prems(1) by simp
  moreover have "count L k = v"
    using spec [OF Cons.prems(2), of k] by (simp add: e entry_count_def)
  then have "filter_mset (\<lambda>i. i = k) L = replicate_mset v k"
    by (simp add: filter_eq_replicate_mset)
  moreover have "size L = size ?M + size (filter_mset (\<lambda>i. i = k) L)"
    using arg_cong [OF multiset_partition [of L "\<lambda>i. i \<noteq> k"], of size]
    by (simp only: size_union not_not)
  ultimately show ?case by (simp add: e)
qed

section \<open>Properties\<close>



text \<open>The tracker counts live snapshots exactly: \<open>open_snapshots\<close> is the number of live
  nonces, and the table lists every instant at most once.\<close>

lemma tracker_counts_live:
  assumes "tracker_reachable s0 (t, L)" "0 < s0"
  shows "open_snapshots t = size L \<and> distinct (map fst (tr_data t))"
  using tracker_reachable_inv [OF assms] sum_table_eq_size [of "tr_data t" L]
  by (simp add: tracker_inv_def open_snapshots_def)



text \<open>C36: a snapshot opened while the visible sequence number is still 0 defeats the watermark.
  The scan of \<open>gc\<close> uses 0 for ``nothing retained yet'', so an entry for instant 0 makes it
  forget the entries it saw before: there is a run from a fresh tracker after which a live
  snapshot at instant 3 is at or below the watermark, so its data may be collected.\<close>

theorem tracker_gc_forgets_after_instant_zero:
  "\<exists>t L. tracker_reachable 0 (t, L) \<and> 3 \<in># L \<and> 3 \<le> get_seqno_safe_to_gc t"
proof -
  let ?t = "\<lambda>d s. \<lparr>tr_seqno = s, tr_data = d, tr_freed_count = 0, tr_lowest_freed_instant = 0\<rparr>"
  have "tracker_reachable 0 (?t [] 0, {#})"
    using reach_new [of 0] by (simp add: tracker_new_def)
  then have "tracker_reachable 0 (?t [(0, 1)] 0, {#0#})"
    by (rule reach_step [OF _ step_open]) (simp add: tracker_open_def)
  then have "tracker_reachable 0 (publish 2 (?t [(0, 1)] 0), {#0#})"
    by (rule reach_step [OF _ step_publish]) simp
  then have "tracker_reachable 0 (?t [(0, 1), (3, 1)] 3, {#3, 0#})"
    by (rule reach_step [OF _ step_open]) (simp add: tracker_open_def publish_def)
  then have "tracker_reachable 0 (publish 4 (?t [(0, 1), (3, 1)] 3), {#3, 0#})"
    by (rule reach_step [OF _ step_publish]) simp
  then have "tracker_reachable 0 (?t [(0, 1), (3, 1), (5, 1)] 5, {#5, 3, 0#})"
    by (rule reach_step [OF _ step_open]) (simp add: tracker_open_def publish_def)
  then have "tracker_reachable 0
      ((?t [(0, 1), (3, 1), (5, 1)] 5)\<lparr>tr_data := [(3, 1), (0, 1), (5, 1)]\<rparr>, {#5, 3, 0#})"
    by (rule reach_step [OF _ step_reorder]) simp
  then have "tracker_reachable 0 (tracker_gc (?t [(3, 1), (0, 1), (5, 1)] 5), {#5, 3, 0#})"
    using reach_step [OF _ step_gc] by simp
  moreover have "get_seqno_safe_to_gc (tracker_gc (?t [(3, 1), (0, 1), (5, 1)] 5)) = 4"
    by (simp add: tracker_gc_def get_seqno_safe_to_gc_def gc_retained_def sat_sub_def Let_def)
  ultimately show ?thesis
    by (intro exI [of _ "tracker_gc (?t [(3, 1), (0, 1), (5, 1)] 5)"] exI [of _ "{#5, 3, 0#}"]) simp
qed

end
