(* ===== verification/Database.thy ===== *)
theory Database
  imports LsmTree JournalWriter SnapshotTracker
begin

text \<open>
  \<open>src/keyspace/mod.rs\<close>, \<open>src/batch\<close>, \<open>src/snapshot.rs\<close>, \<open>src/write_buffer_manager.rs\<close> and the
  keyspace-facing part of \<open>src/db.rs\<close>: single writes, batches, reads and snapshots.

  A \<open>Keyspace\<close> is a shared handle; the database state maps the id of a handle to the object
  behind it, and the supervisor's name table maps names to ids.  A write holds the journal
  mutex from the poison check to the publication of its sequence number, so each operation is
  one step.  The engine, the journal's codecs and the outcome of flush and fsync are
  parameters (\<open>engine\<close>).  The stalls of \<open>local_backpressure\<close> only delay the caller and are not
  modelled.
\<close>

section \<open>State\<close>

record ('t, 'm) engine =
  en_lsm :: "('t, 'm) lsm"
  en_journal :: journal_env
  en_flush :: "journal_writer \<Rightarrow> io_kind option"
  en_sync :: "persist_mode \<Rightarrow> journal_writer \<Rightarrow> io_kind option"

record 't keyspace =
  ks_id :: u64
  ks_name :: rstr
  ks_manual_journal_persist :: bool
  ks_max_memtable_size :: u64
  ks_is_deleted :: bool
  ks_tree :: 't

datatype worker_message = Flush | Compact u64 | Close | RotateMemtable u64 u64

record 't db =
  db_handles :: "u64 \<Rightarrow> 't keyspace option"
  db_keyspaces :: "rstr \<Rightarrow> u64 option"
  db_seqno :: seqno
  db_is_poisoned :: bool
  db_journal :: journal_writer
  db_tracker :: tracker
  db_write_buffer_size :: u64
  db_messages :: "worker_message list"
  db_manual_journal_persist :: bool

abbreviation dangling :: error where "dangling \<equiv> Panic ''dangling keyspace handle''"

definition set_tree :: "u64 \<Rightarrow> 't \<Rightarrow> 't db \<Rightarrow> 't db" where
  "set_tree h t db =
     db\<lparr>db_handles := (db_handles db)(h := map_option (\<lambda>ks. ks\<lparr>ks_tree := t\<rparr>) (db_handles db h))\<rparr>"

definition next_seqno :: "'t db \<Rightarrow> seqno \<times> 't db" where
  "next_seqno db = (db_seqno db, db\<lparr>db_seqno := db_seqno db + 1\<rparr>)"

section \<open>Write buffer and worker queue\<close>

definition allocate :: "u64 \<Rightarrow> u64 \<Rightarrow> u64 \<times> u64" where
  "allocate n sz = (sz + n, sz + n)"

definition free_buffer :: "u64 \<Rightarrow> u64 \<Rightarrow> u64 \<times> u64" where
  "free_buffer n sz = (sat_sub sz n, sat_sub sz n)"

definition WORKER_QUEUE_CAPACITY :: nat where "WORKER_QUEUE_CAPACITY = 1000"

text \<open>\<open>try_send\<close> on the bounded channel drops the message when the channel is full.\<close>

definition try_send :: "worker_message \<Rightarrow> 't db \<Rightarrow> 't db" where
  "try_send m db =
     (if length (db_messages db) < WORKER_QUEUE_CAPACITY then db\<lparr>db_messages := db_messages db @ [m]\<rparr> else db)"

definition request_rotation :: "('t, 'm) engine \<Rightarrow> u64 \<Rightarrow> 't db \<Rightarrow> 't db" where
  "request_rotation E h db =
     (case db_handles db h of
        None \<Rightarrow> db
      | Some ks \<Rightarrow> try_send (RotateMemtable h (t_memtable_id (en_lsm E) (ks_tree ks))) db)"

definition check_memtable_rotate :: "('t, 'm) engine \<Rightarrow> u64 \<Rightarrow> u64 \<Rightarrow> 't db \<Rightarrow> 't db" where
  "check_memtable_rotate E h sz db =
     (case db_handles db h of
        None \<Rightarrow> db
      | Some ks \<Rightarrow> if sz > ks_max_memtable_size ks then request_rotation E h db else db)"

section \<open>Persisting\<close>

text \<open>\<open>Writer::persist\<close> with the outcomes of flush and fsync: a failed flush leaves the buffer
  dirty.\<close>

definition try_persist ::
    "('t, 'm) engine \<Rightarrow> persist_mode \<Rightarrow> journal_writer \<Rightarrow> (io_kind + unit) \<times> journal_writer" where
  "try_persist E mode w =
     (case (if jw_is_buffer_dirty w then en_flush E w else None) of
        Some k \<Rightarrow> (Inl k, w)
      | None \<Rightarrow>
          (let w1 = (if jw_is_buffer_dirty w
                     then w\<lparr>jw_flushed := length (jw_bytes w), jw_is_buffer_dirty := False\<rparr> else w)
           in case mode of
                Buffer \<Rightarrow> (Inr (), w1)
              | _ \<Rightarrow> (case en_sync E mode w1 of
                        Some k \<Rightarrow> (Inl k, w1)
                      | None \<Rightarrow> (Inr (), w1\<lparr>jw_synced := jw_flushed w1\<rparr>))))"

text \<open>The persist step of the keyspace writes: a failure poisons the database.\<close>

definition write_persist :: "('t, 'm) engine \<Rightarrow> bool \<Rightarrow> 't db \<Rightarrow> unit result \<times> 't db" where
  "write_persist E manual db =
     (if manual then (Inr (), db)
      else case try_persist E Buffer (db_journal db) of
        (Inl k, w) \<Rightarrow> (Inl (Io k), db\<lparr>db_journal := w, db_is_poisoned := True\<rparr>)
      | (Inr _, w) \<Rightarrow> (Inr (), db\<lparr>db_journal := w\<rparr>))"

definition database_persist :: "('t, 'm) engine \<Rightarrow> persist_mode \<Rightarrow> 't db \<Rightarrow> unit result \<times> 't db" where
  "database_persist E mode db =
     (if db_is_poisoned db then (Inl Poisoned, db)
      else case try_persist E mode (db_journal db) of
        (Inl k, w) \<Rightarrow> (Inl Poisoned, db\<lparr>db_journal := w, db_is_poisoned := True\<rparr>)
      | (Inr _, w) \<Rightarrow> (Inr (), db\<lparr>db_journal := w\<rparr>))"

section \<open>Single writes\<close>

definition journal_raw ::
    "('t, 'm) engine \<Rightarrow> u64 \<Rightarrow> bytes \<Rightarrow> bytes \<Rightarrow> value_type \<Rightarrow> seqno \<Rightarrow> 't db \<Rightarrow> 't db" where
  "journal_raw E h key value vt seqno db =
     db\<lparr>db_journal := fst (write_raw (en_journal E) h key value vt seqno (db_journal db))\<rparr>"

text \<open>The common end of the three writes: the tree has the item; publish, then account for it.\<close>

definition finish_write :: "('t, 'm) engine \<Rightarrow> u64 \<Rightarrow> seqno \<Rightarrow> 't \<times> u64 \<times> u64 \<Rightarrow> 't db \<Rightarrow> 't db" where
  "finish_write E h seqno r db =
     (let (tree, item_size, memtable_size) = r;
          db1 = set_tree h tree db;
          db2 = db1\<lparr>db_tracker := publish seqno (db_tracker db1)\<rparr>;
          db3 = db2\<lparr>db_write_buffer_size := snd (allocate item_size (db_write_buffer_size db2))\<rparr>
      in check_memtable_rotate E h memtable_size db3)"

definition keyspace_insert ::
    "('t, 'm) engine \<Rightarrow> u64 \<Rightarrow> bytes \<Rightarrow> bytes \<Rightarrow> 't db \<Rightarrow> unit result \<times> 't db" where
  "keyspace_insert E h key value db =
     (case db_handles db h of
        None \<Rightarrow> (Inl dangling, db)
      | Some ks \<Rightarrow>
          if ks_is_deleted ks then (Inl KeyspaceDeleted, db)
          else if db_is_poisoned db then (Inl Poisoned, db)
          else
            let (seqno, db1) = next_seqno db;
                db2 = journal_raw E (ks_id ks) key value Value seqno db1
            in case write_persist E (ks_manual_journal_persist ks) db2 of
                 (Inl e, db3) \<Rightarrow> (Inl e, db3)
               | (Inr _, db3) \<Rightarrow>
                   (Inr (), finish_write E h seqno (t_insert (en_lsm E) key value seqno (ks_tree ks)) db3))"

definition keyspace_remove :: "('t, 'm) engine \<Rightarrow> u64 \<Rightarrow> bytes \<Rightarrow> 't db \<Rightarrow> unit result \<times> 't db" where
  "keyspace_remove E h key db =
     (case db_handles db h of
        None \<Rightarrow> (Inl dangling, db)
      | Some ks \<Rightarrow>
          if ks_is_deleted ks then (Inl KeyspaceDeleted, db)
          else if db_is_poisoned db then (Inl Poisoned, db)
          else
            let (seqno, db1) = next_seqno db;
                db2 = journal_raw E (ks_id ks) key [] Tombstone seqno db1
            in case write_persist E (ks_manual_journal_persist ks) db2 of
                 (Inl e, db3) \<Rightarrow> (Inl e, db3)
               | (Inr _, db3) \<Rightarrow>
                   (Inr (), finish_write E h seqno (t_remove (en_lsm E) key seqno (ks_tree ks)) db3))"

text \<open>\<open>remove_weak\<close> journals a weak tombstone and applies \<open>tree.remove\<close>, as the source does.\<close>

definition keyspace_remove_weak :: "('t, 'm) engine \<Rightarrow> u64 \<Rightarrow> bytes \<Rightarrow> 't db \<Rightarrow> unit result \<times> 't db" where
  "keyspace_remove_weak E h key db =
     (case db_handles db h of
        None \<Rightarrow> (Inl dangling, db)
      | Some ks \<Rightarrow>
          if ks_is_deleted ks then (Inl KeyspaceDeleted, db)
          else if db_is_poisoned db then (Inl Poisoned, db)
          else
            let (seqno, db1) = next_seqno db;
                db2 = journal_raw E (ks_id ks) key [] WeakTombstone seqno db1
            in case write_persist E (ks_manual_journal_persist ks) db2 of
                 (Inl e, db3) \<Rightarrow> (Inl e, db3)
               | (Inr _, db3) \<Rightarrow>
                   (Inr (), finish_write E h seqno (t_remove (en_lsm E) key seqno (ks_tree ks)) db3))"

definition keyspace_clear :: "('t, 'm) engine \<Rightarrow> u64 \<Rightarrow> 't db \<Rightarrow> unit result \<times> 't db" where
  "keyspace_clear E h db =
     (case db_handles db h of
        None \<Rightarrow> (Inl dangling, db)
      | Some ks \<Rightarrow>
          if db_is_poisoned db then (Inl Poisoned, db)
          else
            let (seqno, db1) = next_seqno db;
                db2 = db1\<lparr>db_journal := fst (write_clear (en_journal E) (ks_id ks) seqno (db_journal db1))\<rparr>
            in case write_persist E (ks_manual_journal_persist ks) db2 of
                 (Inl e, db3) \<Rightarrow> (Inl e, db3)
               | (Inr _, db3) \<Rightarrow>
                   (case t_clear (en_lsm E) (ks_tree ks) of
                      Inl e \<Rightarrow> (Inl (Storage e), db3)
                    | Inr tree \<Rightarrow>
                        (Inr (), (set_tree h tree db3)\<lparr>db_tracker := publish seqno (db_tracker db3)\<rparr>)))"

section \<open>Reads\<close>

definition keyspace_read :: "u64 \<Rightarrow> ('t \<Rightarrow> lsm_error + 'a) \<Rightarrow> 't db \<Rightarrow> 'a result" where
  "keyspace_read h f db =
     (case db_handles db h of None \<Rightarrow> Inl dangling | Some ks \<Rightarrow> map_err Storage (f (ks_tree ks)))"

definition keyspace_get :: "('t, 'm) engine \<Rightarrow> u64 \<Rightarrow> bytes \<Rightarrow> 't db \<Rightarrow> bytes option result" where
  "keyspace_get E h key db = keyspace_read h (t_get (en_lsm E) key SEQNO_MAX) db"

definition keyspace_contains_key :: "('t, 'm) engine \<Rightarrow> u64 \<Rightarrow> bytes \<Rightarrow> 't db \<Rightarrow> bool result" where
  "keyspace_contains_key E h key db = keyspace_read h (t_contains_key (en_lsm E) key SEQNO_MAX) db"

definition keyspace_size_of :: "('t, 'm) engine \<Rightarrow> u64 \<Rightarrow> bytes \<Rightarrow> 't db \<Rightarrow> u32 option result" where
  "keyspace_size_of E h key db = keyspace_read h (t_size_of (en_lsm E) key SEQNO_MAX) db"

definition keyspace_is_empty :: "('t, 'm) engine \<Rightarrow> u64 \<Rightarrow> 't db \<Rightarrow> bool result" where
  "keyspace_is_empty E h db = keyspace_read h (t_is_empty (en_lsm E) SEQNO_MAX) db"

text \<open>An iterator holds a nonce until it is dropped: the reads return its instant with the items,
  and \<open>iter_drop\<close> closes it.\<close>

definition with_nonce :: "(seqno \<Rightarrow> 't db \<Rightarrow> 'a) \<Rightarrow> 't db \<Rightarrow> ('a \<times> seqno) \<times> 't db" where
  "with_nonce f db =
     (let (tr, instant) = tracker_open (db_tracker db);
          db1 = db\<lparr>db_tracker := tr\<rparr>
      in ((f instant db1, instant), db1))"

definition iter_drop :: "seqno \<Rightarrow> 't db \<Rightarrow> 't db" where
  "iter_drop instant db = db\<lparr>db_tracker := close_raw instant (db_tracker db)\<rparr>"

definition tree_scan :: "u64 \<Rightarrow> ('t \<Rightarrow> guard list) \<Rightarrow> 't db \<Rightarrow> guard list" where
  "tree_scan h f db = (case db_handles db h of None \<Rightarrow> [] | Some ks \<Rightarrow> f (ks_tree ks))"

definition keyspace_iter :: "('t, 'm) engine \<Rightarrow> u64 \<Rightarrow> 't db \<Rightarrow> (guard list \<times> seqno) \<times> 't db" where
  "keyspace_iter E h db = with_nonce (\<lambda>instant. tree_scan h (t_iter (en_lsm E) instant None)) db"

definition keyspace_range ::
    "('t, 'm) engine \<Rightarrow> u64 \<Rightarrow> bytes bound \<times> bytes bound \<Rightarrow> 't db \<Rightarrow> (guard list \<times> seqno) \<times> 't db" where
  "keyspace_range E h rg db = with_nonce (\<lambda>instant. tree_scan h (t_range (en_lsm E) rg SEQNO_MAX None)) db"

definition keyspace_prefix ::
    "('t, 'm) engine \<Rightarrow> u64 \<Rightarrow> bytes \<Rightarrow> 't db \<Rightarrow> (guard list \<times> seqno) \<times> 't db" where
  "keyspace_prefix E h p db = with_nonce (\<lambda>instant. tree_scan h (t_prefix (en_lsm E) p SEQNO_MAX None)) db"

text \<open>\<open>len\<close> walks an iterator; a guard that fails stops it.\<close>

fun count_guards :: "guard list \<Rightarrow> nat \<Rightarrow> nat result" where
  "count_guards [] n = Inr n"
| "count_guards (Inl e # gs) n = Inl (Storage e)"
| "count_guards (Inr _ # gs) n = count_guards gs (n + 1)"

definition keyspace_len :: "('t, 'm) engine \<Rightarrow> u64 \<Rightarrow> 't db \<Rightarrow> nat result \<times> 't db" where
  "keyspace_len E h db =
     (let ((gs, instant), db1) = keyspace_iter E h db
      in (count_guards gs 0, iter_drop instant db1))"

section \<open>Snapshots\<close>

definition database_snapshot :: "'t db \<Rightarrow> seqno \<times> 't db" where
  "database_snapshot db =
     (let (tr, instant) = tracker_open (db_tracker db) in (instant, db\<lparr>db_tracker := tr\<rparr>))"

definition snapshot_get :: "('t, 'm) engine \<Rightarrow> seqno \<Rightarrow> u64 \<Rightarrow> bytes \<Rightarrow> 't db \<Rightarrow> bytes option result" where
  "snapshot_get E instant h key db = keyspace_read h (t_get (en_lsm E) key instant) db"

definition snapshot_contains_key :: "('t, 'm) engine \<Rightarrow> seqno \<Rightarrow> u64 \<Rightarrow> bytes \<Rightarrow> 't db \<Rightarrow> bool result" where
  "snapshot_contains_key E instant h key db = keyspace_read h (t_contains_key (en_lsm E) key instant) db"

definition snapshot_size_of :: "('t, 'm) engine \<Rightarrow> seqno \<Rightarrow> u64 \<Rightarrow> bytes \<Rightarrow> 't db \<Rightarrow> u32 option result" where
  "snapshot_size_of E instant h key db = keyspace_read h (t_size_of (en_lsm E) key instant) db"

definition snapshot_iter :: "('t, 'm) engine \<Rightarrow> seqno \<Rightarrow> u64 \<Rightarrow> 't db \<Rightarrow> guard list" where
  "snapshot_iter E instant h db = tree_scan h (t_iter (en_lsm E) instant None) db"

definition snapshot_range ::
    "('t, 'm) engine \<Rightarrow> seqno \<Rightarrow> u64 \<Rightarrow> bytes bound \<times> bytes bound \<Rightarrow> 't db \<Rightarrow> guard list" where
  "snapshot_range E instant h rg db = tree_scan h (t_range (en_lsm E) rg instant None) db"

definition snapshot_prefix :: "('t, 'm) engine \<Rightarrow> seqno \<Rightarrow> u64 \<Rightarrow> bytes \<Rightarrow> 't db \<Rightarrow> guard list" where
  "snapshot_prefix E instant h p db = tree_scan h (t_prefix (en_lsm E) p instant None) db"

definition snapshot_first_key_value :: "('t, 'm) engine \<Rightarrow> seqno \<Rightarrow> u64 \<Rightarrow> 't db \<Rightarrow> guard option" where
  "snapshot_first_key_value E instant h db =
     (case snapshot_iter E instant h db of [] \<Rightarrow> None | g # _ \<Rightarrow> Some g)"

definition snapshot_last_key_value :: "('t, 'm) engine \<Rightarrow> seqno \<Rightarrow> u64 \<Rightarrow> 't db \<Rightarrow> guard option" where
  "snapshot_last_key_value E instant h db =
     (case rev (snapshot_iter E instant h db) of [] \<Rightarrow> None | g # _ \<Rightarrow> Some g)"

section \<open>Batches\<close>

record pending_batch =
  wb_data :: "batch_item list"
  wb_durability :: "persist_mode option"

definition batch_new :: "pending_batch" where
  "batch_new = \<lparr>wb_data = [], wb_durability = None\<rparr>"

definition database_batch :: "'t db \<Rightarrow> pending_batch" where
  "database_batch db =
     (if db_manual_journal_persist db then batch_new else batch_new\<lparr>wb_durability := Some Buffer\<rparr>)"

definition item_new :: "u64 \<Rightarrow> bytes \<Rightarrow> bytes \<Rightarrow> value_type \<Rightarrow> batch_item result" where
  "item_new h key value vt =
     (if key = [] then Inl (Panic ''assertion failed: !k.is_empty()'')
      else if length key \<ge> 2 ^ 16 then Inl (Panic ''Keys can be up to 65535 bytes long'')
      else if length value \<ge> 2 ^ 32 then Inl (Panic ''Values can be up to 2^32 bytes long'')
      else Inr \<lparr>bi_keyspace = h, bi_key = key, bi_value = value, bi_type = vt\<rparr>)"

definition batch_push :: "batch_item result \<Rightarrow> pending_batch \<Rightarrow> pending_batch result" where
  "batch_push r b = map_r (\<lambda>i. b\<lparr>wb_data := wb_data b @ [i]\<rparr>) r"

definition batch_insert :: "u64 \<Rightarrow> bytes \<Rightarrow> bytes \<Rightarrow> pending_batch \<Rightarrow> pending_batch result" where
  "batch_insert h key value b = batch_push (item_new h key value Value) b"

definition batch_remove :: "u64 \<Rightarrow> bytes \<Rightarrow> pending_batch \<Rightarrow> pending_batch result" where
  "batch_remove h key b = batch_push (item_new h key [] Tombstone) b"

definition batch_remove_weak :: "u64 \<Rightarrow> bytes \<Rightarrow> pending_batch \<Rightarrow> pending_batch result" where
  "batch_remove_weak h key b = batch_push (item_new h key [] WeakTombstone) b"

definition apply_item :: "('t, 'm) engine \<Rightarrow> seqno \<Rightarrow> batch_item \<Rightarrow> 't \<Rightarrow> ('t \<times> u64 \<times> u64) result" where
  "apply_item E seqno i tree =
     (case bi_type i of
        Value \<Rightarrow> Inr (t_insert (en_lsm E) (bi_key i) (bi_value i) seqno tree)
      | Tombstone \<Rightarrow> Inr (t_remove (en_lsm E) (bi_key i) seqno tree)
      | WeakTombstone \<Rightarrow> Inr (t_remove_weak (en_lsm E) (bi_key i) seqno tree)
      | Indirection \<Rightarrow> Inl (Panic ''entered unreachable code''))"

text \<open>The apply loop, with the batch size; a panic leaves the items applied so far.\<close>

fun apply_items ::
    "('t, 'm) engine \<Rightarrow> seqno \<Rightarrow> batch_item list \<Rightarrow> u64 \<Rightarrow> 't db \<Rightarrow> u64 result \<times> 't db" where
  "apply_items E seqno [] sz db = (Inr sz, db)"
| "apply_items E seqno (i # is) sz db =
     (case db_handles db (bi_keyspace i) of
        None \<Rightarrow> (Inl dangling, db)
      | Some ks \<Rightarrow>
          (case apply_item E seqno i (ks_tree ks) of
             Inl e \<Rightarrow> (Inl e, db)
           | Inr (tree, item_size, _) \<Rightarrow>
               apply_items E seqno is (sz + item_size) (set_tree (bi_keyspace i) tree db)))"

text \<open>\<open>keyspaces_with_possible_stall\<close>: each keyspace of the batch once.\<close>

definition rotate_touched :: "('t, 'm) engine \<Rightarrow> batch_item list \<Rightarrow> 't db \<Rightarrow> 't db" where
  "rotate_touched E items db =
     fold (\<lambda>h d. case db_handles d h of
             None \<Rightarrow> d
           | Some ks \<Rightarrow> check_memtable_rotate E h (t_memtable_size (en_lsm E) (ks_tree ks)) d)
       (remdups (map bi_keyspace items)) db"

definition batch_persist :: "('t, 'm) engine \<Rightarrow> persist_mode option \<Rightarrow> 't db \<Rightarrow> unit result \<times> 't db" where
  "batch_persist E durability db =
     (case durability of
        None \<Rightarrow> (Inr (), db)
      | Some mode \<Rightarrow>
          (case try_persist E mode (db_journal db) of
             (Inl k, w) \<Rightarrow> (Inl Poisoned, db\<lparr>db_journal := w, db_is_poisoned := True\<rparr>)
           | (Inr _, w) \<Rightarrow> (Inr (), db\<lparr>db_journal := w\<rparr>)))"

definition journal_batch :: "('t, 'm) engine \<Rightarrow> batch_item list \<Rightarrow> seqno \<Rightarrow> 't db \<Rightarrow> 't db" where
  "journal_batch E items seqno db =
     db\<lparr>db_journal := fst (write_batch (en_journal E) items (length items) seqno (db_journal db))\<rparr>"

definition batch_commit :: "('t, 'm) engine \<Rightarrow> pending_batch \<Rightarrow> 't db \<Rightarrow> unit result \<times> 't db" where
  "batch_commit E b db =
     (if wb_data b = [] then (Inr (), db)
      else if db_is_poisoned db then (Inl Poisoned, db)
      else
        let (seqno, db1) = next_seqno db;
            db2 = journal_batch E (wb_data b) seqno db1
        in case batch_persist E (wb_durability b) db2 of
             (Inl e, db3) \<Rightarrow> (Inl e, db3)
           | (Inr _, db3) \<Rightarrow>
               (case apply_items E seqno (wb_data b) 0 db3 of
                  (Inl e, db4) \<Rightarrow> (Inl e, db4)
                | (Inr sz, db4) \<Rightarrow>
                    let db5 = db4\<lparr>db_tracker := publish seqno (db_tracker db4)\<rparr>;
                        db6 = db5\<lparr>db_write_buffer_size := snd (allocate sz (db_write_buffer_size db5))\<rparr>
                    in (Inr (), rotate_touched E (wb_data b) db6)))"

section \<open>Frame facts\<close>

lemma try_send_simps [simp]:
  "db_handles (try_send m db) = db_handles db" "db_keyspaces (try_send m db) = db_keyspaces db"
  "db_seqno (try_send m db) = db_seqno db" "db_is_poisoned (try_send m db) = db_is_poisoned db"
  "db_journal (try_send m db) = db_journal db" "db_tracker (try_send m db) = db_tracker db"
  by (simp_all add: try_send_def)

lemma check_memtable_rotate_simps [simp]:
  "db_handles (check_memtable_rotate E h sz db) = db_handles db"
  "db_keyspaces (check_memtable_rotate E h sz db) = db_keyspaces db"
  "db_seqno (check_memtable_rotate E h sz db) = db_seqno db"
  "db_is_poisoned (check_memtable_rotate E h sz db) = db_is_poisoned db"
  "db_journal (check_memtable_rotate E h sz db) = db_journal db"
  "db_tracker (check_memtable_rotate E h sz db) = db_tracker db"
  by (simp_all add: check_memtable_rotate_def request_rotation_def split: option.split)

lemma set_tree_simps [simp]:
  "db_handles (set_tree h t db) =
     (db_handles db)(h := map_option (\<lambda>ks. ks\<lparr>ks_tree := t\<rparr>) (db_handles db h))"
  "db_keyspaces (set_tree h t db) = db_keyspaces db"
  "db_seqno (set_tree h t db) = db_seqno db" "db_is_poisoned (set_tree h t db) = db_is_poisoned db"
  "db_journal (set_tree h t db) = db_journal db" "db_tracker (set_tree h t db) = db_tracker db"
  by (simp_all add: set_tree_def)

lemma finish_write_simps [simp]:
  "db_handles (finish_write E h s r db) =
     (db_handles db)(h := map_option (\<lambda>ks. ks\<lparr>ks_tree := fst r\<rparr>) (db_handles db h))"
  "db_keyspaces (finish_write E h s r db) = db_keyspaces db"
  "db_seqno (finish_write E h s r db) = db_seqno db"
  "db_is_poisoned (finish_write E h s r db) = db_is_poisoned db"
  "db_journal (finish_write E h s r db) = db_journal db"
  "db_tracker (finish_write E h s r db) = publish s (db_tracker db)"
  by (simp_all add: finish_write_def Let_def split: prod.split)

lemma journal_raw_simps [simp]:
  "db_handles (journal_raw E h k v vt s db) = db_handles db"
  "db_keyspaces (journal_raw E h k v vt s db) = db_keyspaces db"
  "db_seqno (journal_raw E h k v vt s db) = db_seqno db"
  "db_is_poisoned (journal_raw E h k v vt s db) = db_is_poisoned db"
  "db_tracker (journal_raw E h k v vt s db) = db_tracker db"
  by (simp_all add: journal_raw_def)

lemma write_persist_simps:
  assumes "write_persist E manual db = (r, db')"
  shows "db_handles db' = db_handles db" "db_keyspaces db' = db_keyspaces db"
    "db_seqno db' = db_seqno db" "db_tracker db' = db_tracker db"
    "db_is_poisoned db' = (db_is_poisoned db \<or> is_err r)"
  using assms by (auto simp: write_persist_def split: if_splits prod.splits sum.splits)

lemma try_persist_bytes [simp]: "jw_bytes (snd (try_persist E mode w)) = jw_bytes w"
  by (cases mode) (auto simp: try_persist_def Let_def split: option.split)

section \<open>The abstract database\<close>

text \<open>What a read at an instant returns, and the invariant: every handle carries its id, all
  versions are below the next sequence number, and nothing unpublished is visible.\<close>

definition read_at :: "('t \<Rightarrow> content) \<Rightarrow> seqno \<Rightarrow> 't db \<Rightarrow> u64 \<Rightarrow> bytes \<Rightarrow> bytes option" where
  "read_at hc i db h = (case db_handles db h of None \<Rightarrow> Map.empty | Some ks \<Rightarrow> seen (hc (ks_tree ks)) i)"

definition db_inv :: "('t \<Rightarrow> content) \<Rightarrow> 't db \<Rightarrow> bool" where
  "db_inv hc db \<longleftrightarrow>
     (\<forall>h ks. db_handles db h = Some ks \<longrightarrow> ks_id ks = h \<and> below (db_seqno db) (hc (ks_tree ks))) \<and>
     tr_seqno (db_tracker db) \<le> db_seqno db"

datatype single_write = Insert bytes bytes | Remove bytes | RemoveWeak bytes

fun write_key :: "single_write \<Rightarrow> bytes" where
  "write_key (Insert k v) = k" | "write_key (Remove k) = k" | "write_key (RemoveWeak k) = k"

fun write_value :: "single_write \<Rightarrow> bytes option" where
  "write_value (Insert k v) = Some v" | "write_value (Remove k) = None" | "write_value (RemoveWeak k) = None"

fun keyspace_write :: "('t, 'm) engine \<Rightarrow> u64 \<Rightarrow> single_write \<Rightarrow> 't db \<Rightarrow> unit result \<times> 't db" where
  "keyspace_write E h (Insert k v) db = keyspace_insert E h k v db"
| "keyspace_write E h (Remove k) db = keyspace_remove E h k db"
| "keyspace_write E h (RemoveWeak k) db = keyspace_remove_weak E h k db"

fun write_type :: "single_write \<Rightarrow> value_type" where
  "write_type (Insert k v) = Value" | "write_type (Remove k) = Tombstone" | "write_type (RemoveWeak k) = WeakTombstone"

definition write_bytes :: "single_write \<Rightarrow> bytes" where
  "write_bytes w = (case write_value w of None \<Rightarrow> [] | Some v \<Rightarrow> v)"

fun tree_write :: "('t, 'm) engine \<Rightarrow> single_write \<Rightarrow> seqno \<Rightarrow> 't \<Rightarrow> 't \<times> u64 \<times> u64" where
  "tree_write E (Insert k v) s t = t_insert (en_lsm E) k v s t"
| "tree_write E (Remove k) s t = t_remove (en_lsm E) k s t"
| "tree_write E (RemoveWeak k) s t = t_remove (en_lsm E) k s t"

text \<open>The three writes in one form.\<close>

lemma keyspace_write_eq:
  "keyspace_write E h w db =
     (case db_handles db h of
        None \<Rightarrow> (Inl dangling, db)
      | Some ks \<Rightarrow>
          if ks_is_deleted ks then (Inl KeyspaceDeleted, db)
          else if db_is_poisoned db then (Inl Poisoned, db)
          else case write_persist E (ks_manual_journal_persist ks)
                 (journal_raw E (ks_id ks) (write_key w) (write_bytes w) (write_type w) (db_seqno db)
                    (db\<lparr>db_seqno := db_seqno db + 1\<rparr>)) of
              (Inl e, db3) \<Rightarrow> (Inl e, db3)
            | (Inr _, db3) \<Rightarrow>
                (Inr (), finish_write E h (db_seqno db) (tree_write E w (db_seqno db) (ks_tree ks)) db3))"
  by (induction w)
    (simp_all add: keyspace_insert_def keyspace_remove_def keyspace_remove_weak_def next_seqno_def
      write_bytes_def split: option.split prod.split sum.split)

lemma tree_write_content:
  "lsm_writes_ok (en_lsm E) hc \<Longrightarrow>
    hc (fst (tree_write E w s t)) = add_version (write_key w) s (write_value w) (hc t)"
  by (cases w) (simp_all add: lsm_writes_ok_def)

lemma seqno_less_Suc: "s \<noteq> - 1 \<Longrightarrow> s < s + (1 :: seqno)"
  using plus_one_le_seqno [of s "s + 1"] by simp

text \<open>A successful write adds one version at the old next sequence number, and nothing else.\<close>

lemma keyspace_write_effect:
  assumes L: "lsm_writes_ok (en_lsm E) hc" and ok: "keyspace_write E h w db = (Inr (), db')"
  obtains ks t where "db_handles db h = Some ks" "\<not> ks_is_deleted ks" "\<not> db_is_poisoned db"
    "db_handles db' = (db_handles db)(h \<mapsto> ks\<lparr>ks_tree := t\<rparr>)"
    "hc t = add_version (write_key w) (db_seqno db) (write_value w) (hc (ks_tree ks))"
    "db_seqno db' = db_seqno db + 1" "db_tracker db' = publish (db_seqno db) (db_tracker db)"
    "db_keyspaces db' = db_keyspaces db" "\<not> db_is_poisoned db'"
proof -
  obtain ks where ks: "db_handles db h = Some ks" "\<not> ks_is_deleted ks" "\<not> db_is_poisoned db"
    using ok by (auto simp: keyspace_write_eq split: option.splits if_splits)
  then obtain db3 where p: "write_persist E (ks_manual_journal_persist ks)
        (journal_raw E (ks_id ks) (write_key w) (write_bytes w) (write_type w) (db_seqno db)
           (db\<lparr>db_seqno := db_seqno db + 1\<rparr>)) = (Inr (), db3)"
      "db' = finish_write E h (db_seqno db) (tree_write E w (db_seqno db) (ks_tree ks)) db3"
    using ok by (auto simp: keyspace_write_eq split: prod.splits sum.splits)
  show thesis
    by (rule that [OF ks, of "fst (tree_write E w (db_seqno db) (ks_tree ks))"])
      (use p(2) write_persist_simps [OF p(1)] ks tree_write_content [OF L] in simp_all)
qed

lemma read_at_write:
  assumes "lsm_writes_ok (en_lsm E) hc" "db_inv hc db" "keyspace_write E h w db = (Inr (), db')"
  shows "i \<le> db_seqno db \<Longrightarrow> read_at hc i db' = read_at hc i db"
    and "db_seqno db < i \<Longrightarrow>
      read_at hc i db' = (read_at hc i db)(h := (read_at hc i db h)(write_key w := write_value w))"
    and "db_seqno db \<noteq> - 1 \<Longrightarrow> db_inv hc db'"
proof -
  obtain ks t where eff: "db_handles db h = Some ks"
    "db_handles db' = (db_handles db)(h \<mapsto> ks\<lparr>ks_tree := t\<rparr>)"
    "hc t = add_version (write_key w) (db_seqno db) (write_value w) (hc (ks_tree ks))"
    "db_seqno db' = db_seqno db + 1" "db_tracker db' = publish (db_seqno db) (db_tracker db)"
    by (rule keyspace_write_effect [OF assms(1,3)])
  have below: "below (db_seqno db) (hc (ks_tree ks))" "ks_id ks = h"
    using assms(2) eff(1) by (auto simp: db_inv_def)
  show "i \<le> db_seqno db \<Longrightarrow> read_at hc i db' = read_at hc i db"
    by (auto simp: fun_eq_iff read_at_def eff)
  show "db_seqno db < i \<Longrightarrow>
      read_at hc i db' = (read_at hc i db)(h := (read_at hc i db h)(write_key w := write_value w))"
    by (auto simp: fun_eq_iff read_at_def eff seen_add_below [OF below(1)])
  assume "db_seqno db \<noteq> - 1"
  then have s: "db_seqno db < db_seqno db + 1" by (rule seqno_less_Suc)
  have "below (db_seqno db + 1) (hc (ks_tree ks'))" if "db_handles db h' = Some ks'" for h' ks'
    using assms(2) that s below_mono less_imp_le unfolding db_inv_def by blast
  then show "db_inv hc db'"
    using assms(2) eff below s below_add [OF below(1) s less_imp_le [OF s]]
    by (auto simp: db_inv_def publish_def)
qed

section \<open>Batches, abstractly\<close>

definition item_value :: "batch_item \<Rightarrow> bytes option" where
  "item_value i = (if bi_type i = Value then Some (bi_value i) else None)"

definition item_ok :: "'t db \<Rightarrow> batch_item \<Rightarrow> bool" where
  "item_ok db i = (bi_type i \<noteq> Indirection \<and> db_handles db (bi_keyspace i) \<noteq> None)"

type_synonym view = "u64 \<Rightarrow> bytes \<Rightarrow> bytes option"

definition view_item :: "batch_item \<Rightarrow> view \<Rightarrow> view" where
  "view_item i v = v(bi_keyspace i := (v (bi_keyspace i))(bi_key i := item_value i))"

text \<open>The versions of all keys lie below \<open>s\<close>, or at \<open>s\<close> itself.\<close>

definition up_to :: "seqno \<Rightarrow> content \<Rightarrow> bool" where
  "up_to s c = (\<forall>k q x. c k q = Some x \<longrightarrow> q \<le> s)"

lemma up_to_add: "up_to s c \<Longrightarrow> up_to s (add_version k s x c)"
  by (auto simp: up_to_def add_version_def split: if_splits)

lemma below_up_to: "below s c \<Longrightarrow> up_to s c"
  using less_imp_le unfolding below_def up_to_def by blast

lemma up_to_below: "up_to s c \<Longrightarrow> s \<noteq> - 1 \<Longrightarrow> below (s + 1) c"
  using seqno_less_Suc unfolding below_def up_to_def by (meson le_less_trans)

lemma seen_add_up_to: "up_to s c \<Longrightarrow> s < i \<Longrightarrow> seen (add_version k s x c) i = (seen c i)(k := x)"
  by (rule seen_add_top) (auto simp: up_to_def)

lemma apply_item_content:
  assumes "lsm_writes_ok (en_lsm E) hc" "bi_type i \<noteq> Indirection"
  obtains t a b where "apply_item E s i tree = Inr (t, a, b)"
    "hc t = add_version (bi_key i) s (item_value i) (hc tree)"
proof (cases "bi_type i")
  case Value
  then show thesis using assms that
    by (cases "t_insert (en_lsm E) (bi_key i) (bi_value i) s tree")
      (simp add: apply_item_def item_value_def lsm_writes_ok_def, metis fst_conv)
next
  case Tombstone
  then show thesis using assms that
    by (cases "t_remove (en_lsm E) (bi_key i) s tree")
      (simp add: apply_item_def item_value_def lsm_writes_ok_def, metis fst_conv)
next
  case WeakTombstone
  then show thesis using assms that
    by (cases "t_remove_weak (en_lsm E) (bi_key i) s tree")
      (simp add: apply_item_def item_value_def lsm_writes_ok_def, metis fst_conv)
qed (use assms in simp)

text \<open>The handles other than their trees stay, and all versions stay up to \<open>s\<close>.\<close>

definition same_handles :: "'t db \<Rightarrow> 't db \<Rightarrow> bool" where
  "same_handles db db' = (\<forall>h. map_option (\<lambda>ks. ks\<lparr>ks_tree := undefined\<rparr>) (db_handles db' h) =
     map_option (\<lambda>ks. ks\<lparr>ks_tree := undefined\<rparr>) (db_handles db h))"

definition same_rest :: "'t db \<Rightarrow> 't db \<Rightarrow> bool" where
  "same_rest db db' \<longleftrightarrow> db_seqno db' = db_seqno db \<and> db_tracker db' = db_tracker db \<and>
     db_is_poisoned db' = db_is_poisoned db \<and> db_journal db' = db_journal db \<and>
     db_keyspaces db' = db_keyspaces db"

definition trees_up_to :: "('t \<Rightarrow> content) \<Rightarrow> seqno \<Rightarrow> 't db \<Rightarrow> bool" where
  "trees_up_to hc s db = (\<forall>h ks. db_handles db h = Some ks \<longrightarrow> up_to s (hc (ks_tree ks)))"

lemma same_handles_trans: "same_handles a b \<Longrightarrow> same_handles b c \<Longrightarrow> same_handles a c"
  by (simp add: same_handles_def)

lemma same_handles_set_tree: "db_handles db h = Some ks \<Longrightarrow> same_handles db (set_tree h t db)"
  by (simp add: same_handles_def)

lemma same_handles_None: "same_handles db db' \<Longrightarrow> db_handles db' h = None \<longleftrightarrow> db_handles db h = None"
  unfolding same_handles_def by (metis option.map_disc_iff)

lemma apply_items_effect:
  assumes "lsm_writes_ok (en_lsm E) hc" "trees_up_to hc s db" "list_all (item_ok db) items"
  shows "\<exists>sz' db'. apply_items E s items sz db = (Inr sz', db') \<and>
    same_handles db db' \<and> trees_up_to hc s db' \<and>
    same_rest db db' \<and>
    (\<forall>j. j \<le> s \<longrightarrow> read_at hc j db' = read_at hc j db) \<and>
    (\<forall>j. s < j \<longrightarrow> read_at hc j db' = fold view_item items (read_at hc j db))"
  using assms(2,3)
proof (induction items arbitrary: sz db)
  case Nil
  then show ?case by (simp add: same_handles_def same_rest_def)
next
  case (Cons i items)
  let ?h = "bi_keyspace i"
  obtain ks where ks: "db_handles db ?h = Some ks" and ty: "bi_type i \<noteq> Indirection"
    using Cons.prems(2) by (auto simp: item_ok_def)
  obtain t a b where t: "apply_item E s i (ks_tree ks) = Inr (t, a, b)"
    "hc t = add_version (bi_key i) s (item_value i) (hc (ks_tree ks))"
    using apply_item_content [OF assms(1) ty] by metis
  let ?db1 = "set_tree ?h t db"
  have up: "up_to s (hc (ks_tree ks))" using Cons.prems(1) ks by (simp add: trees_up_to_def)
  have up1: "trees_up_to hc s ?db1"
    using Cons.prems(1) ks up_to_add [OF up] t(2) by (auto simp: trees_up_to_def)
  have ok1: "list_all (item_ok ?db1) items"
    using Cons.prems(2) ks by (auto simp: item_ok_def list_all_iff)
  have lo: "read_at hc j ?db1 = read_at hc j db" if "j \<le> s" for j
    using that ks by (intro ext) (simp add: read_at_def t(2))
  have hi: "read_at hc j ?db1 = view_item i (read_at hc j db)" if "s < j" for j
    using ks seen_add_up_to [OF up that] by (intro ext) (simp add: read_at_def view_item_def t(2))
  obtain sz' db' where IH: "apply_items E s items (sz + a) ?db1 = (Inr sz', db')"
    "same_handles ?db1 db'" "trees_up_to hc s db'" "same_rest ?db1 db'"
    "\<forall>j. j \<le> s \<longrightarrow> read_at hc j db' = read_at hc j ?db1"
    "\<forall>j. s < j \<longrightarrow> read_at hc j db' = fold view_item items (read_at hc j ?db1)"
    using Cons.IH [OF up1 ok1, of "sz + a"] by blast
  have "apply_items E s (i # items) sz db = (Inr sz', db')" using IH(1) ks t(1) by simp
  moreover have "same_rest db db'" using IH(4) by (simp add: same_rest_def)
  ultimately show ?case
    using IH(2,3,5,6) lo hi same_handles_trans [OF same_handles_set_tree [OF ks]] by (intro exI) auto
qed

lemma rotate_touched_simps [simp]:
  "db_handles (rotate_touched E items db) = db_handles db"
  "db_keyspaces (rotate_touched E items db) = db_keyspaces db"
  "db_seqno (rotate_touched E items db) = db_seqno db"
  "db_is_poisoned (rotate_touched E items db) = db_is_poisoned db"
  "db_journal (rotate_touched E items db) = db_journal db"
  "db_tracker (rotate_touched E items db) = db_tracker db"
proof -
  have "db_handles (fold f hs db) = db_handles db \<and> db_keyspaces (fold f hs db) = db_keyspaces db \<and>
      db_seqno (fold f hs db) = db_seqno db \<and> db_is_poisoned (fold f hs db) = db_is_poisoned db \<and>
      db_journal (fold f hs db) = db_journal db \<and> db_tracker (fold f hs db) = db_tracker db"
    if "f = (\<lambda>h d. case db_handles d h of None \<Rightarrow> d
           | Some ks \<Rightarrow> check_memtable_rotate E h (t_memtable_size (en_lsm E) (ks_tree ks)) d)" for f hs
    unfolding that by (induction hs arbitrary: db) (simp_all split: option.split)
  then show "db_handles (rotate_touched E items db) = db_handles db"
    "db_keyspaces (rotate_touched E items db) = db_keyspaces db"
    "db_seqno (rotate_touched E items db) = db_seqno db"
    "db_is_poisoned (rotate_touched E items db) = db_is_poisoned db"
    "db_journal (rotate_touched E items db) = db_journal db"
    "db_tracker (rotate_touched E items db) = db_tracker db"
    by (simp_all add: rotate_touched_def)
qed

lemma read_at_cong: "db_handles db' = db_handles db \<Longrightarrow> read_at hc i db' = read_at hc i db"
  by (simp add: read_at_def fun_eq_iff)

lemma same_handles_ids:
  assumes "same_handles db db'" "db_handles db' h = Some ks'"
  obtains ks where "db_handles db h = Some ks" "ks_id ks' = ks_id ks" "ks_is_deleted ks' = ks_is_deleted ks"
    "ks_name ks' = ks_name ks" "ks_manual_journal_persist ks' = ks_manual_journal_persist ks"
proof -
  obtain ks where ks: "db_handles db h = Some ks"
    using assms same_handles_None [OF assms(1), of h] by auto
  have "ks'\<lparr>ks_tree := undefined\<rparr> = ks\<lparr>ks_tree := undefined\<rparr>"
    using assms ks unfolding same_handles_def by (metis option.map(2) option.inject)
  then show thesis
    using that [OF ks] by (cases ks; cases ks') simp
qed

lemma batch_persist_frame:
  assumes "batch_persist E d db = (r, db')"
  shows "db_handles db' = db_handles db" "db_seqno db' = db_seqno db" "db_tracker db' = db_tracker db"
    "r = Inl Poisoned \<and> db_is_poisoned db' \<or> r = Inr () \<and> db_is_poisoned db' = db_is_poisoned db"
  using assms by (auto simp: batch_persist_def split: option.splits prod.splits sum.splits)

lemma journal_batch_simps [simp]:
  "db_handles (journal_batch E items s db) = db_handles db"
  "db_seqno (journal_batch E items s db) = db_seqno db"
  "db_is_poisoned (journal_batch E items s db) = db_is_poisoned db"
  "db_tracker (journal_batch E items s db) = db_tracker db"
  by (simp_all add: journal_batch_def)

text \<open>A batch that finds the database healthy either fails to persist, or is applied.\<close>

lemma batch_commit_run:
  assumes "wb_data b \<noteq> []" "\<not> db_is_poisoned db" "batch_commit E b db = (r, db')"
  obtains (failed) db3 where "r = Inl Poisoned" "db' = db3" "db_is_poisoned db3"
      "db_handles db3 = db_handles db" "db_seqno db3 = db_seqno db + 1" "db_tracker db3 = db_tracker db"
  | (applied) db3 q db4 where "\<not> db_is_poisoned db3"
      "db_handles db3 = db_handles db" "db_seqno db3 = db_seqno db + 1" "db_tracker db3 = db_tracker db"
      "apply_items E (db_seqno db) (wb_data b) 0 db3 = (q, db4)"
      "(\<exists>e. q = Inl e \<and> r = Inl e \<and> db' = db4) \<or>
       (\<exists>sz. q = Inr sz \<and> r = Inr () \<and> db_handles db' = db_handles db4 \<and> db_seqno db' = db_seqno db4 \<and>
          db_tracker db' = publish (db_seqno db) (db_tracker db4) \<and> db_is_poisoned db' = db_is_poisoned db4)"
proof -
  obtain pr db3 where P: "batch_persist E (wb_durability b)
      (journal_batch E (wb_data b) (db_seqno db) (db\<lparr>db_seqno := db_seqno db + 1\<rparr>)) = (pr, db3)"
    by fastforce
  note frame = batch_persist_frame [OF P]
  note run = assms(3) [unfolded batch_commit_def next_seqno_def Let_def prod.case P]
  show thesis
  proof (cases pr)
    case (Inl e)
    then show thesis using failed [of db3] frame run assms by auto
  next
    case (Inr u)
    obtain q db4 where A: "apply_items E (db_seqno db) (wb_data b) 0 db3 = (q, db4)" by fastforce
    show thesis
      by (rule applied [OF _ _ _ _ A]) (use frame run assms A Inr in \<open>auto split: sum.splits\<close>)
  qed
qed

lemma db_inv_committed:
  assumes "db_inv hc db" "same_handles db db'" "trees_up_to hc (db_seqno db) db'"
    and "db_seqno db' = db_seqno db + 1" "db_tracker db' = publish (db_seqno db) (db_tracker db)"
    and "db_seqno db \<noteq> - 1"
  shows "db_inv hc db'"
  unfolding db_inv_def
proof (intro conjI allI impI)
  fix h ks' assume ks': "db_handles db' h = Some ks'"
  then show "ks_id ks' = h"
    using assms(1) by (auto simp: db_inv_def elim: same_handles_ids [OF assms(2)])
  show "below (db_seqno db') (hc (ks_tree ks'))"
    using assms(3,4) ks' up_to_below [OF _ assms(6)] by (simp add: trees_up_to_def)
next
  show "tr_seqno (db_tracker db') \<le> db_seqno db'"
    using assms(1,4,5) seqno_less_Suc [OF assms(6)] by (auto simp: publish_def db_inv_def)
qed

lemma batch_commit_cases:
  assumes L: "lsm_writes_ok (en_lsm E) hc" and inv: "db_inv hc db" and s: "db_seqno db \<noteq> - 1"
    and items: "list_all (item_ok db) (wb_data b)" and run: "batch_commit E b db = (r, db')"
  obtains (empty) "wb_data b = []" "r = Inr ()" "db' = db"
  | (poisoned) "r = Inl Poisoned" "db_handles db' = db_handles db" "db_is_poisoned db'"
      "db_seqno db' = db_seqno db \<or> db_seqno db' = db_seqno db + 1" "db_tracker db' = db_tracker db"
  | (committed) "r = Inr ()" "same_handles db db'" "db_inv hc db'" "db_seqno db' = db_seqno db + 1"
      "db_tracker db' = publish (db_seqno db) (db_tracker db)" "\<not> db_is_poisoned db'"
      "\<forall>j. j \<le> db_seqno db \<longrightarrow> read_at hc j db' = read_at hc j db"
      "\<forall>j. db_seqno db < j \<longrightarrow> read_at hc j db' = fold view_item (wb_data b) (read_at hc j db)"
proof -
  consider "wb_data b = []" | "wb_data b \<noteq> []" "db_is_poisoned db" | "wb_data b \<noteq> []" "\<not> db_is_poisoned db"
    by blast
  then show thesis
  proof cases
    case 1
    with run have "r = Inr ()" "db' = db" by (simp_all add: batch_commit_def)
    with 1 show thesis by (rule empty)
  next
    case 2
    with run have "r = Inl Poisoned" "db' = db" by (simp_all add: batch_commit_def)
    with 2 show thesis by (intro poisoned) simp_all
  next
    case 3
    from this run show thesis
    proof (cases rule: batch_commit_run)
      case (failed db3)
      then show thesis using poisoned by simp
    next
      case (applied db3 q db4)
      have up: "trees_up_to hc (db_seqno db) db3"
        using inv applied(2) below_up_to unfolding trees_up_to_def db_inv_def by metis
      have ok: "list_all (item_ok db3) (wb_data b)"
        using items applied(2) by (simp add: item_ok_def list_all_iff)
      obtain sz db4' where a: "apply_items E (db_seqno db) (wb_data b) 0 db3 = (Inr sz, db4')"
        "same_handles db3 db4'" "trees_up_to hc (db_seqno db) db4'" "same_rest db3 db4'"
        "\<forall>j. j \<le> db_seqno db \<longrightarrow> read_at hc j db4' = read_at hc j db3"
        "\<forall>j. db_seqno db < j \<longrightarrow> read_at hc j db4' = fold view_item (wb_data b) (read_at hc j db3)"
        using apply_items_effect [OF L up ok, of 0] by blast
      have q: "q = Inr sz" "db4 = db4'" using applied(5) a(1) by simp_all
      have f4: "db_seqno db4 = db_seqno db + 1" "db_tracker db4 = db_tracker db" "\<not> db_is_poisoned db4"
        using applied(1,3,4) a(4) by (simp_all add: q(2) same_rest_def)
      then have r: "r = Inr ()" "db_handles db' = db_handles db4" "db_seqno db' = db_seqno db + 1"
        "db_tracker db' = publish (db_seqno db) (db_tracker db)" "\<not> db_is_poisoned db'"
        using applied(6) q(1) by auto
      have same: "same_handles db db'"
        using a(2) applied(2) r(2) q(2) by (simp add: same_handles_def)
      have "trees_up_to hc (db_seqno db) db'"
        using a(3) r(2) q(2) by (simp add: trees_up_to_def)
      then have inv': "db_inv hc db'" using db_inv_committed [OF inv same _ r(3,4) s] by simp
      have reads: "read_at hc j db' = read_at hc j db4'" "read_at hc j db3 = read_at hc j db" for j
        using r(2) q(2) applied(2) by (auto intro: read_at_cong)
      show thesis
        by (rule committed [OF r(1) same inv' r(3,4,5)]) (use a(5,6) reads in simp_all)
    qed
  qed
qed

end
