(* ===== verification/DatabaseCalls.thy ===== *)
theory DatabaseCalls
  imports Database
begin

text \<open>
  Properties of the database operations: what a write changes, atomicity of batches, stability
  of snapshots across any sequence of calls, and the poisoned state.
\<close>

section \<open>Sequences of calls\<close>

datatype db_call =
    DbWrite u64 single_write
  | DbBatch pending_batch
  | DbPersist persist_mode
  | DbOpen
  | DbDrop seqno

fun run_db :: "('t, 'm) engine \<Rightarrow> db_call \<Rightarrow> 't db \<Rightarrow> unit result \<times> 't db" where
  "run_db E (DbWrite h w) db = keyspace_write E h w db"
| "run_db E (DbBatch b) db = batch_commit E b db"
| "run_db E (DbPersist mode) db = database_persist E mode db"
| "run_db E DbOpen db = (Inr (), snd (database_snapshot db))"
| "run_db E (DbDrop i) db = (Inr (), iter_drop i db)"

fun call_ok :: "'t db \<Rightarrow> db_call \<Rightarrow> bool" where
  "call_ok db (DbBatch b) = list_all (item_ok db) (wb_data b)"
| "call_ok db _ = True"

definition run_all :: "('t, 'm) engine \<Rightarrow> db_call list \<Rightarrow> 't db \<Rightarrow> 't db" where
  "run_all E cs db = fold (\<lambda>c d. snd (run_db E c d)) cs db"

lemma write_error_frame:
  assumes "keyspace_write E h w db = (Inl e, db')"
  shows "db_handles db' = db_handles db" "db_tracker db' = db_tracker db"
    "db_seqno db' = db_seqno db \<or> db_seqno db' = db_seqno db + 1"
proof -
  have "db_handles db' = db_handles db \<and> db_tracker db' = db_tracker db \<and>
      (db_seqno db' = db_seqno db \<or> db_seqno db' = db_seqno db + 1)"
    using assms
    by (auto simp: keyspace_write_eq dest: write_persist_simps split: option.splits if_splits prod.splits sum.splits)
  then show "db_handles db' = db_handles db" "db_tracker db' = db_tracker db"
    "db_seqno db' = db_seqno db \<or> db_seqno db' = db_seqno db + 1" by blast+
qed

lemma db_inv_frame:
  assumes "db_inv hc db" "db_handles db' = db_handles db" "tr_seqno (db_tracker db') \<le> tr_seqno (db_tracker db)"
    "db_seqno db' = db_seqno db \<or> db_seqno db' = db_seqno db + 1" "db_seqno db \<noteq> - 1"
  shows "db_inv hc db'"
proof -
  have "db_seqno db \<le> db_seqno db'" using assms(4) less_imp_le [OF seqno_less_Suc [OF assms(5)]] by auto
  with assms(1-3) show ?thesis
    by (auto simp: db_inv_def intro: below_mono order_trans)
qed

lemma close_raw_seqno [simp]: "tr_seqno (close_raw i t) = tr_seqno t"
  by (simp add: close_raw_def tracker_gc_def Let_def split: prod.split)

text \<open>One call keeps the invariant and every read at an instant up to the next sequence number.\<close>

lemma run_db_step:
  assumes L: "lsm_writes_ok (en_lsm E) hc" and inv: "db_inv hc db" and s: "db_seqno db \<noteq> - 1"
    and ok: "call_ok db c" and run: "run_db E c db = (r, db')"
  shows "db_inv hc db'" "\<And>i. i \<le> db_seqno db \<Longrightarrow> read_at hc i db' = read_at hc i db"
    "db_seqno db' = db_seqno db \<or> db_seqno db' = db_seqno db + 1"
    "\<And>h. db_handles db' h = None \<longleftrightarrow> db_handles db h = None"
proof -
  have quiet: "db_inv hc db' \<and> (\<forall>i. i \<le> db_seqno db \<longrightarrow> read_at hc i db' = read_at hc i db) \<and>
      (db_seqno db' = db_seqno db \<or> db_seqno db' = db_seqno db + 1) \<and>
      (\<forall>h. db_handles db' h = None \<longleftrightarrow> db_handles db h = None)"
    if "db_handles db' = db_handles db" "tr_seqno (db_tracker db') \<le> tr_seqno (db_tracker db)"
      "db_seqno db' = db_seqno db \<or> db_seqno db' = db_seqno db + 1"
    using db_inv_frame [OF inv that s] read_at_cong [OF that(1)] that by auto
  have "db_inv hc db' \<and> (\<forall>i. i \<le> db_seqno db \<longrightarrow> read_at hc i db' = read_at hc i db) \<and>
      (db_seqno db' = db_seqno db \<or> db_seqno db' = db_seqno db + 1) \<and>
      (\<forall>h. db_handles db' h = None \<longleftrightarrow> db_handles db h = None)"
  proof (cases c)
    case (DbWrite h w)
    show ?thesis
    proof (cases r)
      case (Inl e)
      with run DbWrite show ?thesis by (intro quiet) (auto dest: write_error_frame)
    next
      case (Inr u)
      with run DbWrite have w: "keyspace_write E h w db = (Inr (), db')" by simp
      obtain ks t where "db_handles db h = Some ks" "db_handles db' = (db_handles db)(h \<mapsto> ks\<lparr>ks_tree := t\<rparr>)"
        "db_seqno db' = db_seqno db + 1"
        by (rule keyspace_write_effect [OF L w])
      then show ?thesis
        using read_at_write [OF L inv w] s by auto
    qed
  next
    case (DbBatch b)
    then have b: "list_all (item_ok db) (wb_data b)" "batch_commit E b db = (r, db')" using ok run by auto
    from L inv s b show ?thesis
    proof (cases rule: batch_commit_cases)
      case empty
      then show ?thesis using inv by simp
    next
      case poisoned
      then show ?thesis by (intro quiet) auto
    next
      case committed
      then show ?thesis using same_handles_None [OF committed(2)] by simp
    qed
  next
    case (DbPersist mode)
    with run show ?thesis
      by (intro quiet) (auto simp: database_persist_def split: if_splits prod.splits sum.splits)
  next
    case DbOpen
    with run show ?thesis
      by (intro quiet) (auto simp: database_snapshot_def tracker_open_def Let_def)
  next
    case (DbDrop i)
    with run show ?thesis by (intro quiet) (auto simp: iter_drop_def)
  qed
  then show "db_inv hc db'" "\<And>i. i \<le> db_seqno db \<Longrightarrow> read_at hc i db' = read_at hc i db"
    "db_seqno db' = db_seqno db \<or> db_seqno db' = db_seqno db + 1"
    "\<And>h. db_handles db' h = None \<longleftrightarrow> db_handles db h = None" by blast+
qed

lemma call_ok_cong:
  "(\<And>h. db_handles db' h = None \<longleftrightarrow> db_handles db h = None) \<Longrightarrow> call_ok db c \<Longrightarrow> call_ok db' c"
  by (cases c) (simp_all add: item_ok_def list_all_iff)

lemma run_all_reads:
  assumes "lsm_writes_ok (en_lsm E) hc" "db_inv hc db" "list_all (call_ok db) cs"
    and "unat (db_seqno db) + length cs < 2 ^ 64 - 1" "i \<le> db_seqno db"
  shows "db_inv hc (run_all E cs db) \<and> read_at hc i (run_all E cs db) = read_at hc i db \<and>
    (\<forall>h. db_handles (run_all E cs db) h = None \<longleftrightarrow> db_handles db h = None)"
  using assms(2-)
proof (induction cs arbitrary: db)
  case Nil
  then show ?case by (simp add: run_all_def)
next
  case (Cons c cs)
  obtain r db1 where run: "run_db E c db = (r, db1)" by fastforce
  have s: "db_seqno db \<noteq> - 1" using Cons.prems(3) by (auto simp: unat_seqno_max)
  note step = run_db_step [OF assms(1) Cons.prems(1) s _ run]
  have ok: "call_ok db c" using Cons.prems(2) by simp
  have "unat (db_seqno db1) \<le> Suc (unat (db_seqno db))" "i \<le> db_seqno db1"
    using step(3) [OF ok] seqno_less_Suc [OF s] Cons.prems(4) unat_Suc_seqno [OF s]
    by (auto intro: less_imp_le order_trans)
  moreover have "list_all (call_ok db1) cs"
    using Cons.prems(2) call_ok_cong [OF step(4) [OF ok]] by (simp add: list_all_iff)
  ultimately have "db_inv hc (run_all E cs db1) \<and> read_at hc i (run_all E cs db1) = read_at hc i db1 \<and>
    (\<forall>h. db_handles (run_all E cs db1) h = None \<longleftrightarrow> db_handles db1 h = None)"
    using Cons.prems(3) step(1) [OF ok] by (intro Cons.IH) auto
  moreover have "run_all E (c # cs) db = run_all E cs db1" by (simp add: run_all_def run)
  ultimately show ?case using step(2) [OF ok Cons.prems(4)] step(4) [OF ok] by simp
qed

section \<open>A device that does not fail\<close>

definition device_ok :: "('t, 'm) engine \<Rightarrow> bool" where
  "device_ok E \<longleftrightarrow> (\<forall>w. en_flush E w = None) \<and> (\<forall>m w. en_sync E m w = None)"

lemma try_persist_ok: "device_ok E \<Longrightarrow> fst (try_persist E mode w) = Inr ()"
  by (cases mode) (auto simp: try_persist_def device_ok_def Let_def)

lemma apply_items_poison: "apply_items E s is sz db = (r, db') \<Longrightarrow> db_is_poisoned db' = db_is_poisoned db"
  by (induction E s "is" sz db arbitrary: r db' rule: apply_items.induct)
    (auto split: option.splits sum.splits)

lemma batch_persist_ok:
  assumes "device_ok E"
  obtains db' where "batch_persist E d db = (Inr (), db')" "db_is_poisoned db' = db_is_poisoned db"
proof (cases d)
  case (Some mode)
  obtain r w where w: "try_persist E mode (db_journal db) = (r, w)" by fastforce
  then have "r = Inr ()" using try_persist_ok [OF assms, of mode "db_journal db"] by simp
  then show thesis using that Some w by (simp add: batch_persist_def)
qed (use that in \<open>simp add: batch_persist_def\<close>)

lemma batch_commit_healthy:
  assumes "device_ok E" "\<not> db_is_poisoned db" "batch_commit E b db = (r, db')"
  shows "\<not> db_is_poisoned db'"
proof (cases "wb_data b = []")
  case True
  then show ?thesis using assms by (simp add: batch_commit_def)
next
  case False
  let ?d = "journal_batch E (wb_data b) (db_seqno db) (db\<lparr>db_seqno := db_seqno db + 1\<rparr>)"
  obtain db3 where P: "batch_persist E (wb_durability b) ?d = (Inr (), db3)"
    "db_is_poisoned db3 = db_is_poisoned ?d"
    by (rule batch_persist_ok [OF assms(1)])
  note run = assms(3) [unfolded batch_commit_def next_seqno_def Let_def prod.case P(1)]
  obtain q db4 where A: "apply_items E (db_seqno db) (wb_data b) 0 db3 = (q, db4)" by fastforce
  from run [unfolded A] P(2) apply_items_poison [OF A] assms(2) False show ?thesis
    by (cases q) auto
qed

lemma keyspace_write_ok:
  assumes "device_ok E" "db_handles db h = Some ks" "\<not> ks_is_deleted ks" "\<not> db_is_poisoned db"
  obtains db' where "keyspace_write E h w db = (Inr (), db')"
proof -
  have "fst (write_persist E m d) = Inr ()" for m d
    using try_persist_ok [OF assms(1), of Buffer "db_journal d"]
    by (auto simp: write_persist_def split: prod.split sum.split)
  then obtain db3 where "write_persist E (ks_manual_journal_persist ks)
      (journal_raw E (ks_id ks) (write_key w) (write_bytes w) (write_type w) (db_seqno db)
         (db\<lparr>db_seqno := db_seqno db + 1\<rparr>)) = (Inr (), db3)"
    by (metis prod.collapse)
  then show thesis using that assms(2-4) by (simp add: keyspace_write_eq)
qed

section \<open>A concrete database\<close>

definition sample_engine :: "(ref_tree, internal_value list) engine" where
  "sample_engine = \<lparr>en_lsm = ref_lsm, en_journal = sample_env, en_flush = (\<lambda>_. None), en_sync = (\<lambda>_ _. None)\<rparr>"

definition sample_keyspace :: "u64 \<Rightarrow> ref_tree keyspace" where
  "sample_keyspace h = \<lparr>ks_id = h, ks_name = [if h = 1 then 97 else 98], ks_manual_journal_persist = False,
     ks_max_memtable_size = 64, ks_is_deleted = False, ks_tree = []\<rparr>"

definition sample_db :: "ref_tree db" where
  "sample_db = \<lparr>db_handles = (\<lambda>h. if h = 1 \<or> h = 2 then Some (sample_keyspace h) else None),
     db_keyspaces = Map.empty, db_seqno = 5, db_is_poisoned = False, db_journal = writer_create_new,
     db_tracker = tracker_new 5, db_write_buffer_size = 0, db_messages = [],
     db_manual_journal_persist = False\<rparr>"

lemma sample_db_ok:
  "lsm_ok (en_lsm sample_engine) ref_content" "db_inv ref_content sample_db" "db_seqno sample_db < - 1"
  by (auto simp: sample_engine_def lsm_ok_ref db_inv_def sample_db_def sample_keyspace_def
      ref_content_def below_def tracker_new_def split: if_splits)

lemma sample_device: "device_ok sample_engine" "\<not> db_is_poisoned sample_db"
  by (simp_all add: device_ok_def sample_engine_def sample_db_def)

section \<open>Properties\<close>

lemma keyspace_get_eq:
  assumes "lsm_reads_ok (en_lsm E) hc"
  shows "snapshot_get E i h k db = (if db_handles db h = None then Inl dangling else Inr (read_at hc i db h k))"
    and "keyspace_get E h k db = (if db_handles db h = None then Inl dangling else Inr (read_at hc SEQNO_MAX db h k))"
  using assms
  by (auto simp: snapshot_get_def keyspace_get_def keyspace_read_def read_at_def lsm_reads_ok_def split: option.split)

text \<open>C12: a successful insert or removal is what later reads return, changes no other key and no
  other keyspace, and is invisible to every snapshot taken before it.\<close>

theorem write_read_back:
  assumes "lsm_ok (en_lsm E) hc" "db_inv hc db" "db_seqno db < SEQNO_MAX"
    and "keyspace_write E h w db = (Inr (), db')"
  shows "keyspace_get E h (write_key w) db' = Inr (write_value w) \<and>
    (\<forall>h' k. (h', k) \<noteq> (h, write_key w) \<longrightarrow> keyspace_get E h' k db' = keyspace_get E h' k db) \<and>
    (\<forall>i h' k. i \<le> db_seqno db \<longrightarrow> snapshot_get E i h' k db' = snapshot_get E i h' k db) \<and>
    db_seqno db < fst (database_snapshot db') \<and> db_inv hc db'"
proof -
  have L: "lsm_writes_ok (en_lsm E) hc" "lsm_reads_ok (en_lsm E) hc" using assms(1) by (simp_all add: lsm_ok_def)
  have s: "db_seqno db \<noteq> - 1" using assms(3) by (auto simp: SEQNO_MAX_def)
  obtain ks t where eff: "db_handles db h = Some ks" "db_handles db' = (db_handles db)(h \<mapsto> ks\<lparr>ks_tree := t\<rparr>)"
    "db_tracker db' = publish (db_seqno db) (db_tracker db)"
    by (rule keyspace_write_effect [OF L(1) assms(4)])
  note r = read_at_write [OF L(1) assms(2,4)]
  have "db_seqno db < fst (database_snapshot db')"
    using seqno_less_Suc [OF s] by (simp add: database_snapshot_def tracker_open_def Let_def eff(3) publish_def less_max_iff_disj)
  then show ?thesis
    using r(1) r(2) [OF assms(3)] r(3) [OF s] eff(1,2) by (auto simp: keyspace_get_eq [OF L(2)])
qed

theorem write_read_back_witness:
  "keyspace_get sample_engine 1 [7] (snd (keyspace_write sample_engine 1 (Insert [7] [8]) sample_db)) = Inr (Some [8])"
proof -
  have "keyspace_write sample_engine 1 (Insert [7] [8]) sample_db =
      (Inr (), snd (keyspace_write sample_engine 1 (Insert [7] [8]) sample_db))"
    by (simp add: prod_eq_iff)
      (simp add: keyspace_insert_def sample_db_def sample_keyspace_def next_seqno_def Let_def journal_raw_def
        write_persist_def try_persist_def sample_engine_def write_raw_eq writer_append_def split: prod.split)
  from write_read_back [OF sample_db_ok(1,2) _ this] show ?thesis
    using sample_db_ok(3) by (simp add: SEQNO_MAX_def)
qed

text \<open>C3: batches are atomic.  A committed batch is visible as a whole, in order, at every instant
  after its sequence number and not at all before it; a batch that fails leaves every read
  unchanged and the database poisoned.\<close>

theorem batch_atomic:
  assumes "lsm_ok (en_lsm E) hc" "db_inv hc db" "db_seqno db < SEQNO_MAX"
    and "list_all (item_ok db) (wb_data b)" "batch_commit E b db = (r, db')" "db_handles db h \<noteq> None"
  shows "snapshot_get E i h k db' =
      Inr ((if r = Inr () \<and> db_seqno db < i then fold view_item (wb_data b) (read_at hc i db)
            else read_at hc i db) h k) \<and>
    (r \<noteq> Inr () \<longrightarrow> r = Inl Poisoned \<and> db_is_poisoned db')"
proof -
  have L: "lsm_writes_ok (en_lsm E) hc" "lsm_reads_ok (en_lsm E) hc" using assms(1) by (simp_all add: lsm_ok_def)
  have s: "db_seqno db \<noteq> - 1" using assms(3) by (auto simp: SEQNO_MAX_def)
  from L(1) assms(2) s assms(4,5) show ?thesis
  proof (cases rule: batch_commit_cases)
    case empty
    then show ?thesis using assms(6) by (simp add: keyspace_get_eq [OF L(2)])
  next
    case poisoned
    then show ?thesis
      using assms(6) read_at_cong [OF poisoned(2)] by (simp add: keyspace_get_eq [OF L(2)])
  next
    case committed
    then show ?thesis
      using assms(6) same_handles_None [OF committed(2), of h]
      by (auto simp: keyspace_get_eq [OF L(2)] not_less)
  qed
qed

theorem batch_atomic_witness:
  "let b = \<lparr>wb_data = [\<lparr>bi_keyspace = 1, bi_key = [1], bi_value = [2], bi_type = Value\<rparr>,
                      \<lparr>bi_keyspace = 2, bi_key = [1], bi_value = [], bi_type = Tombstone\<rparr>], wb_durability = Some SyncAll\<rparr>;
       r = batch_commit sample_engine b sample_db
   in snapshot_get sample_engine 5 1 [1] (snd r) = Inr None \<and>
      fst r = Inr () \<and> snapshot_get sample_engine 6 1 [1] (snd r) = Inr (Some [2])"
proof -
  let ?b = "\<lparr>wb_data = [\<lparr>bi_keyspace = 1, bi_key = [1], bi_value = [2], bi_type = Value\<rparr>,
                      \<lparr>bi_keyspace = 2, bi_key = [1], bi_value = [], bi_type = Tombstone\<rparr>], wb_durability = Some SyncAll\<rparr>"
  have ok: "list_all (item_ok sample_db) (wb_data ?b)" "db_handles sample_db 1 \<noteq> None"
    by (simp_all add: item_ok_def sample_db_def)
  have s: "db_seqno sample_db < SEQNO_MAX" using sample_db_ok(3) by (simp add: SEQNO_MAX_def)
  have "read_at ref_content i sample_db 1 [1] = None" for i
    by (simp add: read_at_def sample_db_def sample_keyspace_def ref_content_def [abs_def])
  moreover have "db_seqno sample_db = 5" by (simp add: sample_db_def)
  moreover note batch_atomic [OF sample_db_ok(1,2) s ok(1) surjective_pairing ok(2), of 5 "[1]"]
    batch_atomic [OF sample_db_ok(1,2) s ok(1) surjective_pairing ok(2), of 6 "[1]"]
    batch_commit_healthy [OF sample_device surjective_pairing, of ?b]
  ultimately show ?thesis
    by (simp add: Let_def view_item_def item_value_def)
qed

text \<open>C10: snapshots are stable.  A snapshot returns for every key of every keyspace what a read
  at its creation returned, whatever writes, batches, persists and other snapshots follow.\<close>

theorem snapshot_stable:
  assumes "lsm_ok (en_lsm E) hc" "db_inv hc db" "list_all (call_ok db) cs"
    and "unat (db_seqno db) + length cs < 2 ^ 64 - 1" "database_snapshot db = (i, db0)"
  shows "snapshot_get E i h k (run_all E cs db0) = snapshot_get E i h k db"
proof -
  have L: "lsm_writes_ok (en_lsm E) hc" "lsm_reads_ok (en_lsm E) hc" using assms(1) by (simp_all add: lsm_ok_def)
  have db0: "db_handles db0 = db_handles db" "db_seqno db0 = db_seqno db" "i \<le> db_seqno db0" "db_inv hc db0"
    using assms(2,5) by (auto simp: database_snapshot_def tracker_open_def Let_def db_inv_def)
  have "list_all (call_ok db0) cs" using assms(3) call_ok_cong [of db0 db] db0(1) by (simp add: list_all_iff)
  from run_all_reads [OF L(1) db0(4) this _ db0(3)] show ?thesis
    using assms(4) db0(1,2) read_at_cong [OF db0(1), of hc i] by (simp add: keyspace_get_eq [OF L(2)])
qed

theorem snapshot_stable_witness:
  "snapshot_get sample_engine 5 1 [7]
     (run_all sample_engine [DbWrite 1 (Insert [7] [8]), DbPersist SyncAll, DbWrite 1 (Remove [7])]
       (snd (database_snapshot sample_db))) = snapshot_get sample_engine 5 1 [7] sample_db"
proof -
  have "database_snapshot sample_db = (5, snd (database_snapshot sample_db))"
    by (simp add: database_snapshot_def tracker_open_def sample_db_def tracker_new_def Let_def)
  from snapshot_stable [OF sample_db_ok(1,2) _ _ this, of
      "[DbWrite 1 (Insert [7] [8]), DbPersist SyncAll, DbWrite 1 (Remove [7])]"]
  show ?thesis by (simp add: sample_db_def)
qed



end
