(* ===== verification/BaseTx.thy ===== *)
theory BaseTx
  imports DatabaseCalls
begin

text \<open>
  \<open>src/tx/write_tx.rs\<close>: the transaction under both transaction kinds, a private memtable per
  keyspace over a snapshot.

  The hash map of memtables is an association list from handle to memtable, in the order of
  first use, which stands for the map's iteration order.  Two handles are the same key of the
  map when their keyspaces have the same name.
\<close>

section \<open>Operations\<close>

record 'm base_tx =
  tx_memtables :: "(u64 \<times> 'm) list"
  tx_instant :: seqno
  tx_durability :: "persist_mode option"
  tx_seqno :: seqno

definition ignore_tombstone_value :: "internal_value \<Rightarrow> internal_value option" where
  "ignore_tombstone_value item = (if is_tombstone (iv_type item) then None else Some item)"

definition base_new :: "seqno \<Rightarrow> 'm base_tx" where
  "base_new instant =
     \<lparr>tx_memtables = [], tx_instant = instant, tx_durability = None, tx_seqno = 0x8000000000000000\<rparr>"

definition base_durability :: "persist_mode option \<Rightarrow> 'm base_tx \<Rightarrow> 'm base_tx" where
  "base_durability mode tx = tx\<lparr>tx_durability := mode\<rparr>"

definition same_name :: "'t db \<Rightarrow> u64 \<Rightarrow> u64 \<Rightarrow> bool" where
  "same_name db h h' = (map_option ks_name (db_handles db h) = map_option ks_name (db_handles db h'))"

definition memtable_of :: "'t db \<Rightarrow> u64 \<Rightarrow> 'm base_tx \<Rightarrow> 'm option" where
  "memtable_of db h tx = map_option snd (find (\<lambda>e. same_name db (fst e) h) (tx_memtables tx))"

text \<open>\<open>entry(keyspace).or_insert_with(..)\<close> followed by an insert into the memtable.\<close>

fun entry_insert ::
    "('t, 'm) lsm \<Rightarrow> 't db \<Rightarrow> u64 \<Rightarrow> internal_value \<Rightarrow> (u64 \<times> 'm) list \<Rightarrow> (u64 \<times> 'm) list" where
  "entry_insert L db h iv [] = [(h, m_insert L iv (m_new L))]"
| "entry_insert L db h iv ((h', m) # ms) =
     (if same_name db h' h then (h', m_insert L iv m) # ms else (h', m) # entry_insert L db h iv ms)"

definition base_insert ::
    "('t, 'm) engine \<Rightarrow> 't db \<Rightarrow> u64 \<Rightarrow> bytes \<Rightarrow> bytes \<Rightarrow> 'm base_tx \<Rightarrow> 'm base_tx" where
  "base_insert E db h key value tx =
     tx\<lparr>tx_memtables := entry_insert (en_lsm E) db h
           \<lparr>iv_key = key, iv_value = value, iv_seqno = tx_seqno tx, iv_type = Value\<rparr> (tx_memtables tx),
        tx_seqno := tx_seqno tx + 1\<rparr>"

definition base_remove :: "('t, 'm) engine \<Rightarrow> 't db \<Rightarrow> u64 \<Rightarrow> bytes \<Rightarrow> 'm base_tx \<Rightarrow> 'm base_tx" where
  "base_remove E db h key tx =
     tx\<lparr>tx_memtables := entry_insert (en_lsm E) db h
           \<lparr>iv_key = key, iv_value = [], iv_seqno = tx_seqno tx, iv_type = Tombstone\<rparr> (tx_memtables tx),
        tx_seqno := tx_seqno tx + 1\<rparr>"

definition base_remove_weak :: "('t, 'm) engine \<Rightarrow> 't db \<Rightarrow> u64 \<Rightarrow> bytes \<Rightarrow> 'm base_tx \<Rightarrow> 'm base_tx" where
  "base_remove_weak E db h key tx =
     tx\<lparr>tx_memtables := entry_insert (en_lsm E) db h
           \<lparr>iv_key = key, iv_value = [], iv_seqno = tx_seqno tx, iv_type = WeakTombstone\<rparr> (tx_memtables tx),
        tx_seqno := tx_seqno tx + 1\<rparr>"

definition own_item :: "('t, 'm) engine \<Rightarrow> 't db \<Rightarrow> u64 \<Rightarrow> bytes \<Rightarrow> 'm base_tx \<Rightarrow> internal_value option" where
  "own_item E db h key tx =
     (case memtable_of db h tx of None \<Rightarrow> None | Some m \<Rightarrow> m_get (en_lsm E) key SEQNO_MAX m)"

definition base_get :: "('t, 'm) engine \<Rightarrow> 'm base_tx \<Rightarrow> u64 \<Rightarrow> bytes \<Rightarrow> 't db \<Rightarrow> bytes option result" where
  "base_get E tx h key db =
     (case own_item E db h key tx of
        Some item \<Rightarrow> Inr (map_option iv_value (ignore_tombstone_value item))
      | None \<Rightarrow> keyspace_read h (t_get (en_lsm E) key (tx_instant tx)) db)"

definition base_contains_key :: "('t, 'm) engine \<Rightarrow> 'm base_tx \<Rightarrow> u64 \<Rightarrow> bytes \<Rightarrow> 't db \<Rightarrow> bool result" where
  "base_contains_key E tx h key db =
     (case own_item E db h key tx of
        Some item \<Rightarrow> Inr (\<not> is_tombstone (iv_type item))
      | None \<Rightarrow> keyspace_read h (t_contains_key (en_lsm E) key (tx_instant tx)) db)"

definition base_size_of :: "('t, 'm) engine \<Rightarrow> 'm base_tx \<Rightarrow> u64 \<Rightarrow> bytes \<Rightarrow> 't db \<Rightarrow> u32 option result" where
  "base_size_of E tx h key db =
     (case own_item E db h key tx of
        Some item \<Rightarrow> Inr (map_option (\<lambda>x. of_nat (length (iv_value x))) (ignore_tombstone_value item))
      | None \<Rightarrow> keyspace_read h (t_size_of (en_lsm E) key (tx_instant tx)) db)"

definition own_memtable :: "'t db \<Rightarrow> u64 \<Rightarrow> 'm base_tx \<Rightarrow> ('m \<times> seqno) option" where
  "own_memtable db h tx = map_option (\<lambda>m. (m, tx_seqno tx)) (memtable_of db h tx)"

definition base_iter :: "('t, 'm) engine \<Rightarrow> 'm base_tx \<Rightarrow> u64 \<Rightarrow> 't db \<Rightarrow> guard list" where
  "base_iter E tx h db = tree_scan h (t_iter (en_lsm E) (tx_instant tx) (own_memtable db h tx)) db"

definition base_range ::
    "('t, 'm) engine \<Rightarrow> 'm base_tx \<Rightarrow> u64 \<Rightarrow> bytes bound \<times> bytes bound \<Rightarrow> 't db \<Rightarrow> guard list" where
  "base_range E tx h rg db = tree_scan h (t_range (en_lsm E) rg (tx_instant tx) (own_memtable db h tx)) db"

definition base_prefix :: "('t, 'm) engine \<Rightarrow> 'm base_tx \<Rightarrow> u64 \<Rightarrow> bytes \<Rightarrow> 't db \<Rightarrow> guard list" where
  "base_prefix E tx h p db = tree_scan h (t_prefix (en_lsm E) p (tx_instant tx) (own_memtable db h tx)) db"

definition base_first_key_value :: "('t, 'm) engine \<Rightarrow> 'm base_tx \<Rightarrow> u64 \<Rightarrow> 't db \<Rightarrow> guard option" where
  "base_first_key_value E tx h db = (case base_iter E tx h db of [] \<Rightarrow> None | g # _ \<Rightarrow> Some g)"

definition base_last_key_value :: "('t, 'm) engine \<Rightarrow> 'm base_tx \<Rightarrow> u64 \<Rightarrow> 't db \<Rightarrow> guard option" where
  "base_last_key_value E tx h db = (case rev (base_iter E tx h db) of [] \<Rightarrow> None | g # _ \<Rightarrow> Some g)"

text \<open>The write half shared by \<open>update_fetch\<close> and \<open>fetch_update\<close>.\<close>

definition store_updated ::
    "('t, 'm) engine \<Rightarrow> 't db \<Rightarrow> u64 \<Rightarrow> bytes \<Rightarrow> bytes option \<Rightarrow> bytes option \<Rightarrow> 'm base_tx \<Rightarrow> 'm base_tx" where
  "store_updated E db h key prev updated tx =
     (case updated of
        Some value \<Rightarrow> if prev \<noteq> Some value then base_insert E db h key value tx else tx
      | None \<Rightarrow> if prev \<noteq> None then base_remove E db h key tx else tx)"

definition base_update_fetch ::
    "('t, 'm) engine \<Rightarrow> 't db \<Rightarrow> u64 \<Rightarrow> bytes \<Rightarrow> (bytes option \<Rightarrow> bytes option) \<Rightarrow> 'm base_tx
     \<Rightarrow> bytes option result \<times> 'm base_tx" where
  "base_update_fetch E db h key f tx =
     (case base_get E tx h key db of
        Inl e \<Rightarrow> (Inl e, tx)
      | Inr prev \<Rightarrow> let updated = f prev in (Inr updated, store_updated E db h key prev updated tx))"

definition base_fetch_update ::
    "('t, 'm) engine \<Rightarrow> 't db \<Rightarrow> u64 \<Rightarrow> bytes \<Rightarrow> (bytes option \<Rightarrow> bytes option) \<Rightarrow> 'm base_tx
     \<Rightarrow> bytes option result \<times> 'm base_tx" where
  "base_fetch_update E db h key f tx =
     (case base_get E tx h key db of
        Inl e \<Rightarrow> (Inl e, tx)
      | Inr prev \<Rightarrow> let updated = f prev in (Inr prev, store_updated E db h key prev updated tx))"

definition base_take ::
    "('t, 'm) engine \<Rightarrow> 't db \<Rightarrow> u64 \<Rightarrow> bytes \<Rightarrow> 'm base_tx \<Rightarrow> bytes option result \<times> 'm base_tx" where
  "base_take E db h key tx = base_fetch_update E db h key (\<lambda>_. None) tx"

text \<open>The loops of \<open>commit\<close>: per memtable, the first item of each key; \<open>prev\<close> is \<open>prev_key\<close>.\<close>

fun memtable_items :: "u64 \<Rightarrow> bytes option \<Rightarrow> internal_value list \<Rightarrow> batch_item list result" where
  "memtable_items h prev [] = Inr []"
| "memtable_items h prev (iv # ivs) =
     (if prev = Some (iv_key iv) then memtable_items h prev ivs
      else bind_r (item_new h (iv_key iv) (iv_value iv) (iv_type iv)) (\<lambda>i.
           map_r (Cons i) (memtable_items h (Some (iv_key iv)) ivs)))"

fun commit_items :: "('t, 'm) engine \<Rightarrow> (u64 \<times> 'm) list \<Rightarrow> batch_item list result" where
  "commit_items E [] = Inr []"
| "commit_items E ((h, m) # ms) =
     bind_r (memtable_items h None (m_iter (en_lsm E) m)) (\<lambda>is.
     map_r (\<lambda>js. is @ js) (commit_items E ms))"

definition base_commit :: "('t, 'm) engine \<Rightarrow> 'm base_tx \<Rightarrow> 't db \<Rightarrow> unit result \<times> 't db" where
  "base_commit E tx db =
     (if tx_memtables tx = [] then (Inr (), db)
      else case commit_items E (tx_memtables tx) of
        Inl e \<Rightarrow> (Inl e, db)
      | Inr items \<Rightarrow> batch_commit E (batch_new\<lparr>wb_durability := tx_durability tx, wb_data := items\<rparr>) db)"

definition base_rollback :: "'m base_tx \<Rightarrow> unit" where
  "base_rollback tx = ()"

section \<open>Memtables\<close>

lemma find_newest:
  assumes "sorted_wrt iv_before xs"
  shows "find (\<lambda>iv. iv_key iv = k) xs = Some x \<longleftrightarrow>
    x \<in> set xs \<and> iv_key x = k \<and> (\<forall>y\<in>set xs. iv_key y = k \<longrightarrow> y = x \<or> iv_seqno y < iv_seqno x)"
  using assms
proof (induction xs)
  case (Cons a xs)
  then have "\<forall>y\<in>set xs. iv_key y = iv_key a \<longrightarrow> iv_seqno y < iv_seqno a"
    by (auto simp: iv_before_def)
  with Cons show ?case by (cases "iv_key a = k") (auto dest: less_asym)
qed simp

definition newest_item :: "('t, 'm) engine \<Rightarrow> 'm \<Rightarrow> bytes \<Rightarrow> internal_value option" where
  "newest_item E m k = find (\<lambda>iv. iv_key iv = k) (m_iter (en_lsm E) m)"

definition mem_below :: "('t, 'm) engine \<Rightarrow> seqno \<Rightarrow> 'm \<Rightarrow> bool" where
  "mem_below E s m = (\<forall>x\<in>set (m_iter (en_lsm E) m). iv_seqno x < s)"

lemma mem_below_new: "memtable_ok (en_lsm E) \<Longrightarrow> mem_below E s (m_new (en_lsm E))"
  by (simp add: mem_below_def memtable_ok_def)

lemma newest_item_new: "memtable_ok (en_lsm E) \<Longrightarrow> newest_item E (m_new (en_lsm E)) k = None"
  by (simp add: newest_item_def memtable_ok_def)

lemma newest_item_insert:
  assumes L: "memtable_ok (en_lsm E)" and b: "mem_below E s m" and s: "iv_seqno iv = s" "s \<noteq> - 1"
  shows "newest_item E (m_insert (en_lsm E) iv m) = (newest_item E m)(iv_key iv \<mapsto> iv)"
    and "mem_below E (s + 1) (m_insert (en_lsm E) iv m)"
proof -
  let ?xs = "m_iter (en_lsm E) m" and ?ys = "m_iter (en_lsm E) (m_insert (en_lsm E) iv m)"
  have set: "set ?ys = insert iv (set ?xs)" using L b s by (auto simp: memtable_ok_def mem_below_def)
  have sorted: "sorted_wrt iv_before ?xs" "sorted_wrt iv_before ?ys" using L by (simp_all add: memtable_ok_def)
  have lt: "\<forall>x\<in>set ?xs. iv_seqno x < iv_seqno iv" using b s by (simp add: mem_below_def)
  show "newest_item E (m_insert (en_lsm E) iv m) = (newest_item E m)(iv_key iv \<mapsto> iv)"
  proof
    fix k
    show "newest_item E (m_insert (en_lsm E) iv m) k = ((newest_item E m)(iv_key iv \<mapsto> iv)) k"
    proof (cases "k = iv_key iv")
      case True
      then have "find (\<lambda>x. iv_key x = k) ?ys = Some iv"
        using lt by (auto simp: find_newest [OF sorted(2)] set)
      then show ?thesis using True by (simp add: newest_item_def)
    next
      case False
      have "find (\<lambda>x. iv_key x = k) ?ys = Some x \<longleftrightarrow> find (\<lambda>x. iv_key x = k) ?xs = Some x" for x
        using False by (auto simp: find_newest [OF sorted(1)] find_newest [OF sorted(2)] set)
      then show ?thesis using False by (simp add: newest_item_def) (metis option.exhaust)
    qed
  qed
  have "s < s + 1" using s(2) by (rule seqno_less_Suc)
  then show "mem_below E (s + 1) (m_insert (en_lsm E) iv m)"
    using b s by (auto simp: mem_below_def set intro: less_trans)
qed

lemma m_get_newest:
  assumes "memtable_ok (en_lsm E)" "mem_below E s m" "s \<le> q"
  shows "m_get (en_lsm E) k q m = newest_item E m k"
proof -
  have "\<forall>x\<in>set (m_iter (en_lsm E) m). iv_seqno x < q" using assms(2,3) by (auto simp: mem_below_def)
  then have "find (\<lambda>iv. iv_key iv = k \<and> iv_seqno iv < q) (m_iter (en_lsm E) m) = newest_item E m k"
    unfolding newest_item_def by (intro find_cong refl) auto
  then show ?thesis using assms(1) by (simp add: memtable_ok_def)
qed

lemma find_unique:
  assumes "x \<in> set xs" "P x" "\<forall>y\<in>set xs. P y \<longrightarrow> y = x"
  shows "find P xs = Some x"
proof (cases "find P xs")
  case None
  then show ?thesis using assms(1,2) by (simp add: find_None_iff)
next
  case (Some z)
  then have "z \<in> set xs" "P z" by (auto simp: find_Some_iff)
  then show ?thesis using Some assms(3) by simp
qed

lemma sorted_wrt_pair: "sorted_wrt P xs \<Longrightarrow> x \<in> set xs \<Longrightarrow> y \<in> set xs \<Longrightarrow> x \<noteq> y \<Longrightarrow> P x y \<or> P y x"
  by (induction xs) auto

lemma sorted_iv_unique:
  assumes "sorted_wrt iv_before xs" "x \<in> set xs" "y \<in> set xs" "iv_key x = iv_key y" "iv_seqno x = iv_seqno y"
  shows "x = y"
  using sorted_wrt_pair [OF assms(1-3)] assms(4,5) unfolding iv_before_def by fastforce

lemma dom_iv_content: "dom (iv_content xs k) = iv_seqno ` {x \<in> set xs. iv_key x = k}"
proof -
  have "iv_content xs k q \<noteq> None \<longleftrightarrow> (\<exists>x\<in>set xs. iv_key x = k \<and> iv_seqno x = q)" for q
    unfolding iv_content_def by (auto simp: find_None_iff)
  then show ?thesis by (auto simp: dom_def)
qed

lemma newest_iv_content:
  assumes "memtable_ok (en_lsm E)" "mem_below E s m"
  shows "newest (iv_content (m_iter (en_lsm E) m) k) s = map_option version_of (newest_item E m k)"
proof -
  define xs where "xs = m_iter (en_lsm E) m"
  have sorted: "sorted_wrt iv_before xs" using assms(1) by (simp add: memtable_ok_def xs_def)
  have "\<forall>x\<in>set xs. iv_seqno x < s" using assms(2) by (simp add: mem_below_def xs_def)
  then have eq: "{q \<in> dom (iv_content xs k). q < s} = iv_seqno ` {x \<in> set xs. iv_key x = k}"
    by (auto simp: dom_iv_content)
  show ?thesis
  proof (cases "newest_item E m k")
    case None
    then have "{x \<in> set xs. iv_key x = k} = {}" by (simp add: newest_item_def find_None_iff xs_def)
    then show ?thesis using None eq unfolding xs_def [symmetric] newest_def by simp
  next
    case (Some x)
    then have x: "x \<in> set xs" "iv_key x = k" "\<forall>y\<in>set xs. iv_key y = k \<longrightarrow> y = x \<or> iv_seqno y < iv_seqno x"
      unfolding newest_item_def xs_def [symmetric] find_newest [OF sorted] by blast+
    have "Max (iv_seqno ` {x \<in> set xs. iv_key x = k}) = iv_seqno x"
      using x by (intro Max_eqI [OF finite]) (auto intro: less_imp_le)
    moreover have "find (\<lambda>y. iv_key y = k \<and> iv_seqno y = iv_seqno x) xs = Some x"
      using x(1,2) sorted_iv_unique [OF sorted _ x(1)] by (intro find_unique) auto
    moreover have "iv_seqno ` {x \<in> set xs. iv_key x = k} \<noteq> {}" using x by blast
    ultimately show ?thesis
      using Some eq unfolding xs_def [symmetric] newest_def Let_def by (simp add: iv_content_def)
  qed
qed

section \<open>The writes of a transaction\<close>

text \<open>The writes a transaction has made, in order, and the view they give over a base view.\<close>

type_synonym tx_write = "u64 \<times> single_write"

definition view_write :: "tx_write \<Rightarrow> view \<Rightarrow> view" where
  "view_write w v = v(fst w := (v (fst w))(write_key (snd w) := write_value (snd w)))"

fun base_write :: "('t, 'm) engine \<Rightarrow> 't db \<Rightarrow> tx_write \<Rightarrow> 'm base_tx \<Rightarrow> 'm base_tx" where
  "base_write E db (h, Insert k v) tx = base_insert E db h k v tx"
| "base_write E db (h, Remove k) tx = base_remove E db h k tx"
| "base_write E db (h, RemoveWeak k) tx = base_remove_weak E db h k tx"

definition write_iv :: "seqno \<Rightarrow> single_write \<Rightarrow> internal_value" where
  "write_iv s w = \<lparr>iv_key = write_key w, iv_value = write_bytes w, iv_seqno = s, iv_type = write_type w\<rparr>"

lemma base_write_eq:
  "base_write E db (h, w) tx =
     tx\<lparr>tx_memtables := entry_insert (en_lsm E) db h (write_iv (tx_seqno tx) w) (tx_memtables tx),
        tx_seqno := tx_seqno tx + 1\<rparr>"
  by (cases w) (simp_all add: base_insert_def base_remove_def base_remove_weak_def write_iv_def write_bytes_def)

lemma version_of_write_iv [simp]: "version_of (write_iv s w) = write_value w"
  by (cases w) (simp_all add: version_of_def write_iv_def write_bytes_def)

text \<open>Live handles have different names.\<close>

definition names_distinct :: "'t db \<Rightarrow> bool" where
  "names_distinct db \<longleftrightarrow> (\<forall>h h'. db_handles db h \<noteq> None \<longrightarrow> db_handles db h' \<noteq> None \<longrightarrow>
     same_name db h h' \<longrightarrow> h = h')"

definition overlay :: "('t, 'm) engine \<Rightarrow> (u64 \<times> 'm) list \<Rightarrow> u64 \<Rightarrow> bytes \<Rightarrow> internal_value option" where
  "overlay E ms h k = (case map_of ms h of None \<Rightarrow> None | Some m \<Rightarrow> newest_item E m k)"

definition over_view :: "('t, 'm) engine \<Rightarrow> (u64 \<times> 'm) list \<Rightarrow> view \<Rightarrow> view" where
  "over_view E ms v h k = (case overlay E ms h k of None \<Rightarrow> v h k | Some iv \<Rightarrow> version_of iv)"

text \<open>The state of a transaction after the writes \<open>ws\<close>.\<close>

definition tx_inv :: "('t, 'm) engine \<Rightarrow> 't db \<Rightarrow> tx_write list \<Rightarrow> 'm base_tx \<Rightarrow> bool" where
  "tx_inv E db ws tx \<longleftrightarrow>
     distinct (map fst (tx_memtables tx)) \<and>
     (\<forall>(h, m)\<in>set (tx_memtables tx). db_handles db h \<noteq> None \<and> mem_below E (tx_seqno tx) m) \<and>
     (\<forall>v. over_view E (tx_memtables tx) v = fold view_write ws v) \<and>
     unat (tx_seqno tx) = 2 ^ 63 + length ws \<and>
     (\<forall>h k iv. overlay E (tx_memtables tx) h k = Some iv \<longrightarrow>
        iv_key iv = k \<and> (\<exists>s w. (h, w) \<in> set ws \<and> iv = write_iv s w)) \<and>
     (ws = [] \<longleftrightarrow> tx_memtables tx = [])"

lemma tx_inv_new: "tx_inv E db [] (base_new instant)"
  by (simp add: tx_inv_def base_new_def over_view_def overlay_def fun_eq_iff)

definition live_keys :: "'t db \<Rightarrow> (u64 \<times> 'm) list \<Rightarrow> bool" where
  "live_keys db ms = list_all (\<lambda>e. db_handles db (fst e) \<noteq> None) ms"

lemma same_name_iff:
  assumes "names_distinct db" "db_handles db h1 \<noteq> None" "db_handles db h2 \<noteq> None"
  shows "same_name db h1 h2 \<longleftrightarrow> h1 = h2"
  using assms unfolding names_distinct_def by (auto simp: same_name_def)

lemma entry_insert_keys:
  assumes "names_distinct db" "db_handles db h \<noteq> None" "live_keys db ms"
  shows "map fst (entry_insert L db h iv ms) = map fst ms @ (if h \<in> fst ` set ms then [] else [h])"
  using assms(3)
proof (induction ms)
  case (Cons e ms)
  obtain h' m where e: "e = (h', m)" by (cases e)
  have "same_name db h' h \<longleftrightarrow> h' = h"
    using same_name_iff [OF assms(1) _ assms(2)] Cons.prems by (simp add: live_keys_def e)
  with Cons show ?case by (auto simp: e live_keys_def)
qed simp

lemma entry_insert_map_of:
  assumes "names_distinct db" "db_handles db h \<noteq> None" "live_keys db ms"
  shows "map_of (entry_insert L db h iv ms) =
    (map_of ms)(h \<mapsto> m_insert L iv (case map_of ms h of None \<Rightarrow> m_new L | Some m \<Rightarrow> m))"
  using assms(3)
proof (induction ms)
  case (Cons e ms)
  obtain h' m where e: "e = (h', m)" by (cases e)
  have "same_name db h' h \<longleftrightarrow> h' = h"
    using same_name_iff [OF assms(1) _ assms(2)] Cons.prems by (simp add: live_keys_def e)
  with Cons show ?case by (cases "h' = h") (simp_all add: e live_keys_def fun_eq_iff)
qed simp

lemma find_same_name:
  assumes "names_distinct db" "db_handles db h \<noteq> None" "live_keys db ms"
  shows "map_option snd (find (\<lambda>e. same_name db (fst e) h) ms) = map_of ms h"
  using assms(3)
proof (induction ms)
  case (Cons e ms)
  have "same_name db (fst e) h \<longleftrightarrow> fst e = h"
    using same_name_iff [OF assms(1) _ assms(2)] Cons.prems by (simp add: live_keys_def)
  with Cons show ?case by (cases e) (simp add: live_keys_def)
qed simp

lemma memtable_of_eq:
  assumes "names_distinct db" "db_handles db h \<noteq> None" "live_keys db (tx_memtables tx)"
  shows "memtable_of db h tx = map_of (tx_memtables tx) h"
  using find_same_name [OF assms] by (simp add: memtable_of_def)

lemma tx_inv_live: "tx_inv E db ws tx \<Longrightarrow> live_keys db (tx_memtables tx)"
  by (auto simp: tx_inv_def live_keys_def list_all_iff)

lemma tx_inv_below:
  "tx_inv E db ws tx \<Longrightarrow> map_of (tx_memtables tx) h = Some m \<Longrightarrow> mem_below E (tx_seqno tx) m"
  using map_of_SomeD by (fastforce simp: tx_inv_def)

lemma unat_seqno_small:
  assumes "unat s = 2 ^ 63 + n" "n < 2 ^ 63 - 1"
  shows "s \<noteq> (- 1 :: seqno)" "unat (s + 1) = 2 ^ 63 + Suc n"
proof -
  show s: "s \<noteq> - 1" using assms by (auto simp: unat_seqno_max)
  show "unat (s + 1) = 2 ^ 63 + Suc n" using unat_Suc_seqno [OF s] assms(1) by simp
qed

lemma tx_inv_write:
  assumes L: "memtable_ok (en_lsm E)" and names: "names_distinct db" "db_handles db h \<noteq> None"
    and inv: "tx_inv E db ws tx" and len: "length ws < 2 ^ 63 - 1"
  shows "tx_inv E db (ws @ [(h, w)]) (base_write E db (h, w) tx)"
proof -
  let ?s = "tx_seqno tx" and ?ms = "tx_memtables tx"
  let ?iv = "write_iv ?s w"
  let ?ms' = "entry_insert (en_lsm E) db h ?iv ?ms"
  define m0 where "m0 = (case map_of ?ms h of None \<Rightarrow> m_new (en_lsm E) | Some m \<Rightarrow> m)"
  have live: "live_keys db ?ms" by (rule tx_inv_live [OF inv])
  have un: "unat ?s = 2 ^ 63 + length ws" using inv by (simp add: tx_inv_def)
  note s = unat_seqno_small [OF un len]
  have iv: "iv_key ?iv = write_key w" "iv_seqno ?iv = ?s" by (simp_all add: write_iv_def)
  have m0: "mem_below E ?s m0"
    using mem_below_new [OF L] tx_inv_below [OF inv] by (simp add: m0_def split: option.split)
  note ins = newest_item_insert [OF L m0 iv(2) s(1)]
  have keys: "map fst ?ms' = map fst ?ms @ (if h \<in> fst ` set ?ms then [] else [h])"
    by (rule entry_insert_keys [OF names live])
  have mo: "map_of ?ms' = (map_of ?ms)(h \<mapsto> m_insert (en_lsm E) ?iv m0)"
    unfolding m0_def by (rule entry_insert_map_of [OF names live])
  have dist: "distinct (map fst ?ms')" using inv keys by (auto simp: tx_inv_def)
  have ov: "overlay E ?ms' = (overlay E ?ms)(h := (overlay E ?ms h)(write_key w \<mapsto> ?iv))"
    using ins(1) iv(1) newest_item_new [OF L]
    by (auto simp: overlay_def mo fun_eq_iff m0_def split: option.split)
  have each: "mem_below E (?s + 1) m" "db_handles db h' \<noteq> None" if "(h', m) \<in> set ?ms'" for h' m
  proof -
    have "map_of ?ms' h' = Some m" using that dist by (simp add: map_of_is_SomeI)
    then show "mem_below E (?s + 1) m"
      using ins(2) tx_inv_below [OF inv, of h'] less_trans [OF _ seqno_less_Suc [OF s(1)]]
      by (auto simp: mo mem_below_def split: if_splits)
    have "h' \<in> fst ` set ?ms'" using that by force
    then have "h' \<in> set (map fst ?ms')" by simp
    then show "db_handles db h' \<noteq> None"
      using names(2) live unfolding keys by (auto simp: live_keys_def list_all_iff split: if_splits)
  qed
  have "\<forall>(h', m)\<in>set ?ms'. db_handles db h' \<noteq> None \<and> mem_below E (?s + 1) m" using each by blast
  moreover have "over_view E ?ms' v = fold view_write (ws @ [(h, w)]) v" for v
  proof -
    have "over_view E ?ms v = fold view_write ws v" using inv by (simp add: tx_inv_def)
    then show ?thesis
      by (auto simp: over_view_def ov view_write_def fun_eq_iff split: option.splits)
  qed
  moreover have "iv_key iv = k \<and> (\<exists>s w'. (h', w') \<in> set (ws @ [(h, w)]) \<and> iv = write_iv s w')"
    if "overlay E ?ms' h' k = Some iv" for h' k iv
    using that inv iv(1) unfolding ov tx_inv_def by (auto split: if_splits; blast)
  moreover have "?ms' \<noteq> []" using keys by auto
  ultimately show ?thesis
    using dist s(2) unfolding tx_inv_def base_write_eq by simp
qed

lemma tx_inv_writes:
  assumes "memtable_ok (en_lsm E)" "names_distinct db" "\<forall>(h, w)\<in>set ws. db_handles db h \<noteq> None"
    and "length ws < 2 ^ 63"
  shows "tx_inv E db ws (fold (base_write E db) ws (base_new instant))"
  using assms(3,4)
proof (induction ws rule: rev_induct)
  case Nil
  then show ?case by (simp add: tx_inv_new)
next
  case (snoc w ws)
  obtain h sw where w: "w = (h, sw)" by (cases w)
  show ?case
    using tx_inv_write [OF assms(1,2) _ snoc.IH, of h sw] snoc.prems by (simp add: w)
qed

lemma fold_base_write_instant:
  "tx_instant (fold (base_write E db) ws tx) = tx_instant tx"
  "tx_durability (fold (base_write E db) ws tx) = tx_durability tx"
  by (induction ws arbitrary: tx) (auto simp: base_write_eq)

section \<open>Reads\<close>

lemma own_item_eq:
  assumes "memtable_ok (en_lsm E)" "names_distinct db" "db_handles db h \<noteq> None" "tx_inv E db ws tx"
  shows "own_item E db h k tx = overlay E (tx_memtables tx) h k"
  using m_get_newest [OF assms(1) tx_inv_below [OF assms(4)]]
  by (simp add: own_item_def overlay_def memtable_of_eq [OF assms(2,3) tx_inv_live [OF assms(4)]]
      SEQNO_MAX_def split: option.split)

lemma version_of_eq: "version_of iv = map_option iv_value (ignore_tombstone_value iv)"
  by (simp add: version_of_def ignore_tombstone_value_def)

lemma base_get_eq:
  assumes "lsm_ok (en_lsm E) hc" "names_distinct db" "db_handles db h \<noteq> None" "tx_inv E db ws tx"
  shows "base_get E tx h k db = Inr (fold view_write ws (read_at hc (tx_instant tx) db) h k)"
proof -
  have L: "memtable_ok (en_lsm E)" "lsm_reads_ok (en_lsm E) hc" using assms(1) by (simp_all add: lsm_ok_def)
  have "fold view_write ws (read_at hc (tx_instant tx) db) = over_view E (tx_memtables tx) (read_at hc (tx_instant tx) db)"
    using assms(4) by (simp add: tx_inv_def)
  then show ?thesis
    using keyspace_get_eq(1) [OF L(2), of "tx_instant tx" h k db] assms(3)
    by (simp add: base_get_def own_item_eq [OF L(1) assms(2-4)] over_view_def version_of_eq snapshot_get_def
        split: option.split)
qed

lemma view_over_own:
  assumes "lsm_ok (en_lsm E) hc" "names_distinct db" "db_handles db h = Some ks" "tx_inv E db ws tx"
  shows "view_over (en_lsm E) (own_memtable db h tx) (hc (ks_tree ks)) (tx_instant tx) =
    fold view_write ws (read_at hc (tx_instant tx) db) h"
proof -
  have L: "memtable_ok (en_lsm E)" using assms(1) by (simp add: lsm_ok_def)
  have mem: "memtable_of db h tx = map_of (tx_memtables tx) h"
    using memtable_of_eq [OF assms(2) _ tx_inv_live [OF assms(4)]] assms(3) by simp
  have "fold view_write ws (read_at hc (tx_instant tx) db) = over_view E (tx_memtables tx) (read_at hc (tx_instant tx) db)"
    using assms(4) by (simp add: tx_inv_def)
  moreover have "newest (iv_content (m_iter (en_lsm E) m) k) (tx_seqno tx) = map_option version_of (newest_item E m k)"
    if "map_of (tx_memtables tx) h = Some m" for m k
    using newest_iv_content [OF L tx_inv_below [OF assms(4) that]] .
  ultimately show ?thesis
    using assms(3)
    by (auto simp: fun_eq_iff view_over_def own_memtable_def mem overlaid_def over_view_def overlay_def read_at_def
        split: option.split)
qed

end
