(* ===== verification/BaseTxCalls.thy ===== *)
theory BaseTxCalls
  imports BaseTx
begin

text \<open>
  Properties of the base transaction: its reads are those of its writes over its snapshot, and
  its commit applies exactly those writes.
\<close>

section \<open>Commit\<close>

definition iv_fits :: "internal_value \<Rightarrow> bool" where
  "iv_fits iv \<longleftrightarrow> iv_key iv \<noteq> [] \<and> length (iv_key iv) < 2 ^ 16 \<and> length (iv_value iv) < 2 ^ 32 \<and> iv_type iv \<noteq> Indirection"

definition iv_item :: "u64 \<Rightarrow> internal_value \<Rightarrow> batch_item" where
  "iv_item h iv = \<lparr>bi_keyspace = h, bi_key = iv_key iv, bi_value = iv_value iv, bi_type = iv_type iv\<rparr>"

lemma item_new_fits: "iv_fits iv \<Longrightarrow> item_new h (iv_key iv) (iv_value iv) (iv_type iv) = Inr (iv_item h iv)"
  by (simp add: item_new_def iv_fits_def iv_item_def)

lemma iv_item_value: "iv_fits iv \<Longrightarrow> item_value (iv_item h iv) = version_of iv"
  by (cases "iv_type iv") (simp_all add: iv_fits_def item_value_def iv_item_def version_of_def)

text \<open>Of a sorted memtable, the commit loop keeps the newest item of each key.\<close>

fun firsts :: "bytes option \<Rightarrow> internal_value list \<Rightarrow> internal_value list" where
  "firsts prev [] = []"
| "firsts prev (x # xs) = (if prev = Some (iv_key x) then firsts prev xs else x # firsts (Some (iv_key x)) xs)"

definition not_above :: "bytes option \<Rightarrow> internal_value list \<Rightarrow> bool" where
  "not_above prev xs = (\<forall>p. prev = Some p \<longrightarrow> (\<forall>x\<in>set xs. p \<le> iv_key x))"

lemma sorted_keys: "sorted_wrt iv_before xs \<Longrightarrow> sorted (map iv_key xs)"
  by (induction xs) (auto simp: iv_before_def less_imp_le)

lemma firsts_sorted:
  assumes "sorted (map iv_key xs)" "not_above prev xs"
  shows "sorted_wrt (<) (map iv_key (firsts prev xs)) \<and>
    (\<forall>p. prev = Some p \<longrightarrow> (\<forall>x\<in>set (firsts prev xs). p < iv_key x))"
  using assms
proof (induction xs arbitrary: prev)
  case (Cons x xs)
  then have rec: "sorted (map iv_key xs)" "not_above prev xs" "not_above (Some (iv_key x)) xs"
    by (auto simp: not_above_def)
  show ?case
  proof (cases "prev = Some (iv_key x)")
    case True
    then show ?thesis using Cons.IH [OF rec(1,2)] by simp
  next
    case False
    note IH = Cons.IH [OF rec(1,3)]
    have "p < iv_key x" if "prev = Some p" for p
      using Cons.prems(2) that False by (auto simp: not_above_def le_less)
    then show ?thesis using False IH by (auto intro: less_trans)
  qed
qed simp

lemma find_firsts:
  assumes "sorted (map iv_key xs)" "not_above prev xs"
  shows "find (\<lambda>x. iv_key x = k) (firsts prev xs) = (if prev = Some k then None else find (\<lambda>x. iv_key x = k) xs)"
  using assms
proof (induction xs arbitrary: prev)
  case (Cons x xs)
  then have rec: "sorted (map iv_key xs)" "not_above prev xs" "not_above (Some (iv_key x)) xs"
    by (auto simp: not_above_def)
  show ?case
  proof (cases "prev = Some (iv_key x)")
    case True
    then show ?thesis using Cons.IH [OF rec(1,2)] by auto
  next
    case False
    have "find (\<lambda>x. iv_key x = k) xs = None" if "prev = Some k"
      using Cons.prems that False by (auto simp: not_above_def find_None_iff order_antisym)
    then show ?thesis using False Cons.IH [OF rec(1,3)] by auto
  qed
qed simp

lemma view_iv_item: "iv_fits x \<Longrightarrow> view_item (iv_item h x) v = v(h := (v h)(iv_key x := version_of x))"
  unfolding view_item_def iv_item_value by (simp add: iv_item_def)

lemma fold_view_items:
  assumes "distinct (map iv_key ivs)" "\<forall>iv\<in>set ivs. iv_fits iv"
  shows "fold view_item (map (iv_item h) ivs) v =
    v(h := \<lambda>k. case find (\<lambda>x. iv_key x = k) ivs of None \<Rightarrow> v h k | Some iv \<Rightarrow> version_of iv)"
  using assms
proof (induction ivs arbitrary: v)
  case (Cons x ivs)
  have none: "find (\<lambda>y. iv_key y = iv_key x) ivs = None"
    unfolding find_None_iff using Cons.prems(1) by (metis distinct.simps(2) imageI list.simps(9) set_map)
  let ?v = "v(h := (v h)(iv_key x := version_of x))"
  have "fold view_item (map (iv_item h) (x # ivs)) v = fold view_item (map (iv_item h) ivs) ?v"
    using view_iv_item Cons.prems(2) by simp
  also have "\<dots> = ?v(h := \<lambda>k. case find (\<lambda>x. iv_key x = k) ivs of None \<Rightarrow> ?v h k | Some iv \<Rightarrow> version_of iv)"
    by (rule Cons.IH) (use Cons.prems in auto)
  also have "\<dots> = v(h := \<lambda>k. case find (\<lambda>x. iv_key x = k) (x # ivs) of None \<Rightarrow> v h k | Some iv \<Rightarrow> version_of iv)"
    using none by (intro ext) (auto split: option.split)
  finally show ?case .
qed simp

lemma memtable_items_eq:
  "\<forall>iv\<in>set (firsts prev xs). iv_fits iv \<Longrightarrow> memtable_items h prev xs = Inr (map (iv_item h) (firsts prev xs))"
  by (induction xs arbitrary: prev) (auto simp: item_new_fits)

lemma memtable_items_spec:
  assumes "memtable_ok (en_lsm E)" "\<forall>k iv. newest_item E m k = Some iv \<longrightarrow> iv_fits iv"
  obtains ivs where "memtable_items h None (m_iter (en_lsm E) m) = Inr (map (iv_item h) ivs)"
    "\<forall>iv\<in>set ivs. iv_fits iv"
    "\<forall>v. fold view_item (map (iv_item h) ivs) v =
      v(h := \<lambda>k. case newest_item E m k of None \<Rightarrow> v h k | Some iv \<Rightarrow> version_of iv)"
proof -
  let ?xs = "m_iter (en_lsm E) m"
  have xs: "sorted (map iv_key ?xs)" "not_above None ?xs"
    using assms(1) sorted_keys by (auto simp: memtable_ok_def not_above_def)
  have dist: "distinct (map iv_key (firsts None ?xs))"
    using firsts_sorted [OF xs] by (simp add: strict_sorted_iff)
  have new: "find (\<lambda>x. iv_key x = k) (firsts None ?xs) = newest_item E m k" for k
    using find_firsts [OF xs, of k] by (simp add: newest_item_def)
  have fits: "\<forall>iv\<in>set (firsts None ?xs). iv_fits iv"
  proof
    fix iv assume "iv \<in> set (firsts None ?xs)"
    then have "newest_item E m (iv_key iv) = Some iv"
      using dist new [of "iv_key iv", symmetric] by (auto intro!: find_unique simp: distinct_map inj_on_def)
    then show "iv_fits iv" using assms(2) by blast
  qed
  show thesis
    by (rule that [OF memtable_items_eq [OF fits] fits]) (simp add: fold_view_items [OF dist fits] new)
qed

definition applies :: "('t, 'm) engine \<Rightarrow> (u64 \<times> 'm) list \<Rightarrow> batch_item list \<Rightarrow> bool" where
  "applies E ms items \<longleftrightarrow>
     (\<forall>i\<in>set items. \<exists>h iv. h \<in> fst ` set ms \<and> iv_fits iv \<and> i = iv_item h iv) \<and>
     (\<forall>v. fold view_item items v = over_view E ms v)"

lemma over_view_Cons:
  assumes "map_of ms h = None"
  shows "over_view E ms (v(h := \<lambda>k. case newest_item E m k of None \<Rightarrow> v h k | Some iv \<Rightarrow> version_of iv)) =
    over_view E ((h, m) # ms) v"
  using assms by (intro ext) (simp add: over_view_def overlay_def split: option.split)

lemma commit_items_spec:
  assumes "memtable_ok (en_lsm E)" "distinct (map fst ms)"
    "\<forall>h k iv. overlay E ms h k = Some iv \<longrightarrow> iv_fits iv"
  shows "\<exists>items. commit_items E ms = Inr items \<and> applies E ms items"
  using assms(2,3)
proof (induction ms)
  case Nil
  then show ?case by (simp add: applies_def over_view_def overlay_def fun_eq_iff)
next
  case (Cons e ms)
  obtain h m where e: "e = (h, m)" by (cases e)
  have fits: "\<forall>k iv. newest_item E m k = Some iv \<longrightarrow> iv_fits iv"
    using Cons.prems(2) [rule_format, of h] by (simp add: overlay_def e)
  obtain ivs where ivs: "memtable_items h None (m_iter (en_lsm E) m) = Inr (map (iv_item h) ivs)"
    "\<forall>iv\<in>set ivs. iv_fits iv"
    "\<forall>v. fold view_item (map (iv_item h) ivs) v =
      v(h := \<lambda>k. case newest_item E m k of None \<Rightarrow> v h k | Some iv \<Rightarrow> version_of iv)"
    by (rule memtable_items_spec [where h = h, OF assms(1) fits])
  have new: "map_of ms h = None" using Cons.prems(1) by (auto simp: e map_of_eq_None_iff)
  have "overlay E (e # ms) h' k = Some iv" if "overlay E ms h' k = Some iv" for h' k iv
    using new that by (cases "h' = h") (simp_all add: overlay_def e)
  then have ov: "\<forall>h k iv. overlay E ms h k = Some iv \<longrightarrow> iv_fits iv" using Cons.prems(2) by blast
  have "distinct (map fst ms)" using Cons.prems(1) by simp
  from Cons.IH [OF this ov] obtain items where items: "commit_items E ms = Inr items" "applies E ms items" by blast
  have "fold view_item (map (iv_item h) ivs @ items) v = over_view E (e # ms) v" for v
    using items(2) over_view_Cons [OF new] ivs(3) by (simp add: applies_def e)
  moreover have "\<exists>h' iv. h' \<in> fst ` set (e # ms) \<and> iv_fits iv \<and> i = iv_item h' iv"
    if "i \<in> set (map (iv_item h) ivs @ items)" for i
  proof (cases "i \<in> set items")
    case True
    then have "\<exists>h' iv. h' \<in> fst ` set ms \<and> iv_fits iv \<and> i = iv_item h' iv"
      using items(2) unfolding applies_def by blast
    then show ?thesis by auto
  next
    case False
    then obtain iv where "iv \<in> set ivs" "i = iv_item h iv" using \<open>i \<in> _\<close> by auto
    then show ?thesis using ivs(2) by (auto simp: e)
  qed
  ultimately have "applies E (e # ms) (map (iv_item h) ivs @ items)" unfolding applies_def by blast
  then show ?case using ivs(1) items(1) by (simp add: e)
qed

definition write_fits :: "single_write \<Rightarrow> bool" where
  "write_fits w \<longleftrightarrow> write_key w \<noteq> [] \<and> length (write_key w) < 2 ^ 16 \<and> length (write_bytes w) < 2 ^ 32"

lemma write_iv_fits: "write_fits w \<Longrightarrow> iv_fits (write_iv s w)"
  by (cases w) (simp_all add: write_fits_def iv_fits_def write_iv_def)

lemma tx_inv_overlay:
  assumes "tx_inv E db ws tx" "overlay E (tx_memtables tx) h k = Some iv"
  obtains q w where "(h, w) \<in> set ws" "iv = write_iv q w"
  using assms unfolding tx_inv_def by blast

lemma applies_item_ok:
  assumes "applies E ms items" "live_keys db ms"
  shows "list_all (item_ok db) items"
  unfolding list_all_iff
proof
  fix i assume "i \<in> set items"
  then obtain h iv where "h \<in> fst ` set ms" "iv_fits iv" "i = iv_item h iv"
    using assms(1) unfolding applies_def by blast
  then show "item_ok db i"
    using assms(2) by (auto simp: item_ok_def iv_item_def iv_fits_def live_keys_def list_all_iff)
qed

text \<open>The loop of \<open>commit\<close> only finishes when every item it keeps is within the limits.\<close>

lemma memtable_items_limits:
  assumes "memtable_items h prev xs = Inr items" "iv \<in> set (firsts prev xs)" "iv_type iv \<noteq> Indirection"
  shows "iv_fits iv"
  using assms
proof (induction xs arbitrary: prev items)
  case (Cons x xs)
  then show ?case
    by (cases "prev = Some (iv_key x)") (auto simp: result_elims item_new_def iv_fits_def split: if_splits)
qed simp

lemma commit_items_limits:
  assumes "memtable_ok (en_lsm E)" "commit_items E ms = Inr items"
    and "overlay E ms h k = Some iv" "iv_type iv \<noteq> Indirection"
  shows "iv_fits iv"
  using assms(2,3)
proof (induction ms arbitrary: items)
  case Nil
  then show ?case by (simp add: overlay_def)
next
  case (Cons e ms)
  obtain h' m where e: "e = (h', m)" by (cases e)
  obtain its js where run: "memtable_items h' None (m_iter (en_lsm E) m) = Inr its" "commit_items E ms = Inr js"
    using Cons.prems(1) by (auto simp: e result_elims)
  show ?case
  proof (cases "h = h'")
    case True
    let ?xs = "m_iter (en_lsm E) m"
    have "sorted (map iv_key ?xs)" "not_above None ?xs"
      using assms(1) sorted_keys by (auto simp: memtable_ok_def not_above_def)
    then have "find (\<lambda>x. iv_key x = k) (firsts None ?xs) = Some iv"
      using find_firsts [of ?xs None k] Cons.prems(2) True by (simp add: overlay_def e newest_item_def)
    then have "iv \<in> set (firsts None ?xs)" by (auto simp: find_Some_iff)
    then show ?thesis by (rule memtable_items_limits [OF run(1) _ assms(4)])
  next
    case False
    then show ?thesis using Cons.IH [OF run(2)] Cons.prems(2) by (simp add: overlay_def e)
  qed
qed

text \<open>What a commit does once its items are known.\<close>

lemma base_commit_run:
  assumes "lsm_ok (en_lsm E) hc" "db_inv hc db" "db_seqno db \<noteq> - 1" "tx_inv E db ws tx" "ws \<noteq> []"
    and items: "commit_items E (tx_memtables tx) = Inr items" "applies E (tx_memtables tx) items"
    and run: "base_commit E tx db = (r, db')"
  obtains (poisoned) "r = Inl Poisoned" "db_handles db' = db_handles db" "db_is_poisoned db'"
      "db_seqno db' = db_seqno db \<or> db_seqno db' = db_seqno db + 1" "db_tracker db' = db_tracker db"
  | (committed) "r = Inr ()" "same_handles db db'" "db_inv hc db'" "db_seqno db' = db_seqno db + 1"
      "db_tracker db' = publish (db_seqno db) (db_tracker db)"
      "\<forall>j. j \<le> db_seqno db \<longrightarrow> read_at hc j db' = read_at hc j db"
      "\<forall>j. db_seqno db < j \<longrightarrow> read_at hc j db' = fold view_write ws (read_at hc j db)"
proof -
  have L: "lsm_writes_ok (en_lsm E) hc" using assms(1) by (simp add: lsm_ok_def)
  have ok: "list_all (item_ok db) items" by (rule applies_item_ok [OF items(2) tx_inv_live [OF assms(4)]])
  have view: "fold view_item items v = fold view_write ws v" for v
    using items(2) assms(4) by (simp add: applies_def tx_inv_def)
  define b where "b = batch_new\<lparr>wb_durability := tx_durability tx, wb_data := items\<rparr>"
  have b: "wb_data b = items" by (simp add: b_def)
  have "tx_memtables tx \<noteq> []" using assms(4,5) by (simp add: tx_inv_def)
  then have run': "batch_commit E b db = (r, db')" using run items(1) by (simp add: base_commit_def b_def)
  from ok have "list_all (item_ok db) (wb_data b)" by (simp add: b)
  from L assms(2,3) this run' show thesis
  proof (cases rule: batch_commit_cases)
    case empty
    obtain ws' h w where ws: "ws = ws' @ [(h, w)]" using assms(5) by (metis rev_exhaust surj_pair)
    obtain x where "x \<noteq> write_value w" by (cases "write_value w") auto
    then have "fold view_write ws (\<lambda>_ _. x) \<noteq> (\<lambda>_ _. x)"
      by (auto simp: ws view_write_def fun_eq_iff intro!: exI [of _ h] exI [of _ "write_key w"])
    then show thesis using view [of "\<lambda>_ _. x"] empty(1) by (simp add: b)
  next
    case poisoned
    then show thesis by (rule that(1))
  next
    case committed
    then show thesis using view by (intro that(2)) (simp_all add: b)
  qed
qed

lemma base_commit_cases:
  assumes "lsm_ok (en_lsm E) hc" "db_inv hc db" "db_seqno db \<noteq> - 1" "tx_inv E db ws tx" "ws \<noteq> []"
    and run: "base_commit E tx db = (r, db')"
  obtains (rejected) e where "r = Inl e" "db' = db"
  | (poisoned) "r = Inl Poisoned" "db_handles db' = db_handles db" "db_is_poisoned db'"
      "db_seqno db' = db_seqno db \<or> db_seqno db' = db_seqno db + 1" "db_tracker db' = db_tracker db"
  | (committed) "r = Inr ()" "same_handles db db'" "db_inv hc db'" "db_seqno db' = db_seqno db + 1"
      "db_tracker db' = publish (db_seqno db) (db_tracker db)"
      "\<forall>j. j \<le> db_seqno db \<longrightarrow> read_at hc j db' = read_at hc j db"
      "\<forall>j. db_seqno db < j \<longrightarrow> read_at hc j db' = fold view_write ws (read_at hc j db)"
proof -
  have L: "memtable_ok (en_lsm E)" using assms(1) by (simp add: lsm_ok_def)
  have ms: "tx_memtables tx \<noteq> []" "distinct (map fst (tx_memtables tx))" using assms(4,5) by (auto simp: tx_inv_def)
  show thesis
  proof (cases "commit_items E (tx_memtables tx)")
    case (Inl e)
    then show thesis using rejected [of e] run ms(1) by (simp add: base_commit_def)
  next
    case (Inr items)
    have "iv_fits iv" if ov: "overlay E (tx_memtables tx) h k = Some iv" for h k iv
    proof -
      obtain q w where "iv = write_iv q w" by (rule tx_inv_overlay [OF assms(4) ov])
      then have "iv_type iv \<noteq> Indirection" by (cases w) (simp_all add: write_iv_def)
      with L Inr ov show ?thesis by (rule commit_items_limits)
    qed
    with commit_items_spec [OF L ms(2)] have "applies E (tx_memtables tx) items" using Inr by auto
    from assms(1-5) Inr this run show thesis
    proof (cases rule: base_commit_run)
      case poisoned
      then show thesis by (rule that(2))
    next
      case committed
      then show thesis by (rule that(3))
    qed
  qed
qed

lemma commit_items_fits:
  assumes "memtable_ok (en_lsm E)" "tx_inv E db ws tx" "\<forall>(h, w)\<in>set ws. write_fits w"
  shows "\<exists>items. commit_items E (tx_memtables tx) = Inr items \<and> applies E (tx_memtables tx) items"
proof -
  have "iv_fits iv" if ov: "overlay E (tx_memtables tx) h k = Some iv" for h k iv
  proof -
    obtain q w where "(h, w) \<in> set ws" "iv = write_iv q w" by (rule tx_inv_overlay [OF assms(2) ov])
    then show ?thesis using assms(3) write_iv_fits by blast
  qed
  moreover have "distinct (map fst (tx_memtables tx))" using assms(2) by (simp add: tx_inv_def)
  ultimately show ?thesis using commit_items_spec [OF assms(1)] by blast
qed

lemma base_commit_fits:
  assumes "lsm_ok (en_lsm E) hc" "db_inv hc db" "db_seqno db \<noteq> - 1" "tx_inv E db ws tx"
    and "\<forall>(h, w)\<in>set ws. write_fits w" "base_commit E tx db = (Inl e, db')"
  shows "e = Poisoned" "db_is_poisoned db'"
proof -
  have L: "memtable_ok (en_lsm E)" using assms(1) by (simp add: lsm_ok_def)
  have ws: "ws \<noteq> []" using assms(4,6) by (auto simp: tx_inv_def base_commit_def)
  obtain items where items: "commit_items E (tx_memtables tx) = Inr items" "applies E (tx_memtables tx) items"
    using commit_items_fits [OF L assms(4,5)] by blast
  from assms(1-4) ws items assms(6) have "e = Poisoned \<and> db_is_poisoned db'"
    by (cases rule: base_commit_run) simp_all
  then show "e = Poisoned" "db_is_poisoned db'" by blast+
qed

lemma base_commit_healthy:
  assumes "device_ok E" "\<not> db_is_poisoned db" "base_commit E tx db = (r, db')"
  shows "\<not> db_is_poisoned db'"
  using assms batch_commit_healthy [OF assms(1,2)]
  by (auto simp: base_commit_def split: if_splits sum.splits)

section \<open>Properties\<close>

lemma scans_tx:
  assumes "lsm_ok (en_lsm E) hc" "names_distinct db" "db_handles db h = Some ks" "tx_inv E db ws tx"
  shows "scans (in_range rg) (fold view_write ws (read_at hc (tx_instant tx) db) h) (base_range E tx h rg db)"
    and "scans (\<lambda>_. True) (fold view_write ws (read_at hc (tx_instant tx) db) h) (base_iter E tx h db)"
    and "scans (prefix p) (fold view_write ws (read_at hc (tx_instant tx) db) h) (base_prefix E tx h p db)"
  using assms(1,3) unfolding view_over_own [OF assms, symmetric]
  by (cases rg, simp_all add: lsm_ok_def lsm_reads_ok_def base_range_def base_iter_def base_prefix_def tree_scan_def)

lemma base_probe_eq:
  assumes "lsm_ok (en_lsm E) hc" "names_distinct db" "db_handles db h \<noteq> None" "tx_inv E db ws tx"
  shows "base_contains_key E tx h k db = Inr (fold view_write ws (read_at hc (tx_instant tx) db) h k \<noteq> None)"
    and "base_size_of E tx h k db =
      Inr (map_option (\<lambda>v. of_nat (length v)) (fold view_write ws (read_at hc (tx_instant tx) db) h k))"
proof -
  have L: "memtable_ok (en_lsm E)" "lsm_reads_ok (en_lsm E) hc" using assms(1) by (simp_all add: lsm_ok_def)
  obtain ks where ks: "db_handles db h = Some ks" using assms(3) by blast
  note own = own_item_eq [OF L(1) assms(2-4), of k]
  have view: "fold view_write ws (read_at hc (tx_instant tx) db) h k =
      over_view E (tx_memtables tx) (read_at hc (tx_instant tx) db) h k"
    using assms(4) by (simp add: tx_inv_def)
  show "base_contains_key E tx h k db = Inr (fold view_write ws (read_at hc (tx_instant tx) db) h k \<noteq> None)"
    "base_size_of E tx h k db =
      Inr (map_option (\<lambda>v. of_nat (length v)) (fold view_write ws (read_at hc (tx_instant tx) db) h k))"
    using L(2) ks unfolding view base_contains_key_def base_size_of_def own
    by (auto simp: over_view_def version_of_eq ignore_tombstone_value_def keyspace_read_def read_at_def
        lsm_reads_ok_def split: option.split)
qed

text \<open>C13: a transaction reads its own writes over the snapshot it was opened on: point reads, sizes
  and the three kinds of scan all give the snapshot's keyspace with the transaction's writes
  applied in order.\<close>

theorem tx_reads_own_writes:
  assumes "lsm_ok (en_lsm E) hc" "names_distinct db" "\<forall>(h, w)\<in>set ws. db_handles db h \<noteq> None"
    and "length ws < 2 ^ 63" "db_handles db h \<noteq> None"
  shows "let tx = fold (base_write E db) ws (base_new i); view = fold view_write ws (read_at hc i db) h in
    base_get E tx h k db = Inr (view k) \<and>
    base_contains_key E tx h k db = Inr (view k \<noteq> None) \<and>
    base_size_of E tx h k db = Inr (map_option (\<lambda>v. of_nat (length v)) (view k)) \<and>
    scans (\<lambda>_. True) view (base_iter E tx h db) \<and>
    scans (in_range rg) view (base_range E tx h rg db) \<and>
    scans (prefix p) view (base_prefix E tx h p db)"
proof -
  let ?tx = "fold (base_write E db) ws (base_new i)"
  have L: "memtable_ok (en_lsm E)" "lsm_reads_ok (en_lsm E) hc" using assms(1) by (simp_all add: lsm_ok_def)
  have inv: "tx_inv E db ws ?tx" by (rule tx_inv_writes [OF L(1) assms(2-4)])
  have inst: "tx_instant ?tx = i" by (simp add: fold_base_write_instant base_new_def)
  obtain ks where ks: "db_handles db h = Some ks" using assms(5) by blast
  show ?thesis
    using base_get_eq [OF assms(1,2,5) inv] base_probe_eq [OF assms(1,2,5) inv] scans_tx [OF assms(1,2) ks inv]
    by (simp add: inst)
qed

text \<open>A transaction on two keyspaces that overwrites one of its own writes.\<close>

definition sample_writes :: "tx_write list" where
  "sample_writes = [(1, Insert [1] [7]), (2, Insert [2] [9]), (1, Remove [1])]"

lemma sample_names: "names_distinct sample_db"
  by (auto simp: names_distinct_def same_name_def sample_db_def sample_keyspace_def split: if_splits)

lemma sample_writes_ok:
  "\<forall>(h, w)\<in>set sample_writes. db_handles sample_db h \<noteq> None \<and> write_fits w"
  "\<forall>(h, w)\<in>set sample_writes. db_handles sample_db h \<noteq> None" "length sample_writes < 2 ^ 63"
  "db_handles sample_db 1 \<noteq> None" "db_handles sample_db 2 \<noteq> None" "db_seqno sample_db < SEQNO_MAX"
  by (simp_all add: sample_writes_def sample_db_def write_fits_def write_bytes_def SEQNO_MAX_def)

theorem tx_reads_own_writes_witness:
  "base_get sample_engine (fold (base_write sample_engine sample_db) sample_writes (base_new 5)) 2 [2] sample_db = Inr (Some [9])"
  using tx_reads_own_writes [OF sample_db_ok(1) sample_names sample_writes_ok(2,3,5), of 5 "[2]"]
  by (simp add: sample_writes_def view_write_def Let_def)

text \<open>C8: committing a transaction applies exactly its writes, in order and at one sequence number.
  If the commit returns \<open>Ok\<close>, reads above that number are the old reads with the writes applied and
  reads up to it are unchanged; if it fails, the database is poisoned and no read has changed.  No
  other error is possible for live keyspaces and keys and values within the item limits.\<close>

theorem tx_commit_applies_writes:
  assumes "lsm_ok (en_lsm E) hc" "db_inv hc db" "names_distinct db" "db_seqno db < SEQNO_MAX"
    and "\<forall>(h, w)\<in>set ws. db_handles db h \<noteq> None \<and> write_fits w" "length ws < 2 ^ 63"
    and "base_commit E (fold (base_write E db) ws (base_new i)) db = (r, db')"
  shows "(r = Inr () \<and>
      (\<forall>j. j \<le> db_seqno db \<longrightarrow> read_at hc j db' = read_at hc j db) \<and>
      (\<forall>j. db_seqno db < j \<longrightarrow> read_at hc j db' = fold view_write ws (read_at hc j db)) \<and> db_inv hc db') \<or>
    (r = Inl Poisoned \<and> db_is_poisoned db' \<and> (\<forall>j. read_at hc j db' = read_at hc j db))"
proof -
  let ?tx = "fold (base_write E db) ws (base_new i)"
  have L: "memtable_ok (en_lsm E)" "lsm_writes_ok (en_lsm E) hc" using assms(1) by (simp_all add: lsm_ok_def)
  have "\<forall>(h, w)\<in>set ws. db_handles db h \<noteq> None" using assms(5) by auto
  then have inv: "tx_inv E db ws ?tx" by (rule tx_inv_writes [OF L(1) assms(3) _ assms(6)])
  have s: "db_seqno db \<noteq> - 1" using assms(4) by (auto simp: SEQNO_MAX_def)
  show ?thesis
  proof (cases "tx_memtables ?tx = []")
    case True
    then have "ws = []" using inv by (simp add: tx_inv_def)
    then show ?thesis using assms(2,7) by (auto simp: base_commit_def base_new_def)
  next
    case False
    then have ws: "ws \<noteq> []" using inv by (simp add: tx_inv_def)
    have "\<forall>(h, w)\<in>set ws. write_fits w" using assms(5) by auto
    from commit_items_fits [OF L(1) inv this] obtain items
      where items: "commit_items E (tx_memtables ?tx) = Inr items" "applies E (tx_memtables ?tx) items" by blast
    from assms(1,2) s inv ws items assms(7) show ?thesis
    proof (cases rule: base_commit_run)
      case poisoned
      then show ?thesis using read_at_cong [OF poisoned(2)] by simp
    next
      case committed
      then show ?thesis by simp
    qed
  qed
qed

theorem tx_commit_applies_writes_witness:
  "\<exists>db'. base_commit sample_engine (fold (base_write sample_engine sample_db) sample_writes (base_new 5)) sample_db = (Inr (), db') \<and>
     read_at ref_content 6 db' 2 [2] = Some [9] \<and> read_at ref_content 6 db' 1 [1] = None"
proof -
  obtain r db' where run: "base_commit sample_engine (fold (base_write sample_engine sample_db) sample_writes (base_new 5))
      sample_db = (r, db')" by fastforce
  have "db_seqno sample_db < 6" by (simp add: sample_db_def)
  with tx_commit_applies_writes [OF sample_db_ok(1,2) sample_names sample_writes_ok(6,1,3) run] run
    base_commit_healthy [OF sample_device run]
  show ?thesis by (auto simp: sample_writes_def view_write_def)
qed

end
