(* ===== verification/Cell.thy ===== *)
theory Cell
  imports Composite BaseTxCalls
begin

text \<open>
  \<open>src/secure/cell.rs\<close>: versioned cells on top of composite keys, with exact reads, scans of the
  versions of a cell, and deletion of versions.

  The read trait is implemented for every \<open>Readable\<close>; its methods take the two reads they use,
  \<open>get\<close> and \<open>range\<close>, as arguments.  \<open>prefix_to_range\<close> of the engine is the parameter \<open>pr\<close>.
\<close>

section \<open>Cells\<close>

record cell =
  c_row :: bytes
  c_family :: bytes
  c_qualifier :: bytes
  c_visibility :: bytes

record versioned_cell =
  vc_cell :: cell
  vc_timestamp :: i64

definition cell_version :: "cell \<Rightarrow> i64 \<Rightarrow> versioned_cell" where
  "cell_version c ts = \<lparr>vc_cell = c, vc_timestamp = ts\<rparr>"

definition cell_composite_prefix :: "cell \<Rightarrow> composite_prefix" where
  "cell_composite_prefix c =
     \<lparr>p_row = Some (c_row c), p_family = Some (c_family c), p_qualifier = Some (c_qualifier c),
      p_visibility = Some (c_visibility c)\<rparr>"

definition composite_key_from :: "versioned_cell \<Rightarrow> composite_key" where
  "composite_key_from vc =
     \<lparr>row = c_row (vc_cell vc), family = c_family (vc_cell vc), qualifier = c_qualifier (vc_cell vc),
      visibility = c_visibility (vc_cell vc), timestamp = vc_timestamp vc\<rparr>"

definition versioned_cell_from :: "composite_key \<Rightarrow> versioned_cell" where
  "versioned_cell_from k =
     \<lparr>vc_cell = \<lparr>c_row = row k, c_family = family k, c_qualifier = qualifier k, c_visibility = visibility k\<rparr>,
      vc_timestamp = timestamp k\<rparr>"

definition cell_encode :: "versioned_cell \<Rightarrow> bytes result" where
  "cell_encode vc = composite_encode (composite_key_from vc)"

record version_scan =
  min_timestamp :: "i64 option"
  max_timestamp :: "i64 option"
  max_versions :: "nat option"

definition version_scan_default :: version_scan where
  "version_scan_default = \<lparr>min_timestamp = None, max_timestamp = None, max_versions = None\<rparr>"

definition scan_includes :: "version_scan \<Rightarrow> i64 \<Rightarrow> bool" where
  "scan_includes sc ts \<longleftrightarrow>
     (case min_timestamp sc of None \<Rightarrow> True | Some m \<Rightarrow> sint m \<le> sint ts) \<and>
     (case max_timestamp sc of None \<Rightarrow> True | Some m \<Rightarrow> sint ts \<le> sint m)"

definition scan_is_satisfied_by :: "version_scan \<Rightarrow> nat \<Rightarrow> bool" where
  "scan_is_satisfied_by sc n = (case max_versions sc of None \<Rightarrow> False | Some m \<Rightarrow> m \<le> n)"

record versioned_entry =
  ve_cell :: versioned_cell
  ve_value :: bytes

section \<open>Reading\<close>

text \<open>The loop of \<open>scan_versioned_prefix\<close>, with the entries collected so far.\<close>

fun scan_guards :: "version_scan \<Rightarrow> guard list \<Rightarrow> versioned_entry list \<Rightarrow> versioned_entry list result" where
  "scan_guards sc [] entries = Inr entries"
| "scan_guards sc (g # gs) entries =
     bind_r (map_err Storage g) (\<lambda>(key, value).
     bind_r (composite_decode key) (\<lambda>k.
       let vc = versioned_cell_from k;
           entries' = (if scan_includes sc (vc_timestamp vc)
                       then entries @ [\<lparr>ve_cell = vc, ve_value = value\<rparr>] else entries)
       in if scan_is_satisfied_by sc (length entries') then Inr entries' else scan_guards sc gs entries'))"

definition read_get_version :: "(bytes \<Rightarrow> bytes option result) \<Rightarrow> versioned_cell \<Rightarrow> bytes option result" where
  "read_get_version get vc = bind_r (cell_encode vc) get"

definition read_scan_versioned_prefix ::
    "(bytes \<Rightarrow> key_range) \<Rightarrow> (key_range \<Rightarrow> guard list) \<Rightarrow> composite_prefix \<Rightarrow> version_scan
     \<Rightarrow> versioned_entry list result" where
  "read_scan_versioned_prefix pr rng p sc =
     bind_r (composite_prefix_range pr p) (\<lambda>r. scan_guards sc (rng r) [])"

definition read_scan_versions ::
    "(bytes \<Rightarrow> key_range) \<Rightarrow> (key_range \<Rightarrow> guard list) \<Rightarrow> cell \<Rightarrow> version_scan \<Rightarrow> versioned_entry list result" where
  "read_scan_versions pr rng c sc = read_scan_versioned_prefix pr rng (cell_composite_prefix c) sc"

definition read_latest_version ::
    "(bytes \<Rightarrow> key_range) \<Rightarrow> (key_range \<Rightarrow> guard list) \<Rightarrow> cell \<Rightarrow> versioned_entry option result" where
  "read_latest_version pr rng c =
     map_r (\<lambda>es. case es of [] \<Rightarrow> None | e # _ \<Rightarrow> Some e)
       (read_scan_versions pr rng c (version_scan_default\<lparr>max_versions := Some 1\<rparr>))"

section \<open>Keyspaces\<close>

definition keyspace_insert_version ::
    "('t, 'm) engine \<Rightarrow> u64 \<Rightarrow> versioned_cell \<Rightarrow> bytes \<Rightarrow> 't db \<Rightarrow> unit result \<times> 't db" where
  "keyspace_insert_version E h vc value db =
     (case cell_encode vc of Inl e \<Rightarrow> (Inl e, db) | Inr key \<Rightarrow> keyspace_insert E h key value db)"

definition keyspace_get_version ::
    "('t, 'm) engine \<Rightarrow> u64 \<Rightarrow> versioned_cell \<Rightarrow> 't db \<Rightarrow> bytes option result" where
  "keyspace_get_version E h vc db = bind_r (cell_encode vc) (\<lambda>key. keyspace_get E h key db)"

definition keyspace_delete_version ::
    "('t, 'm) engine \<Rightarrow> u64 \<Rightarrow> versioned_cell \<Rightarrow> 't db \<Rightarrow> unit result \<times> 't db" where
  "keyspace_delete_version E h vc db =
     (case cell_encode vc of Inl e \<Rightarrow> (Inl e, db) | Inr key \<Rightarrow> keyspace_remove E h key db)"

text \<open>A loop over an iterator of the keyspace, which is dropped when the loop is left.\<close>

definition over_range ::
    "('t, 'm) engine \<Rightarrow> u64 \<Rightarrow> key_range \<Rightarrow> (guard list \<Rightarrow> 'a result) \<Rightarrow> 't db \<Rightarrow> 'a result \<times> 't db" where
  "over_range E h r f db =
     (let ((gs, instant), db1) = keyspace_range E h r db in (f gs, iter_drop instant db1))"

definition keyspace_scan_versioned_prefix ::
    "('t, 'm) engine \<Rightarrow> (bytes \<Rightarrow> key_range) \<Rightarrow> u64 \<Rightarrow> composite_prefix \<Rightarrow> version_scan \<Rightarrow> 't db
     \<Rightarrow> versioned_entry list result \<times> 't db" where
  "keyspace_scan_versioned_prefix E pr h p sc db =
     (case composite_prefix_range pr p of
        Inl e \<Rightarrow> (Inl e, db)
      | Inr r \<Rightarrow> over_range E h r (\<lambda>gs. scan_guards sc gs []) db)"

definition keyspace_scan_versions ::
    "('t, 'm) engine \<Rightarrow> (bytes \<Rightarrow> key_range) \<Rightarrow> u64 \<Rightarrow> cell \<Rightarrow> version_scan \<Rightarrow> 't db
     \<Rightarrow> versioned_entry list result \<times> 't db" where
  "keyspace_scan_versions E pr h c sc db = keyspace_scan_versioned_prefix E pr h (cell_composite_prefix c) sc db"

definition keyspace_latest_version ::
    "('t, 'm) engine \<Rightarrow> (bytes \<Rightarrow> key_range) \<Rightarrow> u64 \<Rightarrow> cell \<Rightarrow> 't db \<Rightarrow> versioned_entry option result \<times> 't db" where
  "keyspace_latest_version E pr h c db =
     (let (r, db1) = keyspace_scan_versions E pr h c (version_scan_default\<lparr>max_versions := Some 1\<rparr>) db
      in (map_r (\<lambda>es. case es of [] \<Rightarrow> None | e # _ \<Rightarrow> Some e) r, db1))"

text \<open>The two loops of \<open>delete_versions_matching\<close>.\<close>

fun matching_keys :: "(i64 \<Rightarrow> bool) \<Rightarrow> guard list \<Rightarrow> bytes list result" where
  "matching_keys P [] = Inr []"
| "matching_keys P (g # gs) =
     bind_r (map_err Storage g) (\<lambda>(key, _).
     bind_r (composite_decode key) (\<lambda>k.
     map_r (\<lambda>keys. if P (vc_timestamp (versioned_cell_from k)) then key # keys else keys) (matching_keys P gs)))"

fun remove_keys :: "('t, 'm) engine \<Rightarrow> u64 \<Rightarrow> bytes list \<Rightarrow> 't db \<Rightarrow> unit result \<times> 't db" where
  "remove_keys E h [] db = (Inr (), db)"
| "remove_keys E h (key # keys) db =
     (case keyspace_remove E h key db of
        (Inl e, db1) \<Rightarrow> (Inl e, db1)
      | (Inr _, db1) \<Rightarrow> remove_keys E h keys db1)"

definition delete_versions_matching ::
    "('t, 'm) engine \<Rightarrow> (bytes \<Rightarrow> key_range) \<Rightarrow> u64 \<Rightarrow> cell \<Rightarrow> (i64 \<Rightarrow> bool) \<Rightarrow> 't db \<Rightarrow> unit result \<times> 't db" where
  "delete_versions_matching E pr h c P db =
     (case composite_prefix_range pr (cell_composite_prefix c) of
        Inl e \<Rightarrow> (Inl e, db)
      | Inr r \<Rightarrow>
          (case over_range E h r (matching_keys P) db of
             (Inl e, db1) \<Rightarrow> (Inl e, db1)
           | (Inr keys, db1) \<Rightarrow> remove_keys E h keys db1))"

definition keyspace_delete_versions ::
    "('t, 'm) engine \<Rightarrow> (bytes \<Rightarrow> key_range) \<Rightarrow> u64 \<Rightarrow> cell \<Rightarrow> 't db \<Rightarrow> unit result \<times> 't db" where
  "keyspace_delete_versions E pr h c db = delete_versions_matching E pr h c (\<lambda>_. True) db"

definition keyspace_delete_versions_older_than ::
    "('t, 'm) engine \<Rightarrow> (bytes \<Rightarrow> key_range) \<Rightarrow> u64 \<Rightarrow> cell \<Rightarrow> i64 \<Rightarrow> 't db \<Rightarrow> unit result \<times> 't db" where
  "keyspace_delete_versions_older_than E pr h c ts db =
     delete_versions_matching E pr h c (\<lambda>version. sint version < sint ts) db"

section \<open>Encoding\<close>

lemma versioned_cell_from_inverse [simp]: "versioned_cell_from (composite_key_from vc) = vc"
  by (simp add: versioned_cell_from_def composite_key_from_def)

lemma composite_key_from_inverse [simp]: "composite_key_from (versioned_cell_from k) = k"
  by (simp add: versioned_cell_from_def composite_key_from_def)

definition cell_bytes :: "versioned_cell \<Rightarrow> bytes" where
  "cell_bytes vc = key_bytes (composite_key_from vc)"

lemma cell_encode_bytes: "cell_encode vc = Inr b \<Longrightarrow> b = cell_bytes vc"
  by (simp add: cell_encode_def cell_bytes_def composite_encode_eq split: if_splits)

lemma decode_cell_bytes [simp]: "composite_decode (cell_bytes vc) = Inr (composite_key_from vc)"
  by (simp add: cell_bytes_def composite_decode_key_bytes)

lemma decode_cell_exact: "composite_decode b = Inr k \<Longrightarrow> b = cell_bytes (versioned_cell_from k)"
  by (simp add: cell_bytes_def composite_decode_exact)

lemma cell_bytes_inject: "cell_bytes a = cell_bytes b \<longleftrightarrow> a = b"
  by (metis decode_cell_bytes sum.inject(2) versioned_cell_from_inverse)

lemma cell_bytes_version: "cell_bytes (cell_version c s) = cell_bytes (cell_version c t) \<longleftrightarrow> s = t"
  by (simp add: cell_bytes_inject cell_version_def)

lemma cell_bytes_less:
  "cell_bytes (cell_version c s) < cell_bytes (cell_version c t) \<longleftrightarrow> sint t < sint s"
  by (auto simp: cell_bytes_def key_bytes_less cell_order_def composite_key_from_def cell_version_def less_prod_simp)

text \<open>The keys in the range of a cell's prefix are those of its versions.\<close>

lemma prefix_range_cells:
  assumes "prefix_range_law pr" "composite_prefix_range pr p = Inr r"
  shows "in_range r (cell_bytes vc) \<longleftrightarrow> prefix_matches p (composite_key_from vc)"
proof -
  obtain fs where fs: "prefix_fields p = Inr fs" "r = pr (encode_prefix_fields fs)"
    using assms(2) by (auto simp: composite_prefix_range_def result_elims Let_def)
  then show ?thesis
    using assms(1) prefix_fields_cases [OF fs(1)] by (simp add: cell_bytes_def prefix_range_law_def)
qed

lemma cell_prefix_matches:
  "prefix_matches (cell_composite_prefix c) (composite_key_from vc) \<longleftrightarrow> vc = cell_version c (vc_timestamp vc)"
  by (cases vc; cases c; cases "vc_cell vc")
    (auto simp: prefix_matches_def cell_composite_prefix_def field_matches_def composite_key_from_def cell_version_def)

section \<open>Scans\<close>

definition entry :: "versioned_cell \<Rightarrow> bytes \<Rightarrow> versioned_entry" where
  "entry vc v = \<lparr>ve_cell = vc, ve_value = v\<rparr>"

definition scan_limit :: "version_scan \<Rightarrow> 'a list \<Rightarrow> 'a list" where
  "scan_limit sc xs = (case max_versions sc of None \<Rightarrow> xs | Some n \<Rightarrow> take n xs)"

definition entry_included :: "version_scan \<Rightarrow> versioned_entry \<Rightarrow> bool" where
  "entry_included sc e = scan_includes sc (vc_timestamp (ve_cell e))"

text \<open>On keys that all decode, the loop collects the included entries up to the limit.\<close>

lemma scan_guards_eq:
  assumes "max_versions sc \<noteq> Some 0" "\<not> scan_is_satisfied_by sc (length es)"
  shows "scan_guards sc (map (\<lambda>(vc, v). Inr (cell_bytes vc, v)) xs) es =
    Inr (scan_limit sc (es @ filter (entry_included sc) (map (\<lambda>(vc, v). entry vc v) xs)))"
  using assms(2)
proof (induction xs arbitrary: es)
  case Nil
  then show ?case by (auto simp: scan_limit_def scan_is_satisfied_by_def split: option.split)
next
  case (Cons x xs)
  obtain vc v where x: "x = (vc, v)" by (cases x)
  show ?case
  proof (cases "scan_is_satisfied_by sc (length (es @ [entry vc v]))")
    case True
    then have full: "max_versions sc = Some (Suc (length es))"
      using Cons.prems by (auto simp: scan_is_satisfied_by_def split: option.splits)
    then show ?thesis
      using Cons.IH [OF Cons.prems] Cons.prems True
      by (simp add: x entry_included_def entry_def scan_limit_def Let_def)
  next
    case False
    then show ?thesis
      using Cons.IH [of "es @ [entry vc v]"] Cons.IH [OF Cons.prems] Cons.prems
      by (simp add: x entry_included_def entry_def Let_def)
  qed
qed

text \<open>A read through \<open>get\<close> and \<open>range\<close> of one view.\<close>

definition reads_view ::
    "(bytes \<Rightarrow> bytes option result) \<Rightarrow> (key_range \<Rightarrow> guard list) \<Rightarrow> (bytes \<Rightarrow> bytes option) \<Rightarrow> bool" where
  "reads_view get rng view \<longleftrightarrow> (\<forall>k. get k = Inr (view k)) \<and> (\<forall>r. scans (in_range r) view (rng r))"

text \<open>Every key of the view that is in a range is the encoding of a cell.\<close>

definition cells_only :: "(bytes \<Rightarrow> bytes option) \<Rightarrow> bool" where
  "cells_only view \<longleftrightarrow> (\<forall>k v. view k = Some v \<longrightarrow> (\<exists>vc. k = cell_bytes vc))"

lemma scans_cells:
  assumes "scans P view gs" "cells_only view"
  obtains xs where "gs = map (\<lambda>(vc, v). Inr (cell_bytes vc, v)) xs"
    "sorted_wrt (<) (map (\<lambda>x. cell_bytes (fst x)) xs)"
    "\<forall>vc v. (vc, v) \<in> set xs \<longleftrightarrow> P (cell_bytes vc) \<and> view (cell_bytes vc) = Some v"
proof -
  obtain kvs where kvs: "gs = map Inr kvs" "sorted_wrt (<) (map fst kvs)"
      "\<forall>k v. (k, v) \<in> set kvs \<longleftrightarrow> P k \<and> view k = Some v"
    using assms(1) unfolding scans_def by blast
  define f where "f = (\<lambda>(k, v :: bytes). (versioned_cell_from (projr (composite_decode k)), v))"
  define g where "g = (\<lambda>(vc, v :: bytes). (cell_bytes vc, v))"
  have gf: "g (f e) = e" if e: "e \<in> set kvs" for e
  proof -
    obtain k v where kv: "e = (k, v)" by (cases e)
    then have "view k = Some v" using kvs(3) e by simp
    then obtain vc where "k = cell_bytes vc" using assms(2) unfolding cells_only_def by blast
    then show ?thesis by (simp add: kv f_def g_def)
  qed
  have inj: "inj g" by (auto simp: inj_on_def g_def cell_bytes_inject)
  define xs where "xs = map f kvs"
  have eq: "kvs = map g xs" using gf by (simp add: xs_def map_idI)
  have mem: "(vc, v) \<in> set xs \<longleftrightarrow> (cell_bytes vc, v) \<in> set kvs" for vc v
    using inj_image_mem_iff [OF inj, of "(vc, v)" "set xs"] by (simp add: eq g_def)
  show thesis
  proof (rule that [of xs])
    show "gs = map (\<lambda>(vc, v). Inr (cell_bytes vc, v)) xs"
      by (simp add: kvs(1) eq g_def case_prod_beta)
    show "sorted_wrt (<) (map (\<lambda>x. cell_bytes (fst x)) xs)"
      using kvs(2) by (simp add: eq g_def case_prod_beta comp_def)
    show "\<forall>vc v. (vc, v) \<in> set xs \<longleftrightarrow> P (cell_bytes vc) \<and> view (cell_bytes vc) = Some v"
      using mem kvs(3) by simp
  qed
qed

lemma scans_range:
  assumes "lsm_reads_ok L hc"
  shows "scans (in_range r) (seen (hc t) s) (t_range L r s None t)"
proof -
  have "scans (in_range r) (view_over L None (hc t) s) (t_range L r s None t)"
    using assms unfolding lsm_reads_ok_def by blast
  then show ?thesis by (simp add: view_over_def)
qed

lemma scans_tree_range:
  assumes "lsm_reads_ok (en_lsm E) hc"
  shows "scans (in_range r) (read_at hc i db h) (tree_scan h (t_range (en_lsm E) r i None) db)"
proof (cases "db_handles db h")
  case None
  then show ?thesis by (simp add: tree_scan_def read_at_def scans_def)
next
  case (Some ks)
  then show ?thesis using scans_range [OF assms] by (simp add: tree_scan_def read_at_def)
qed

lemma reads_view_snapshot:
  assumes "lsm_reads_ok (en_lsm E) hc" "db_handles db h \<noteq> None"
  shows "reads_view (\<lambda>k. snapshot_get E i h k db) (\<lambda>r. snapshot_range E i h r db) (read_at hc i db h)"
  using assms(2) scans_tree_range [OF assms(1)]
  by (simp add: reads_view_def keyspace_get_eq(1) [OF assms(1)] snapshot_range_def)

lemma reads_view_tx:
  assumes "lsm_ok (en_lsm E) hc" "names_distinct db" "db_handles db h \<noteq> None" "tx_inv E db ws tx"
  shows "reads_view (\<lambda>k. base_get E tx h k db) (\<lambda>r. base_range E tx h r db)
    (fold view_write ws (read_at hc (tx_instant tx) db) h)"
  using base_get_eq [OF assms] scans_tx(1) [OF assms(1,2) _ assms(4), of h] assms(3)
  by (auto simp: reads_view_def)

text \<open>The entries of one cell in a view that a scan includes.\<close>

definition cell_entries :: "(bytes \<Rightarrow> bytes option) \<Rightarrow> cell \<Rightarrow> version_scan \<Rightarrow> versioned_entry set" where
  "cell_entries view c sc =
     {entry (cell_version c t) v | t v. view (cell_bytes (cell_version c t)) = Some v \<and> scan_includes sc t}"

definition newest_first :: "versioned_entry list \<Rightarrow> bool" where
  "newest_first = sorted_wrt (\<lambda>a b. sint (vc_timestamp (ve_cell b)) < sint (vc_timestamp (ve_cell a)))"

lemma cell_version_self: "vc = cell_version c t \<Longrightarrow> vc_timestamp vc = t"
  by (simp add: cell_version_def)

lemma group_scan:
  assumes "prefix_range_law pr" "scans (in_range r) view gs" "cells_only view"
    and "composite_prefix_range pr (cell_composite_prefix c) = Inr r"
  obtains xs where "gs = map (\<lambda>(vc, v). Inr (cell_bytes vc, v)) xs"
    "newest_first (filter (entry_included sc) (map (\<lambda>(vc, v). entry vc v) xs))"
    "set (filter (entry_included sc) (map (\<lambda>(vc, v). entry vc v) xs)) = cell_entries view c sc"
    "\<forall>vc v. (vc, v) \<in> set xs \<longleftrightarrow> vc = cell_version c (vc_timestamp vc) \<and> view (cell_bytes vc) = Some v"
proof -
  obtain xs where xs: "gs = map (\<lambda>(vc, v). Inr (cell_bytes vc, v)) xs"
    "sorted_wrt (<) (map (\<lambda>x. cell_bytes (fst x)) xs)"
    "\<forall>vc v. (vc, v) \<in> set xs \<longleftrightarrow> in_range r (cell_bytes vc) \<and> view (cell_bytes vc) = Some v"
    by (rule scans_cells [OF assms(2,3)])
  have mem: "(vc, v) \<in> set xs \<longleftrightarrow> vc = cell_version c (vc_timestamp vc) \<and> view (cell_bytes vc) = Some v" for vc v
    using xs(3) prefix_range_cells [OF assms(1,4), of vc] cell_prefix_matches [of c vc] by simp
  have key: "sint (vc_timestamp b) < sint (vc_timestamp a)"
    if "(a, v) \<in> set xs" "(b, w) \<in> set xs" "cell_bytes a < cell_bytes b" for a b v w
    using that mem [of a v] mem [of b w] cell_bytes_less [of c "vc_timestamp a" "vc_timestamp b"] by simp
  have "sorted_wrt (\<lambda>a b. cell_bytes (fst a) < cell_bytes (fst b)) xs" using xs(2) by (simp add: sorted_wrt_map)
  then have "sorted_wrt (\<lambda>a b. sint (vc_timestamp (fst b)) < sint (vc_timestamp (fst a))) xs"
    by (rule sorted_wrt_mono_rel [rotated]) (use key in \<open>metis prod.collapse\<close>)
  then have "newest_first (map (\<lambda>(vc, v). entry vc v) xs)"
    by (simp add: newest_first_def sorted_wrt_map case_prod_beta entry_def)
  then have sorted: "newest_first (filter (entry_included sc) (map (\<lambda>(vc, v). entry vc v) xs))"
    unfolding newest_first_def by (rule sorted_wrt_filter)
  have "e \<in> set (filter (entry_included sc) (map (\<lambda>(vc, v). entry vc v) xs)) \<longleftrightarrow> e \<in> cell_entries view c sc" for e
  proof -
    have "e \<in> set (filter (entry_included sc) (map (\<lambda>(vc, v). entry vc v) xs)) \<longleftrightarrow>
        (\<exists>vc v. (vc, v) \<in> set xs \<and> e = entry vc v \<and> scan_includes sc (vc_timestamp vc))"
      by (auto simp: entry_included_def entry_def)
    also have "\<dots> \<longleftrightarrow> e \<in> cell_entries view c sc"
      unfolding cell_entries_def mem by (auto intro: cell_version_self) (metis cell_version_self)+
    finally show ?thesis .
  qed
  then have "set (filter (entry_included sc) (map (\<lambda>(vc, v). entry vc v) xs)) = cell_entries view c sc" by blast
  from that [OF xs(1) sorted this] mem show thesis by blast
qed

section \<open>Deletion\<close>

lemma matching_keys_eq:
  "matching_keys P (map (\<lambda>(vc, v). Inr (cell_bytes vc, v)) xs) =
     Inr (map (\<lambda>x. cell_bytes (fst x)) (filter (\<lambda>x. P (vc_timestamp (fst x))) xs))"
  by (induction xs) auto

definition erased :: "u64 \<Rightarrow> bytes set \<Rightarrow> view \<Rightarrow> view" where
  "erased h ks v = (\<lambda>h' k. if h' = h \<and> k \<in> ks then None else v h' k)"

lemma remove_keys_reads:
  assumes "lsm_writes_ok (en_lsm E) hc" "db_inv hc db" "unat (db_seqno db) + length keys < 2 ^ 64 - 1"
    and "remove_keys E h keys db = (Inr (), db')"
  shows "read_at hc SEQNO_MAX db' = erased h (set keys) (read_at hc SEQNO_MAX db)"
  using assms(2-4)
proof (induction keys arbitrary: db)
  case Nil
  then show ?case by (simp add: erased_def)
next
  case (Cons key keys)
  obtain db1 where w: "keyspace_write E h (Remove key) db = (Inr (), db1)" "remove_keys E h keys db1 = (Inr (), db')"
    using Cons.prems(3) by (auto split: prod.splits sum.splits)
  have s: "db_seqno db \<noteq> - 1" using Cons.prems(2) by (auto simp: unat_seqno_max)
  have lt: "db_seqno db < SEQNO_MAX" using s by (simp add: SEQNO_MAX_def word_order.not_eq_extremum)
  have "db_seqno db1 = db_seqno db + 1" by (rule keyspace_write_effect [OF assms(1) w(1)])
  then have "unat (db_seqno db1) + length keys < 2 ^ 64 - 1"
    using Cons.prems(2) unat_Suc_seqno [OF s] by simp
  from Cons.IH [OF read_at_write(3) [OF assms(1) Cons.prems(1) w(1) s] this w(2)]
  show ?case
    using read_at_write(2) [OF assms(1) Cons.prems(1) w(1) lt] by (auto simp: erased_def fun_eq_iff)
qed

lemma group_keys:
  assumes "\<forall>vc v. (vc, v) \<in> set xs \<longleftrightarrow> vc = cell_version c (vc_timestamp vc) \<and> view (cell_bytes vc) = Some v"
  shows "k \<in> set (map (\<lambda>x. cell_bytes (fst x)) (filter (\<lambda>x. P (vc_timestamp (fst x))) xs)) \<longleftrightarrow>
    (\<exists>t. k = cell_bytes (cell_version c t) \<and> P t \<and> view k \<noteq> None)"
proof -
  have "k \<in> set (map (\<lambda>x. cell_bytes (fst x)) (filter (\<lambda>x. P (vc_timestamp (fst x))) xs)) \<longleftrightarrow>
      (\<exists>vc v. (vc, v) \<in> set xs \<and> P (vc_timestamp vc) \<and> k = cell_bytes vc)"
    by force
  also have "\<dots> \<longleftrightarrow> (\<exists>t. k = cell_bytes (cell_version c t) \<and> P t \<and> view k \<noteq> None)"
  proof
    assume "\<exists>vc v. (vc, v) \<in> set xs \<and> P (vc_timestamp vc) \<and> k = cell_bytes vc"
    then obtain vc v where vc: "(vc, v) \<in> set xs" "P (vc_timestamp vc)" "k = cell_bytes vc" by blast
    then have "vc = cell_version c (vc_timestamp vc)" "view k = Some v" using assms by simp_all
    then have "k = cell_bytes (cell_version c (vc_timestamp vc)) \<and> P (vc_timestamp vc) \<and> view k \<noteq> None"
      using vc by simp
    then show "\<exists>t. k = cell_bytes (cell_version c t) \<and> P t \<and> view k \<noteq> None" by blast
  next
    assume "\<exists>t. k = cell_bytes (cell_version c t) \<and> P t \<and> view k \<noteq> None"
    then obtain t v where t: "k = cell_bytes (cell_version c t)" "P t" "view k = Some v" by blast
    have ts: "vc_timestamp (cell_version c t) = t" by (simp add: cell_version_def)
    then have "(cell_version c t, v) \<in> set xs" using assms [rule_format, of "cell_version c t" v] t by simp
    then show "\<exists>vc v. (vc, v) \<in> set xs \<and> P (vc_timestamp vc) \<and> k = cell_bytes vc" using t ts by metis
  qed
  finally show ?thesis .
qed

lemma descending_distinct: "sorted_wrt (\<lambda>a b. sint b < sint a) ts \<Longrightarrow> distinct ts"
  by (induction ts) auto

lemma group_keys_bound:
  assumes "newest_first (filter (entry_included version_scan_default) (map (\<lambda>(vc, v). entry vc v) xs))"
    and "\<forall>vc v. (vc, v) \<in> set xs \<longleftrightarrow> vc = cell_version c (vc_timestamp vc) \<and> view (cell_bytes vc) = Some v"
  shows "length (map (\<lambda>x. cell_bytes (fst x)) (filter (\<lambda>x. P (vc_timestamp (fst x))) xs)) \<le>
    card {t. view (cell_bytes (cell_version c t)) \<noteq> None}"
proof -
  let ?ts = "map (\<lambda>x. vc_timestamp (fst x)) xs"
  have "entry_included version_scan_default e" for e
    by (simp add: entry_included_def scan_includes_def version_scan_default_def)
  then have "newest_first (map (\<lambda>(vc, v). entry vc v) xs)" using assms(1) by simp
  then have "sorted_wrt (\<lambda>a b. sint b < sint a) ?ts"
    by (simp add: newest_first_def sorted_wrt_map case_prod_beta entry_def)
  then have "distinct ?ts" by (rule descending_distinct)
  moreover have "set ?ts \<subseteq> {t. view (cell_bytes (cell_version c t)) \<noteq> None}"
  proof
    fix t assume "t \<in> set ?ts"
    then obtain vc v where "(vc, v) \<in> set xs" "t = vc_timestamp vc" by auto
    then have "vc = cell_version c t" "view (cell_bytes vc) = Some v" using assms(2) by simp_all
    then show "t \<in> {t. view (cell_bytes (cell_version c t)) \<noteq> None}" by simp
  qed
  ultimately have "length ?ts \<le> card {t. view (cell_bytes (cell_version c t)) \<noteq> None}"
    using card_mono [OF finite] distinct_card by metis
  then show ?thesis using le_trans [OF length_filter_le] by simp
qed

text \<open>On a device that does not fail, deletion from a healthy database succeeds.\<close>

definition healthy :: "'t db \<Rightarrow> u64 \<Rightarrow> bool" where
  "healthy db h \<longleftrightarrow> \<not> db_is_poisoned db \<and> (\<exists>ks. db_handles db h = Some ks \<and> \<not> ks_is_deleted ks)"

lemma healthy_write:
  assumes "lsm_writes_ok (en_lsm E) hc" "device_ok E" "healthy db h"
  obtains db' where "keyspace_write E h w db = (Inr (), db')" "healthy db' h" "db_seqno db' = db_seqno db + 1"
proof -
  obtain ks where ks: "db_handles db h = Some ks" "\<not> ks_is_deleted ks" "\<not> db_is_poisoned db"
    using assms(3) by (auto simp: healthy_def)
  obtain db' where w: "keyspace_write E h w db = (Inr (), db')" by (rule keyspace_write_ok [OF assms(2) ks])
  obtain ks' t where "db_handles db h = Some ks'" "\<not> ks_is_deleted ks'"
    "db_handles db' = (db_handles db)(h \<mapsto> ks'\<lparr>ks_tree := t\<rparr>)" "\<not> db_is_poisoned db'"
    "db_seqno db' = db_seqno db + 1"
    by (rule keyspace_write_effect [OF assms(1) w])
  then show thesis using that [OF w] by (simp add: healthy_def)
qed

lemma remove_keys_ok:
  assumes "lsm_writes_ok (en_lsm E) hc" "device_ok E"
  shows "healthy db h \<Longrightarrow> \<exists>db'. remove_keys E h keys db = (Inr (), db')"
proof (induction keys arbitrary: db)
  case (Cons key keys)
  obtain db1 where "keyspace_write E h (Remove key) db = (Inr (), db1)" "healthy db1 h"
    by (rule healthy_write [OF assms Cons.prems])
  then show ?case using Cons.IH [of db1] by simp
qed simp

section \<open>Properties\<close>

text \<open>A transaction that has written two versions of a cell.\<close>

definition sample_cell :: cell where
  "sample_cell = \<lparr>c_row = [97], c_family = [98], c_qualifier = [], c_visibility = [120]\<rparr>"

definition sample_versions :: "tx_write list" where
  "sample_versions = [(1, Insert (cell_bytes (cell_version sample_cell 3)) [7]),
     (1, Insert (cell_bytes (cell_version sample_cell 5)) [8])]"

definition sample_tx :: "internal_value list base_tx" where
  "sample_tx = fold (base_write sample_engine sample_db) sample_versions (base_new 5)"

definition sample_view :: "bytes \<Rightarrow> bytes option" where
  "sample_view = [cell_bytes (cell_version sample_cell 3) \<mapsto> [7], cell_bytes (cell_version sample_cell 5) \<mapsto> [8]]"

lemma sample_db_empty: "read_at ref_content i sample_db h = Map.empty"
  by (auto simp: read_at_def sample_db_def sample_keyspace_def ref_content_def [abs_def] seen_def newest_def fun_eq_iff)

lemma sample_reader:
  "reads_view (\<lambda>k. base_get sample_engine sample_tx 1 k sample_db)
     (\<lambda>r. base_range sample_engine sample_tx 1 r sample_db) sample_view"
proof -
  have live: "\<forall>(h, w)\<in>set sample_versions. db_handles sample_db h \<noteq> None" "length sample_versions < 2 ^ 63"
    "db_handles sample_db 1 \<noteq> None"
    by (simp_all add: sample_versions_def sample_db_def)
  have "memtable_ok (en_lsm sample_engine)" using sample_db_ok(1) by (simp add: lsm_ok_def)
  from tx_inv_writes [OF this sample_names live(1,2)]
  have inv: "tx_inv sample_engine sample_db sample_versions sample_tx" by (simp add: sample_tx_def)
  have "fold view_write sample_versions (read_at ref_content (tx_instant sample_tx) sample_db) 1 = sample_view"
    by (simp add: sample_versions_def view_write_def sample_view_def sample_db_empty)
  with reads_view_tx [OF sample_db_ok(1) sample_names live(3) inv] show ?thesis by simp
qed

lemma sample_versions_differ:
  "cell_bytes (cell_version sample_cell 3) \<noteq> cell_bytes (cell_version sample_cell 5)"
  by (simp add: cell_bytes_inject cell_version_def)

lemma sample_view_at:
  "sample_view (cell_bytes (cell_version sample_cell t)) = (if t = 5 then Some [8] else if t = 3 then Some [7] else None)"
  by (simp add: sample_view_def cell_bytes_inject cell_version_def)

lemma sample_cells_only: "cells_only sample_view"
  by (auto simp: cells_only_def sample_view_def split: if_splits)

lemma sample_range: "\<exists>r. composite_prefix_range sample_prefix_to_range (cell_composite_prefix sample_cell) = Inr r"
  by (simp add: composite_prefix_range_def prefix_fields_def encode_prefix_fields_def composite_consts
      validate_encoded_len_def cell_composite_prefix_def sample_cell_def encode_byte_def)



text \<open>The latest version of a cell is the stored one with the greatest timestamp, and it is
  absent only if the cell has no version.\<close>

lemma latest_version_is_newest:
  assumes "prefix_range_law pr" "reads_view get rng view" "cells_only view"
    and "composite_prefix_range pr (cell_composite_prefix c) = Inr r"
  shows "case read_latest_version pr rng c of
      Inl _ \<Rightarrow> False
    | Inr None \<Rightarrow> \<forall>t. view (cell_bytes (cell_version c t)) = None
    | Inr (Some e) \<Rightarrow> \<exists>t v. e = entry (cell_version c t) v \<and> view (cell_bytes (cell_version c t)) = Some v \<and>
        (\<forall>t'. view (cell_bytes (cell_version c t')) \<noteq> None \<longrightarrow> sint t' \<le> sint t)"
proof -
  let ?sc = "version_scan_default\<lparr>max_versions := Some 1\<rparr>"
  have "scans (in_range r) view (rng r)" using assms(2) unfolding reads_view_def by blast
  then obtain xs where xs: "rng r = map (\<lambda>(vc, v). Inr (cell_bytes vc, v)) xs"
    "newest_first (filter (entry_included ?sc) (map (\<lambda>(vc, v). entry vc v) xs))"
    "set (filter (entry_included ?sc) (map (\<lambda>(vc, v). entry vc v) xs)) = cell_entries view c ?sc"
    by (rule group_scan [OF assms(1) _ assms(3,4)])
  define es where "es = filter (entry_included ?sc) (map (\<lambda>(vc, v). entry vc v) xs)"
  have inc: "scan_includes ?sc t" for t by (simp add: scan_includes_def version_scan_default_def)
  have es: "newest_first es" "set es = {entry (cell_version c t) v | t v. view (cell_bytes (cell_version c t)) = Some v}"
    using xs(2,3) inc by (simp_all add: es_def cell_entries_def)
  have run: "read_latest_version pr rng c = Inr (case es of [] \<Rightarrow> None | e # _ \<Rightarrow> Some e)"
    using scan_guards_eq [of ?sc "[]" xs] unfolding es_def [symmetric]
    by (cases es) (simp_all add: read_latest_version_def read_scan_versions_def read_scan_versioned_prefix_def assms(4) xs(1)
        scan_is_satisfied_by_def scan_limit_def es_def)
  show ?thesis
  proof (cases es)
    case Nil
    then show ?thesis using es(2) by (auto simp: run)
  next
    case (Cons e es')
    then have "e \<in> set es" by simp
    then obtain t v where e: "e = entry (cell_version c t) v" "view (cell_bytes (cell_version c t)) = Some v"
      unfolding es(2) by blast
    have "sint t' \<le> sint t" if t': "view (cell_bytes (cell_version c t')) \<noteq> None" for t'
    proof -
      obtain v' where "entry (cell_version c t') v' \<in> set es" using t' es(2) by auto
      then show ?thesis
        using es(1) Cons e(1) by (auto simp: newest_first_def entry_def cell_version_def)
    qed
    then show ?thesis using e by (auto simp: run Cons)
  qed
qed

lemma delete_run:
  assumes L: "lsm_reads_ok (en_lsm E) hc" and "db_inv hc db" "prefix_range_law pr" "cells_only (read_at hc SEQNO_MAX db h)"
    and r: "composite_prefix_range pr (cell_composite_prefix c) = Inr r"
  obtains keys db1 where "delete_versions_matching E pr h c P db = remove_keys E h keys db1"
    "db_handles db1 = db_handles db" "db_seqno db1 = db_seqno db" "db_is_poisoned db1 = db_is_poisoned db" "db_inv hc db1"
    "length keys \<le> card {t. read_at hc SEQNO_MAX db h (cell_bytes (cell_version c t)) \<noteq> None}"
    "\<forall>k. k \<in> set keys \<longleftrightarrow> (\<exists>t. k = cell_bytes (cell_version c t) \<and> P t \<and> read_at hc SEQNO_MAX db h k \<noteq> None)"
proof -
  let ?view = "read_at hc SEQNO_MAX db h"
  define gs where "gs = tree_scan h (t_range (en_lsm E) r SEQNO_MAX None) db"
  obtain tr i where tr: "tracker_open (db_tracker db) = (tr, i)" by fastforce
  define db1 where "db1 = iter_drop i (db\<lparr>db_tracker := tr\<rparr>)"
  have over: "over_range E h r f db = (f gs, db1)" for f :: "guard list \<Rightarrow> bytes list result"
    by (simp add: over_range_def keyspace_range_def with_nonce_def tr gs_def db1_def tree_scan_def)
  have db1: "db_handles db1 = db_handles db" "db_seqno db1 = db_seqno db" "db_is_poisoned db1 = db_is_poisoned db" "db_inv hc db1"
    using assms(2) tr by (auto simp: db1_def iter_drop_def db_inv_def tracker_open_def Let_def)
  have "scans (in_range r) ?view gs" unfolding gs_def by (rule scans_tree_range [OF L])
  then obtain xs where xs: "gs = map (\<lambda>(vc, v). Inr (cell_bytes vc, v)) xs"
    "newest_first (filter (entry_included version_scan_default) (map (\<lambda>(vc, v). entry vc v) xs))"
    "\<forall>vc v. (vc, v) \<in> set xs \<longleftrightarrow> vc = cell_version c (vc_timestamp vc) \<and> ?view (cell_bytes vc) = Some v"
    by (rule group_scan [OF assms(3) _ assms(4) r])
  define keys where "keys = map (\<lambda>x. cell_bytes (fst x)) (filter (\<lambda>x. P (vc_timestamp (fst x))) xs)"
  have "delete_versions_matching E pr h c P db = remove_keys E h keys db1"
    by (simp add: delete_versions_matching_def r over xs(1) matching_keys_eq keys_def)
  moreover have "length keys \<le> card {t. ?view (cell_bytes (cell_version c t)) \<noteq> None}"
    unfolding keys_def by (rule group_keys_bound [OF xs(2,3)])
  moreover have "\<forall>k. k \<in> set keys \<longleftrightarrow> (\<exists>t. k = cell_bytes (cell_version c t) \<and> P t \<and> ?view k \<noteq> None)"
    unfolding keys_def using group_keys [OF xs(3)] by blast
  ultimately show thesis using that db1 by blast
qed

text \<open>C28: deleting versions of a cell removes exactly the stored versions whose timestamp satisfies
  the condition (all of them for \<open>delete_versions\<close>, those older than a cutoff for
  \<open>delete_versions_older_than\<close>); every other cell, version and keyspace reads as before.\<close>

theorem delete_versions_exact:
  assumes "lsm_ok (en_lsm E) hc" "db_inv hc db" "prefix_range_law pr" "cells_only (read_at hc SEQNO_MAX db h)"
    and "unat (db_seqno db) + card {t. read_at hc SEQNO_MAX db h (cell_bytes (cell_version c t)) \<noteq> None} < 2 ^ 64 - 1"
    and "delete_versions_matching E pr h c P db = (Inr (), db')"
  shows "read_at hc SEQNO_MAX db' h' k =
    (if h' = h \<and> (\<exists>t. k = cell_bytes (cell_version c t) \<and> P t) then None else read_at hc SEQNO_MAX db h' k)"
proof -
  have L: "lsm_writes_ok (en_lsm E) hc" "lsm_reads_ok (en_lsm E) hc" using assms(1) by (simp_all add: lsm_ok_def)
  obtain r where r: "composite_prefix_range pr (cell_composite_prefix c) = Inr r"
    using assms(6) by (auto simp: delete_versions_matching_def split: sum.splits)
  obtain keys db1 where d: "delete_versions_matching E pr h c P db = remove_keys E h keys db1"
    "db_handles db1 = db_handles db" "db_seqno db1 = db_seqno db" "db_is_poisoned db1 = db_is_poisoned db" "db_inv hc db1"
    "length keys \<le> card {t. read_at hc SEQNO_MAX db h (cell_bytes (cell_version c t)) \<noteq> None}"
    "\<forall>k. k \<in> set keys \<longleftrightarrow> (\<exists>t. k = cell_bytes (cell_version c t) \<and> P t \<and> read_at hc SEQNO_MAX db h k \<noteq> None)"
    by (rule delete_run [OF L(2) assms(2-4) r])
  have "unat (db_seqno db1) + length keys < 2 ^ 64 - 1" using assms(5) d(3,6) by simp
  note rd = remove_keys_reads [OF L(1) d(5) this assms(6) [unfolded d(1)]]
  show ?thesis
    using d(7) read_at_cong [OF d(2), of hc SEQNO_MAX] by (auto simp: rd erased_def)
qed

text \<open>A database with two versions of a cell, reached by two writes.\<close>

lemma sample_cell_db:
  obtains db where "db_inv ref_content db" "healthy db 1" "unat (db_seqno db) \<le> 7"
    "read_at ref_content SEQNO_MAX db 1 = sample_view"
proof -
  have L: "lsm_writes_ok (en_lsm sample_engine) ref_content" using sample_db_ok(1) by (simp add: lsm_ok_def)
  have s: "db_seqno sample_db = 5" "healthy sample_db 1"
    by (simp_all add: sample_db_def healthy_def sample_keyspace_def)
  obtain db1 where w1: "keyspace_write sample_engine 1 (Insert (cell_bytes (cell_version sample_cell 3)) [7]) sample_db = (Inr (), db1)"
    and h1: "healthy db1 1" "db_seqno db1 = db_seqno sample_db + 1"
    by (rule healthy_write [OF L sample_device(1) s(2)])
  obtain db2 where w2: "keyspace_write sample_engine 1 (Insert (cell_bytes (cell_version sample_cell 5)) [8]) db1 = (Inr (), db2)"
    and h2: "healthy db2 1" "db_seqno db2 = db_seqno db1 + 1"
    by (rule healthy_write [OF L sample_device(1) h1(1)])
  have q: "db_seqno sample_db \<noteq> - 1" "db_seqno db1 \<noteq> - 1" "db_seqno sample_db < SEQNO_MAX" "db_seqno db1 < SEQNO_MAX"
    "unat (db_seqno db2) \<le> 7"
    by (simp_all add: h2(2) h1(2) s(1) SEQNO_MAX_def)
  have inv1: "db_inv ref_content db1" by (rule read_at_write(3) [OF L sample_db_ok(2) w1 q(1)])
  have inv2: "db_inv ref_content db2" by (rule read_at_write(3) [OF L inv1 w2 q(2)])
  have "read_at ref_content SEQNO_MAX db2 1 = sample_view"
    using read_at_write(2) [OF L sample_db_ok(2) w1 q(3)] read_at_write(2) [OF L inv1 w2 q(4)]
    by (simp add: sample_db_empty sample_view_def)
  then show thesis by (rule that [OF inv2 h2(1) q(5)])
qed

theorem delete_versions_exact_witness:
  "\<exists>db db'. read_at ref_content SEQNO_MAX db 1 (cell_bytes (cell_version sample_cell 3)) = Some [7] \<and>
     keyspace_delete_versions_older_than sample_engine sample_prefix_to_range 1 sample_cell 5 db = (Inr (), db') \<and>
     read_at ref_content SEQNO_MAX db' 1 (cell_bytes (cell_version sample_cell 3)) = None \<and>
     read_at ref_content SEQNO_MAX db' 1 (cell_bytes (cell_version sample_cell 5)) = Some [8]"
proof -
  have L: "lsm_writes_ok (en_lsm sample_engine) ref_content" "lsm_reads_ok (en_lsm sample_engine) ref_content"
    using sample_db_ok(1) by (simp_all add: lsm_ok_def)
  obtain db where db: "db_inv ref_content db" "healthy db 1" "unat (db_seqno db) \<le> 7"
    "read_at ref_content SEQNO_MAX db 1 = sample_view" by (rule sample_cell_db)
  obtain r where r: "composite_prefix_range sample_prefix_to_range (cell_composite_prefix sample_cell) = Inr r"
    using sample_range by blast
  have only: "cells_only (read_at ref_content SEQNO_MAX db 1)" using db(4) sample_cells_only by simp
  let ?P = "\<lambda>v. sint v < sint (5 :: i64)"
  obtain keys db1 where d: "delete_versions_matching sample_engine sample_prefix_to_range 1 sample_cell ?P db
      = remove_keys sample_engine 1 keys db1"
    "db_handles db1 = db_handles db" "db_seqno db1 = db_seqno db" "db_is_poisoned db1 = db_is_poisoned db"
    by (rule delete_run [OF L(2) db(1) sample_prefix_range_law only r])
  have "healthy db1 1" using db(2) d(2,4) by (simp add: healthy_def)
  then obtain db' where run: "delete_versions_matching sample_engine sample_prefix_to_range 1 sample_cell ?P db = (Inr (), db')"
    using remove_keys_ok [OF L(1) sample_device(1)] unfolding d(1) by blast
  have "{t. read_at ref_content SEQNO_MAX db 1 (cell_bytes (cell_version sample_cell t)) \<noteq> None} \<subseteq> {3, 5}"
    by (auto simp: db(4) sample_view_at split: if_splits)
  then have "card {t. read_at ref_content SEQNO_MAX db 1 (cell_bytes (cell_version sample_cell t)) \<noteq> None} \<le> card {3, 5 :: i64}"
    by (intro card_mono) simp_all
  then have "unat (db_seqno db) + card {t. read_at ref_content SEQNO_MAX db 1 (cell_bytes (cell_version sample_cell t)) \<noteq> None} < 2 ^ 64 - 1"
    using db(3) by simp
  note reads = delete_versions_exact [OF sample_db_ok(1) db(1) sample_prefix_range_law only this run]
  have "read_at ref_content SEQNO_MAX db' 1 (cell_bytes (cell_version sample_cell 3)) = None"
    "read_at ref_content SEQNO_MAX db' 1 (cell_bytes (cell_version sample_cell 5)) = Some [8]"
    by (auto simp: reads db(4) sample_view_at cell_bytes_version)
  with run show ?thesis
    by (intro exI [of _ db] exI [of _ db']) (simp add: keyspace_delete_versions_older_than_def db(4) sample_view_at)
qed

end
