(* ===== verification/ValueCrypto.thy ===== *)
theory ValueCrypto
  imports Prelude
begin

text \<open>
  \<open>src/secure/crypto.rs\<close>: encryption of stored values.  The cipher is supplied by the user; it is
  the record \<open>crypto_provider\<close>, and the law that decryption undoes encryption under the same
  context is a hypothesis where it is needed.  What this theory shows is the framing around it.
\<close>

section \<open>Operations\<close>

definition VALUE_ENCRYPTION_MAGIC :: bytes where
  "VALUE_ENCRYPTION_MAGIC = map of_char ''fjall:secure:v1:''"

datatype encryption_scope = ScopeValue | ScopeBlock | ScopeKeyspace

record crypto_context =
  cx_keyspace :: rstr
  cx_key :: bytes
  cx_scope :: encryption_scope

record crypto_provider =
  cp_encrypt :: "crypto_context \<Rightarrow> bytes \<Rightarrow> bytes result"
  cp_decrypt :: "crypto_context \<Rightarrow> bytes \<Rightarrow> bytes result"

record encryption_config =
  ec_provider :: crypto_provider
  ec_scope :: encryption_scope

definition encryption_config_new :: "crypto_provider \<Rightarrow> encryption_scope \<Rightarrow> encryption_config" where
  "encryption_config_new provider scope = \<lparr>ec_provider = provider, ec_scope = scope\<rparr>"

record value_encryption =
  en_logical_keyspace :: rstr
  en_config :: encryption_config

definition value_encryption_new :: "rstr \<Rightarrow> encryption_config \<Rightarrow> value_encryption" where
  "value_encryption_new keyspace config = \<lparr>en_logical_keyspace = keyspace, en_config = config\<rparr>"

definition encryption_context :: "value_encryption \<Rightarrow> bytes \<Rightarrow> crypto_context" where
  "encryption_context enc key =
     \<lparr>cx_keyspace = en_logical_keyspace enc, cx_key = key, cx_scope = ec_scope (en_config enc)\<rparr>"

definition encrypt_value :: "value_encryption \<Rightarrow> bytes \<Rightarrow> bytes \<Rightarrow> bytes result" where
  "encrypt_value enc key value =
     bind_r (cp_encrypt (ec_provider (en_config enc)) (encryption_context enc key) value) (\<lambda>ciphertext.
       if length ciphertext < 2 ^ 32
       then Inr (VALUE_ENCRYPTION_MAGIC @ u32_to_be (of_nat (length ciphertext)) @ ciphertext)
       else Inl (Crypto ''ciphertext exceeds u32 length''))"

definition strip_prefix :: "bytes \<Rightarrow> bytes \<Rightarrow> bytes option" where
  "strip_prefix p s = (if take (length p) s = p then Some (drop (length p) s) else None)"

definition split_first_chunk4 :: "bytes \<Rightarrow> (bytes \<times> bytes) option" where
  "split_first_chunk4 s = (if length s < 4 then None else Some (take 4 s, drop 4 s))"

definition parse_stored_ciphertext :: "bytes \<Rightarrow> bytes result" where
  "parse_stored_ciphertext stored =
     bind_r (ok_or (Crypto ''encrypted value marker missing'') (strip_prefix VALUE_ENCRYPTION_MAGIC stored)) (\<lambda>rest.
     bind_r (ok_or (Crypto ''encrypted value length missing'') (split_first_chunk4 rest)) (\<lambda>(len, ciphertext).
       if length ciphertext \<noteq> unat (u32_from_be len)
       then Inl (Crypto ''encrypted value length mismatch'') else Inr ciphertext))"

definition decrypt_value :: "value_encryption \<Rightarrow> bytes \<Rightarrow> bytes \<Rightarrow> bytes result" where
  "decrypt_value enc key stored =
     bind_r (parse_stored_ciphertext stored) (\<lambda>ciphertext.
       cp_decrypt (ec_provider (en_config enc)) (encryption_context enc key) ciphertext)"

definition maybe_encrypt_value :: "value_encryption option \<Rightarrow> bytes \<Rightarrow> bytes \<Rightarrow> bytes result" where
  "maybe_encrypt_value encryption key value =
     (case encryption of Some enc \<Rightarrow> encrypt_value enc key value | None \<Rightarrow> Inr value)"

definition maybe_decrypt_entry :: "value_encryption option \<Rightarrow> bytes \<Rightarrow> bytes \<Rightarrow> bytes result" where
  "maybe_decrypt_entry encryption key value =
     (case encryption of Some enc \<Rightarrow> decrypt_value enc key value | None \<Rightarrow> Inr value)"

section \<open>Framing\<close>

definition frame :: "bytes \<Rightarrow> bytes result" where
  "frame ciphertext =
     (if length ciphertext < 2 ^ 32
      then Inr (VALUE_ENCRYPTION_MAGIC @ u32_to_be (of_nat (length ciphertext)) @ ciphertext)
      else Inl (Crypto ''ciphertext exceeds u32 length''))"

lemma encrypt_value_eq:
  "encrypt_value enc key value =
     bind_r (cp_encrypt (ec_provider (en_config enc)) (encryption_context enc key) value) frame"
  by (simp add: encrypt_value_def frame_def [abs_def])

lemma strip_prefix_eq_Some: "strip_prefix p s = Some r \<longleftrightarrow> s = p @ r"
  by (auto simp: strip_prefix_def) (metis append_take_drop_id)

lemma u32_from_be_inverse: "length bs = 4 \<Longrightarrow> u32_to_be (u32_from_be bs) = bs"
  using be_to_nat_less [of bs] by (simp add: word_codec_defs unat_of_nat)

interpretation stored: canonical_codec frame parse_stored_ciphertext "\<lambda>_. True"
proof unfold_locales
  show "parse_stored_ciphertext b = Inr x" if "frame x = Inr b" for x b
    using that
    by (auto simp: frame_def parse_stored_ciphertext_def strip_prefix_def split_first_chunk4_def ok_or_def
        unat_of_nat split: if_splits)
  show "frame x = Inr b" if dec: "parse_stored_ciphertext b = Inr x" for b x
  proof -
    obtain rest where r: "b = VALUE_ENCRYPTION_MAGIC @ rest" "4 \<le> length rest" "x = drop 4 rest"
        "length x = unat (u32_from_be (take 4 rest))"
      using dec by (auto simp: parse_stored_ciphertext_def result_elims strip_prefix_eq_Some split_first_chunk4_def
          split: if_splits)
    then have "u32_to_be (of_nat (length x)) = take 4 rest" by (simp add: u32_from_be_inverse)
    moreover have "length x < 2 ^ 32"
      using unsigned_less [of "u32_from_be (take 4 rest)", where 'a = nat] r(4) by simp
    ultimately show ?thesis using r(1,3) by (simp add: frame_def)
  qed
qed

section \<open>Properties\<close>

text \<open>The law of a cipher: what was encrypted under a context decrypts to itself under it.\<close>

definition cipher_ok :: "crypto_provider \<Rightarrow> bool" where
  "cipher_ok p \<longleftrightarrow> (\<forall>cx plain c. cp_encrypt p cx plain = Inr c \<longrightarrow> cp_decrypt p cx c = Inr plain)"

definition xor_provider :: "byte \<Rightarrow> crypto_provider" where
  "xor_provider key = \<lparr>cp_encrypt = (\<lambda>_ plain. Inr (map (\<lambda>b. b XOR key) plain)),
     cp_decrypt = (\<lambda>_ c. Inr (map (\<lambda>b. b XOR key) c))\<rparr>"

lemma xor_cipher_ok: "cipher_ok (xor_provider key)"
  by (auto simp: cipher_ok_def xor_provider_def comp_def xor.assoc)

text \<open>C38: the stored form of a ciphertext is canonical.  A stored value is accepted exactly if it
  is the marker, the length of the ciphertext as a big-endian 32-bit number and then the
  ciphertext: a missing marker, a cut or padded value and a wrong length are all refused.\<close>

theorem stored_ciphertext_exact:
  "parse_stored_ciphertext s = Inr c \<longleftrightarrow>
     length c < 2 ^ 32 \<and> s = VALUE_ENCRYPTION_MAGIC @ u32_to_be (of_nat (length c)) @ c"
  using stored.dec_iff [OF TrueI, of s c] by (auto simp: frame_def split: if_splits)

lemma maybe_decrypt_encrypt:
  assumes "\<forall>enc. encryption = Some enc \<longrightarrow> cipher_ok (ec_provider (en_config enc))"
    and "maybe_encrypt_value encryption key value = Inr stored"
  shows "maybe_decrypt_entry encryption key stored = Inr value"
proof (cases encryption)
  case None
  then show ?thesis using assms(2) by (simp add: maybe_encrypt_value_def maybe_decrypt_entry_def)
next
  case (Some enc)
  then obtain c where "cp_encrypt (ec_provider (en_config enc)) (encryption_context enc key) value = Inr c" "frame c = Inr stored"
    using assms(2) by (auto simp: maybe_encrypt_value_def encrypt_value_eq result_elims)
  then show ?thesis
    using Some assms(1) stored.dec_enc by (simp add: maybe_decrypt_entry_def decrypt_value_def cipher_ok_def)
qed

text \<open>C39: what was stored for a value decrypts to that value under the same key, with and without
  encryption, for every cipher that undoes its own encryption.\<close>

theorem value_encryption_roundtrip:
  assumes "\<forall>enc. encryption = Some enc \<longrightarrow> cipher_ok (ec_provider (en_config enc))"
    and "maybe_encrypt_value encryption key value = Inr stored"
  shows "maybe_decrypt_entry encryption key stored = Inr value"
  using assms by (rule maybe_decrypt_encrypt)

theorem value_encryption_roundtrip_witness:
  "\<exists>stored. maybe_encrypt_value (Some (value_encryption_new [101] (encryption_config_new (xor_provider 90) ScopeValue))) [1] [112, 113]
       = Inr stored \<and> stored \<noteq> [112, 113] \<and>
     maybe_decrypt_entry (Some (value_encryption_new [101] (encryption_config_new (xor_provider 90) ScopeValue))) [1] stored
       = Inr [112, 113]"
proof -
  let ?enc = "Some (value_encryption_new [101] (encryption_config_new (xor_provider 90) ScopeValue))"
  have law: "\<forall>enc. ?enc = Some enc \<longrightarrow> cipher_ok (ec_provider (en_config enc))"
    by (simp add: value_encryption_new_def encryption_config_new_def xor_cipher_ok)
  obtain stored where e: "maybe_encrypt_value ?enc [1] [112, 113] = Inr stored" "length stored = 22"
    by (simp add: maybe_encrypt_value_def encrypt_value_def value_encryption_new_def encryption_config_new_def
        xor_provider_def VALUE_ENCRYPTION_MAGIC_def)
  from value_encryption_roundtrip [OF law e(1)] e show ?thesis by auto
qed

end
