(* ===== verification/Visibility.thy ===== *)
theory Visibility
  imports Prelude
begin

text \<open>
  \<open>src/secure/visibility.rs\<close>: visibility expressions, authorization label sets, the
  recursive-descent parser, the normaliser and the canonical printer.

  The parser threads the remaining input; its recursion is not structural, so it carries fuel
  and returns \<open>None\<close> when the fuel runs out.  \<open>parse_or_expr_fuel\<close> shows that
  \<open>3 * length s + 3\<close> is always enough, so the entry point never sees that case.
  The grammar the parser accepts is stated separately as inductive predicates, and the
  parser is proved sound and complete for it.
\<close>

section \<open>Expressions and labels\<close>

datatype expr = Public | Label rstr | And "expr list" | Or "expr list"

datatype operator = OpAnd | OpOr

record visibility_expr =
  vis_expr :: expr
  vis_canonical :: rstr

definition is_label_char :: "nat \<Rightarrow> bool" where
  "is_label_char ch =
     ((48 \<le> ch \<and> ch \<le> 57) \<or> (65 \<le> ch \<and> ch \<le> 90) \<or> (97 \<le> ch \<and> ch \<le> 122)
      \<or> ch = of_char CHR ''_'' \<or> ch = of_char CHR ''-'' \<or> ch = of_char CHR ''.''
      \<or> ch = of_char CHR '':'')"

definition is_valid_label :: "rstr \<Rightarrow> bool" where
  "is_valid_label label = (label \<noteq> [] \<and> list_all is_label_char label)"

abbreviation ch_and :: nat where "ch_and \<equiv> 38"
abbreviation ch_or :: nat where "ch_or \<equiv> 124"
abbreviation ch_open :: nat where "ch_open \<equiv> 40"
abbreviation ch_close :: nat where "ch_close \<equiv> 41"

subsection \<open>Authorizations\<close>

type_synonym authorizations = "rstr set"

definition auths_empty :: authorizations where
  "auths_empty = {}"

definition auths_insert :: "authorizations \<Rightarrow> rstr \<Rightarrow> (authorizations \<times> bool) result" where
  "auths_insert auths label =
     (if \<not> is_valid_label label
      then Inl (InvalidVisibilityExpression ''authorization label must be a valid identifier'')
      else Inr (insert label auths, label \<notin> auths))"

fun auths_from_labels_acc :: "authorizations \<Rightarrow> rstr list \<Rightarrow> authorizations result" where
  "auths_from_labels_acc auths [] = Inr auths"
| "auths_from_labels_acc auths (label # labels) =
     bind_r (auths_insert auths label) (\<lambda>(auths', _). auths_from_labels_acc auths' labels)"

definition auths_from_labels :: "rstr list \<Rightarrow> authorizations result" where
  "auths_from_labels labels = auths_from_labels_acc auths_empty labels"

definition auths_contains :: "authorizations \<Rightarrow> rstr \<Rightarrow> bool" where
  "auths_contains auths label = (label \<in> auths)"

section \<open>Evaluation and printing\<close>

fun evaluate :: "expr \<Rightarrow> authorizations \<Rightarrow> bool" where
  "evaluate Public auths = True"
| "evaluate (Label label) auths = auths_contains auths label"
| "evaluate (And children) auths = (\<forall>c\<in>set children. evaluate c auths)"
| "evaluate (Or children) auths = (\<exists>c\<in>set children. evaluate c auths)"

fun precedence :: "expr \<Rightarrow> nat" where
  "precedence Public = 3"
| "precedence (Label _) = 3"
| "precedence (And _) = 2"
| "precedence (Or _) = 1"

definition wrap_parens :: "bool \<Rightarrow> rstr \<Rightarrow> rstr" where
  "wrap_parens wrap s = (if wrap then [ch_open] @ s @ [ch_close] else s)"

fun write_canonical :: "nat \<Rightarrow> expr \<Rightarrow> rstr"
  and write_joined :: "bool \<Rightarrow> expr list \<Rightarrow> nat \<Rightarrow> nat \<Rightarrow> rstr" where
  "write_canonical parent Public = wrap_parens (precedence Public < parent) []"
| "write_canonical parent (Label label) = wrap_parens (precedence (Label label) < parent) label"
| "write_canonical parent (And children) =
     wrap_parens (precedence (And children) < parent)
       (write_joined True children ch_and (precedence (And children)))"
| "write_canonical parent (Or children) =
     wrap_parens (precedence (Or children) < parent)
       (write_joined True children ch_or (precedence (Or children)))"
| "write_joined first [] sep prec = []"
| "write_joined first (c # cs) sep prec =
     (if first then [] else [sep]) @ write_canonical prec c @ write_joined False cs sep prec"

definition canonical :: "expr \<Rightarrow> rstr" where
  "canonical e = write_canonical 0 e"

section \<open>Normalisation\<close>

text \<open>\<open>Vec::dedup_by\<close>: of every run of equal strings the first element stays.\<close>

fun dedup_pairs :: "(rstr \<times> expr) list \<Rightarrow> (rstr \<times> expr) list" where
  "dedup_pairs [] = []"
| "dedup_pairs [p] = [p]"
| "dedup_pairs (p # q # ps) =
     (if fst p = fst q then dedup_pairs (p # ps) else p # dedup_pairs (q # ps))"

text \<open>\<open>slice::sort_by\<close> is stable and compares strings by their UTF-8 bytes.\<close>

definition sort_pairs :: "(rstr \<times> expr) list \<Rightarrow> (rstr \<times> expr) list" where
  "sort_pairs ps = sort_key (\<lambda>p. utf8_encode (fst p)) ps"

text \<open>The part of \<open>normalize_children\<close> after its loop; \<open>None\<close> is the early return of
  \<open>Public\<close> from inside the loop.\<close>

definition build_children :: "operator \<Rightarrow> (rstr \<times> expr) list option \<Rightarrow> expr" where
  "build_children op pairs =
     (case pairs of
        None \<Rightarrow> Public
      | Some ps \<Rightarrow>
          (case map snd (dedup_pairs (sort_pairs ps)) of
             [] \<Rightarrow> Public
           | [first] \<Rightarrow> first
           | first # second # rest \<Rightarrow>
               (case op of OpAnd \<Rightarrow> And (first # second # rest)
                         | OpOr \<Rightarrow> Or (first # second # rest))))"

fun child_pairs :: "operator \<Rightarrow> expr \<Rightarrow> (rstr \<times> expr) list option" where
  "child_pairs OpAnd (And gs) = Some (map (\<lambda>g. (canonical g, g)) gs)"
| "child_pairs OpOr (Or gs) = Some (map (\<lambda>g. (canonical g, g)) gs)"
| "child_pairs OpAnd Public = Some []"
| "child_pairs OpOr Public = None"
| "child_pairs op e = Some [(canonical e, e)]"

fun normalized :: "expr \<Rightarrow> expr"
  and normalize_pairs :: "operator \<Rightarrow> expr list \<Rightarrow> (rstr \<times> expr) list option" where
  "normalized (And children) = build_children OpAnd (normalize_pairs OpAnd children)"
| "normalized (Or children) = build_children OpOr (normalize_pairs OpOr children)"
| "normalized Public = Public"
| "normalized (Label label) = Label label"
| "normalize_pairs op [] = Some []"
| "normalize_pairs op (c # cs) =
     (case child_pairs op (normalized c) of
        None \<Rightarrow> None
      | Some ps \<Rightarrow> map_option ((@) ps) (normalize_pairs op cs))"

section \<open>The parser\<close>

definition consume :: "nat \<Rightarrow> rstr \<Rightarrow> rstr option" where
  "consume expected s = (case s of c # cs \<Rightarrow> if c = expected then Some cs else None | [] \<Rightarrow> None)"

definition parse_label :: "rstr \<Rightarrow> rstr \<times> rstr" where
  "parse_label s = (takeWhile is_label_char s, dropWhile is_label_char s)"

definition remove_only_child :: "expr list \<Rightarrow> expr" where
  "remove_only_child children = (case children of [] \<Rightarrow> Public | _ \<Rightarrow> last children)"

definition finish_or :: "expr list \<Rightarrow> expr" where
  "finish_or children = (if length children = 1 then remove_only_child children else Or children)"

definition finish_and :: "expr list \<Rightarrow> expr" where
  "finish_and children = (if length children = 1 then remove_only_child children else And children)"

type_synonym 'a parsed = "('a \<times> rstr) result option"

definition bind_p :: "'a parsed \<Rightarrow> ('a \<Rightarrow> rstr \<Rightarrow> 'b parsed) \<Rightarrow> 'b parsed" where
  "bind_p m f =
     (case m of None \<Rightarrow> None | Some (Inl e) \<Rightarrow> Some (Inl e) | Some (Inr (x, s)) \<Rightarrow> f x s)"

fun parse_or_expr :: "nat \<Rightarrow> rstr \<Rightarrow> expr parsed"
  and parse_or_loop :: "nat \<Rightarrow> expr list \<Rightarrow> rstr \<Rightarrow> expr parsed"
  and parse_and_expr :: "nat \<Rightarrow> rstr \<Rightarrow> expr parsed"
  and parse_and_loop :: "nat \<Rightarrow> expr list \<Rightarrow> rstr \<Rightarrow> expr parsed"
  and parse_primary :: "nat \<Rightarrow> rstr \<Rightarrow> expr parsed" where
  "parse_or_expr 0 s = None"
| "parse_or_expr (Suc n) s = bind_p (parse_and_expr n s) (\<lambda>c s. parse_or_loop n [c] s)"
| "parse_or_loop 0 children s = None"
| "parse_or_loop (Suc n) children s =
     (case consume ch_or s of
        Some s' \<Rightarrow> bind_p (parse_and_expr n s') (\<lambda>c s. parse_or_loop n (children @ [c]) s)
      | None \<Rightarrow> Some (Inr (finish_or children, s)))"
| "parse_and_expr 0 s = None"
| "parse_and_expr (Suc n) s = bind_p (parse_primary n s) (\<lambda>c s. parse_and_loop n [c] s)"
| "parse_and_loop 0 children s = None"
| "parse_and_loop (Suc n) children s =
     (case consume ch_and s of
        Some s' \<Rightarrow> bind_p (parse_primary n s') (\<lambda>c s. parse_and_loop n (children @ [c]) s)
      | None \<Rightarrow> Some (Inr (finish_and children, s)))"
| "parse_primary 0 s = None"
| "parse_primary (Suc n) s =
     (case consume ch_open s of
        Some s' \<Rightarrow>
          bind_p (parse_or_expr n s')
            (\<lambda>e s. case consume ch_close s of
                Some s'' \<Rightarrow> Some (Inr (e, s''))
              | None \<Rightarrow> Some (Inl (InvalidVisibilityExpression ''expected closing parenthesis'')))
      | None \<Rightarrow>
          (let (label, rest) = parse_label s in
           if label = []
           then Some (Inl (InvalidVisibilityExpression ''expected label or parenthesized expression''))
           else Some (Inr (Label label, rest))))"

definition parse_fuel :: "rstr \<Rightarrow> nat" where
  "parse_fuel s = 3 * length s + 3"

definition vis_public :: visibility_expr where
  "vis_public = \<lparr>vis_expr = Public, vis_canonical = []\<rparr>"

definition vis_parse :: "rstr \<Rightarrow> visibility_expr result" where
  "vis_parse input =
     (if input = [] then Inr vis_public
      else case parse_or_expr (parse_fuel input) input of
        None \<Rightarrow> Inl (Panic ''parser fuel'')
      | Some (Inl err) \<Rightarrow> Inl err
      | Some (Inr (e, rest)) \<Rightarrow>
          if rest \<noteq> []
          then Inl (InvalidVisibilityExpression ''unexpected trailing visibility token'')
          else Inr \<lparr>vis_expr = normalized e, vis_canonical = canonical (normalized e)\<rparr>)"

definition vis_is_public :: "visibility_expr \<Rightarrow> bool" where
  "vis_is_public v = (vis_expr v = Public)"

definition vis_evaluate :: "visibility_expr \<Rightarrow> authorizations \<Rightarrow> bool" where
  "vis_evaluate v auths = evaluate (vis_expr v) auths"

definition vis_as_bytes :: "visibility_expr \<Rightarrow> bytes" where
  "vis_as_bytes v = utf8_encode (vis_canonical v)"

section \<open>Fuel\<close>

lemma bind_p_simps [simp]:
  "bind_p None f = None"
  "bind_p (Some (Inl e)) f = Some (Inl e)"
  "bind_p (Some (Inr (x, s))) f = f x s"
  by (simp_all add: bind_p_def)

lemma bind_p_eq_SomeInr:
  "bind_p m f = Some (Inr y) \<longleftrightarrow> (\<exists>x s. m = Some (Inr (x, s)) \<and> f x s = Some (Inr y))"
  by (auto simp: bind_p_def split: option.splits sum.splits)

lemma bind_p_mono:
  assumes "bind_p m f = Some r"
    and "\<And>r. m = Some r \<Longrightarrow> m' = Some r"
    and "\<And>x s r. f x s = Some r \<Longrightarrow> f' x s = Some r"
  shows "bind_p m' f' = Some r"
  using assms by (cases m) (auto simp: bind_p_def split: sum.splits prod.splits)

lemma consume_eq_Some [simp]: "consume c s = Some s' \<longleftrightarrow> s = c # s'"
  by (auto simp: consume_def split: list.splits)

lemma consume_eq_None: "consume c s = None \<longleftrightarrow> (\<forall>s'. s \<noteq> c # s')"
  by (auto simp: consume_def split: list.splits)

lemma consume_Cons [simp]: "consume c (d # s) = (if c = d then Some s else None)"
  "consume c [] = None"
  by (auto simp: consume_def)

text \<open>More fuel never changes an answer.\<close>

lemma parser_mono:
  "parse_or_expr n s = Some r \<Longrightarrow> n \<le> m \<Longrightarrow> parse_or_expr m s = Some r"
  "parse_or_loop n cs s = Some r \<Longrightarrow> n \<le> m \<Longrightarrow> parse_or_loop m cs s = Some r"
  "parse_and_expr n s = Some r \<Longrightarrow> n \<le> m \<Longrightarrow> parse_and_expr m s = Some r"
  "parse_and_loop n cs s = Some r \<Longrightarrow> n \<le> m \<Longrightarrow> parse_and_loop m cs s = Some r"
  "parse_primary n s = Some r \<Longrightarrow> n \<le> m \<Longrightarrow> parse_primary m s = Some r"
proof (induction n s and n cs s and n s and n cs s and n s arbitrary: m r and m r and m r and m r and m r
    rule: parse_or_expr_parse_or_loop_parse_and_expr_parse_and_loop_parse_primary.induct)
  case (2 n s)
  from 2(4) obtain k where m: "m = Suc k" "n \<le> k" by (cases m) auto
  show ?case
    using 2(3) unfolding m(1) parse_or_expr.simps
    by (rule bind_p_mono) (erule 2(1) [OF _ m(2)], erule 2(2) [OF _ m(2)])
next
  case (4 n cs s)
  from 4(4) obtain k where m: "m = Suc k" "n \<le> k" by (cases m) auto
  show ?case
  proof (cases "consume ch_or s")
    case None
    with 4(3) m show ?thesis by simp
  next
    case (Some s')
    then show ?thesis
      using 4(3) unfolding m(1) parse_or_loop.simps Some option.case
      by (elim bind_p_mono) (erule 4(1) [OF Some _ m(2)], erule 4(2) [OF Some _ m(2)])
  qed
next
  case (6 n s)
  from 6(4) obtain k where m: "m = Suc k" "n \<le> k" by (cases m) auto
  show ?case
    using 6(3) unfolding m(1) parse_and_expr.simps
    by (rule bind_p_mono) (erule 6(1) [OF _ m(2)], erule 6(2) [OF _ m(2)])
next
  case (8 n cs s)
  from 8(4) obtain k where m: "m = Suc k" "n \<le> k" by (cases m) auto
  show ?case
  proof (cases "consume ch_and s")
    case None
    with 8(3) m show ?thesis by simp
  next
    case (Some s')
    then show ?thesis
      using 8(3) unfolding m(1) parse_and_loop.simps Some option.case
      by (elim bind_p_mono) (erule 8(1) [OF Some _ m(2)], erule 8(2) [OF Some _ m(2)])
  qed
next
  case (10 n s)
  from 10(3) obtain k where m: "m = Suc k" "n \<le> k" by (cases m) auto
  show ?case
  proof (cases "consume ch_open s")
    case None
    with 10(2) m show ?thesis by simp
  next
    case (Some s')
    then show ?thesis
      using 10(2) unfolding m(1) parse_primary.simps Some option.case
      by (elim bind_p_mono) (erule 10(1) [OF Some _ m(2)])
  qed
qed simp_all

lemma parse_label_length: "parse_label s = (l, r) \<Longrightarrow> length s = length l + length r"
  by (auto simp: parse_label_def simp flip: length_append)

text \<open>Every successful call leaves a strictly shorter input.\<close>

lemma parser_shorter:
  "parse_or_expr n s = Some (Inr (e, r)) \<Longrightarrow> length r < length s"
  "parse_or_loop n cs s = Some (Inr (e, r)) \<Longrightarrow> length r \<le> length s"
  "parse_and_expr n s = Some (Inr (e, r)) \<Longrightarrow> length r < length s"
  "parse_and_loop n cs s = Some (Inr (e, r)) \<Longrightarrow> length r \<le> length s"
  "parse_primary n s = Some (Inr (e, r)) \<Longrightarrow> length r < length s"
proof (induction n s and n cs s and n s and n cs s and n s arbitrary: e r and e r and e r and e r and e r
    rule: parse_or_expr_parse_or_loop_parse_and_expr_parse_and_loop_parse_primary.induct)
  case (2 n s)
  then show ?case by (fastforce simp: bind_p_eq_SomeInr)
next
  case (4 n cs s)
  then show ?case by (fastforce simp: bind_p_eq_SomeInr split: option.splits)
next
  case (6 n s)
  then show ?case by (fastforce simp: bind_p_eq_SomeInr)
next
  case (8 n cs s)
  then show ?case by (fastforce simp: bind_p_eq_SomeInr split: option.splits)
next
  case (10 n s)
  then show ?case
    by (fastforce simp: bind_p_eq_SomeInr split: option.splits prod.splits if_splits dest: parse_label_length)
qed simp_all

lemma bind_p_ne_None:
  assumes "m \<noteq> None" "\<And>x s. m = Some (Inr (x, s)) \<Longrightarrow> f x s \<noteq> None"
  shows "bind_p m f \<noteq> None"
  using assms by (auto simp: bind_p_def split: sum.splits prod.splits)

text \<open>Fuel linear in the input is enough for every nonterminal.\<close>

lemma parser_fuel:
  "n \<ge> 3 * length s + 3 \<Longrightarrow> parse_or_expr n s \<noteq> None"
  "n \<ge> 3 * length s + 1 \<Longrightarrow> parse_or_loop n cs s \<noteq> None"
  "n \<ge> 3 * length s + 2 \<Longrightarrow> parse_and_expr n s \<noteq> None"
  "n \<ge> 3 * length s + 1 \<Longrightarrow> parse_and_loop n cs s \<noteq> None"
  "n \<ge> 3 * length s + 1 \<Longrightarrow> parse_primary n s \<noteq> None"
proof (induction n s and n cs s and n s and n cs s and n s
    rule: parse_or_expr_parse_or_loop_parse_and_expr_parse_and_loop_parse_primary.induct)
  case (2 n s)
  show ?case
    unfolding parse_or_expr.simps
  proof (rule bind_p_ne_None)
    show "parse_and_expr n s \<noteq> None" using 2 by simp
  next
    fix x r assume "parse_and_expr n s = Some (Inr (x, r))"
    then show "parse_or_loop n [x] r \<noteq> None"
      using 2(2) [of r x] 2(3) parser_shorter(3) [of n s x r] by simp
  qed
next
  case (4 n cs s)
  show ?case
  proof (cases "consume ch_or s")
    case None
    then show ?thesis by simp
  next
    case (Some s')
    then have s: "s = ch_or # s'" by simp
    show ?thesis
      unfolding parse_or_loop.simps Some option.case
    proof (rule bind_p_ne_None)
      show "parse_and_expr n s' \<noteq> None" using 4(1) [OF Some] 4(3) s by simp
    next
      fix x r assume "parse_and_expr n s' = Some (Inr (x, r))"
      then show "parse_or_loop n (cs @ [x]) r \<noteq> None"
        using 4(2) [OF Some, of r x] 4(3) s parser_shorter(3) [of n s' x r] by simp
    qed
  qed
next
  case (6 n s)
  show ?case
    unfolding parse_and_expr.simps
  proof (rule bind_p_ne_None)
    show "parse_primary n s \<noteq> None" using 6 by simp
  next
    fix x r assume "parse_primary n s = Some (Inr (x, r))"
    then show "parse_and_loop n [x] r \<noteq> None"
      using 6(2) [of r x] 6(3) parser_shorter(5) [of n s x r] by simp
  qed
next
  case (8 n cs s)
  show ?case
  proof (cases "consume ch_and s")
    case None
    then show ?thesis by simp
  next
    case (Some s')
    then have s: "s = ch_and # s'" by simp
    show ?thesis
      unfolding parse_and_loop.simps Some option.case
    proof (rule bind_p_ne_None)
      show "parse_primary n s' \<noteq> None" using 8(1) [OF Some] 8(3) s by simp
    next
      fix x r assume "parse_primary n s' = Some (Inr (x, r))"
      then show "parse_and_loop n (cs @ [x]) r \<noteq> None"
        using 8(2) [OF Some, of r x] 8(3) s parser_shorter(5) [of n s' x r] by simp
    qed
  qed
next
  case (10 n s)
  show ?case
  proof (cases "consume ch_open s")
    case None
    then show ?thesis by (simp add: parse_label_def)
  next
    case (Some s')
    then have s: "s = ch_open # s'" by simp
    show ?thesis
      unfolding parse_primary.simps Some option.case
      by (rule bind_p_ne_None) (use 10(1) [OF Some] 10(2) s in \<open>auto split: option.splits\<close>)
  qed
qed simp_all

section \<open>The grammar\<close>

text \<open>The expressions of the documentation: labels, conjunctions with \<open>&\<close>, disjunctions with
  \<open>|\<close> of lower precedence, and parentheses.  Each predicate relates a whole string to its
  parse tree; the list predicates relate a separated sequence to its trees.\<close>

inductive gram_or :: "rstr \<Rightarrow> expr \<Rightarrow> bool"
  and gram_ors :: "rstr \<Rightarrow> expr list \<Rightarrow> bool"
  and gram_and :: "rstr \<Rightarrow> expr \<Rightarrow> bool"
  and gram_ands :: "rstr \<Rightarrow> expr list \<Rightarrow> bool"
  and gram_primary :: "rstr \<Rightarrow> expr \<Rightarrow> bool" where
  gram_or: "gram_ors s es \<Longrightarrow> gram_or s (finish_or es)"
| gram_ors_one: "gram_and s e \<Longrightarrow> gram_ors s [e]"
| gram_ors_more: "gram_and s e \<Longrightarrow> gram_ors t es \<Longrightarrow> gram_ors (s @ ch_or # t) (e # es)"
| gram_and: "gram_ands s es \<Longrightarrow> gram_and s (finish_and es)"
| gram_ands_one: "gram_primary s e \<Longrightarrow> gram_ands s [e]"
| gram_ands_more: "gram_primary s e \<Longrightarrow> gram_ands t es \<Longrightarrow> gram_ands (s @ ch_and # t) (e # es)"
| gram_label: "is_valid_label l \<Longrightarrow> gram_primary l (Label l)"
| gram_paren: "gram_or s e \<Longrightarrow> gram_primary (ch_open # s @ [ch_close]) e"

lemmas gram_intros = gram_or_gram_ors_gram_and_gram_ands_gram_primary.intros

lemma finish_singleton [simp]: "finish_or [e] = e" "finish_and [e] = e"
  by (simp_all add: finish_or_def finish_and_def remove_only_child_def)

lemma parse_label_valid: "parse_label s = (l, r) \<Longrightarrow> l \<noteq> [] \<Longrightarrow> is_valid_label l \<and> s = l @ r"
  by (auto simp: parse_label_def is_valid_label_def list_all_iff dest: set_takeWhileD)

text \<open>What the parser accepts is in the grammar, with the tree it returns.\<close>

lemma parser_sound:
  "parse_or_expr n s = Some (Inr (e, r)) \<Longrightarrow> \<exists>u. s = u @ r \<and> gram_or u e"
  "parse_or_loop n cs s = Some (Inr (e, r)) \<Longrightarrow>
     (s = r \<and> e = finish_or cs) \<or>
     (\<exists>u es. s = ch_or # u @ r \<and> gram_ors u es \<and> e = finish_or (cs @ es))"
  "parse_and_expr n s = Some (Inr (e, r)) \<Longrightarrow> \<exists>u. s = u @ r \<and> gram_and u e"
  "parse_and_loop n cs s = Some (Inr (e, r)) \<Longrightarrow>
     (s = r \<and> e = finish_and cs) \<or>
     (\<exists>u es. s = ch_and # u @ r \<and> gram_ands u es \<and> e = finish_and (cs @ es))"
  "parse_primary n s = Some (Inr (e, r)) \<Longrightarrow> \<exists>u. s = u @ r \<and> gram_primary u e"
proof (induction n s and n cs s and n s and n cs s and n s arbitrary: e r and e r and e r and e r and e r
    rule: parse_or_expr_parse_or_loop_parse_and_expr_parse_and_loop_parse_primary.induct)
  case (2 n s)
  then obtain c t where c: "parse_and_expr n s = Some (Inr (c, t))"
    and l: "parse_or_loop n [c] t = Some (Inr (e, r))"
    by (auto simp: bind_p_eq_SomeInr)
  from 2(1) [OF c] obtain u where u: "s = u @ t" "gram_and u c" by blast
  from 2(2) [OF l] show ?case
  proof (elim disjE exE conjE)
    assume "t = r" "e = finish_or [c]"
    with u show ?thesis
      using gram_or [OF gram_ors_one [OF u(2)]] by auto
  next
    fix v es assume "t = ch_or # v @ r" "gram_ors v es" "e = finish_or ([c] @ es)"
    with u show ?thesis
      using gram_or [OF gram_ors_more [OF u(2) \<open>gram_ors v es\<close>]]
      by (intro exI [of _ "u @ ch_or # v"]) auto
  qed
next
  case (4 n cs s)
  show ?case
  proof (cases "consume ch_or s")
    case None
    then show ?thesis using 4(3) by simp
  next
    case (Some s')
    with 4(3) obtain c t where c: "parse_and_expr n s' = Some (Inr (c, t))"
      and l: "parse_or_loop n (cs @ [c]) t = Some (Inr (e, r))"
      by (auto simp: bind_p_eq_SomeInr)
    from 4(1) [OF Some c] obtain u where u: "s' = u @ t" "gram_and u c" by blast
    from 4(2) [OF Some l] show ?thesis
    proof (elim disjE exE conjE)
      assume "t = r" "e = finish_or (cs @ [c])"
      with u Some show ?thesis using gram_ors_one [OF u(2)] by auto
    next
      fix v es assume "t = ch_or # v @ r" "gram_ors v es" "e = finish_or ((cs @ [c]) @ es)"
      with u Some show ?thesis
        using gram_ors_more [OF u(2) \<open>gram_ors v es\<close>]
        by (intro disjI2 exI [of _ "u @ ch_or # v"] exI [of _ "c # es"]) auto
    qed
  qed
next
  case (6 n s)
  then obtain c t where c: "parse_primary n s = Some (Inr (c, t))"
    and l: "parse_and_loop n [c] t = Some (Inr (e, r))"
    by (auto simp: bind_p_eq_SomeInr)
  from 6(1) [OF c] obtain u where u: "s = u @ t" "gram_primary u c" by blast
  from 6(2) [OF l] show ?case
  proof (elim disjE exE conjE)
    assume "t = r" "e = finish_and [c]"
    with u show ?thesis
      using gram_and [OF gram_ands_one [OF u(2)]] by auto
  next
    fix v es assume "t = ch_and # v @ r" "gram_ands v es" "e = finish_and ([c] @ es)"
    with u show ?thesis
      using gram_and [OF gram_ands_more [OF u(2) \<open>gram_ands v es\<close>]]
      by (intro exI [of _ "u @ ch_and # v"]) auto
  qed
next
  case (8 n cs s)
  show ?case
  proof (cases "consume ch_and s")
    case None
    then show ?thesis using 8(3) by simp
  next
    case (Some s')
    with 8(3) obtain c t where c: "parse_primary n s' = Some (Inr (c, t))"
      and l: "parse_and_loop n (cs @ [c]) t = Some (Inr (e, r))"
      by (auto simp: bind_p_eq_SomeInr)
    from 8(1) [OF Some c] obtain u where u: "s' = u @ t" "gram_primary u c" by blast
    from 8(2) [OF Some l] show ?thesis
    proof (elim disjE exE conjE)
      assume "t = r" "e = finish_and (cs @ [c])"
      with u Some show ?thesis using gram_ands_one [OF u(2)] by auto
    next
      fix v es assume "t = ch_and # v @ r" "gram_ands v es" "e = finish_and ((cs @ [c]) @ es)"
      with u Some show ?thesis
        using gram_ands_more [OF u(2) \<open>gram_ands v es\<close>]
        by (intro disjI2 exI [of _ "u @ ch_and # v"] exI [of _ "c # es"]) auto
    qed
  qed
next
  case (10 n s)
  show ?case
  proof (cases "consume ch_open s")
    case None
    with 10(2) obtain l where "parse_label s = (l, r)" "l \<noteq> []" "e = Label l"
      by (auto split: prod.splits if_splits)
    then show ?thesis
      using parse_label_valid gram_label by blast
  next
    case (Some s')
    with 10(2) obtain t where t: "parse_or_expr n s' = Some (Inr (e, ch_close # r))"
      by (auto simp: bind_p_eq_SomeInr split: option.splits)
    from 10(1) [OF Some t] obtain u where "s' = u @ ch_close # r" "gram_or u e" by blast
    with Some show ?thesis
      using gram_paren [OF \<open>gram_or u e\<close>] by (intro exI [of _ "ch_open # u @ [ch_close]"]) auto
  qed
qed simp_all

text \<open>Every string of the grammar is accepted with its tree, whatever follows it, as long as
  what follows cannot extend it.\<close>

definition ends_label :: "rstr \<Rightarrow> bool" where
  "ends_label r = (case r of [] \<Rightarrow> True | c # _ \<Rightarrow> \<not> is_label_char c)"

lemma ends_label_simps [simp]:
  "ends_label []" "ends_label (ch_and # r)" "ends_label (ch_or # r)" "ends_label (ch_close # r)"
  by (simp_all add: ends_label_def is_label_char_def)

lemma parse_label_append:
  "is_valid_label l \<Longrightarrow> ends_label r \<Longrightarrow> parse_label (l @ r) = (l, r)"
  by (cases r) (auto simp: parse_label_def is_valid_label_def ends_label_def list_all_iff takeWhile_append dropWhile_append)

lemma consume_label: "is_valid_label l \<Longrightarrow> consume ch_open (l @ r) = None"
  by (cases l) (auto simp: is_valid_label_def is_label_char_def)

lemma seq_fuel:
  fixes n k :: nat
  assumes p: "p n s = Some (Inr (x, t))" and q: "q k x t = Some y"
    and pm: "\<And>n m s r. p n s = Some r \<Longrightarrow> n \<le> m \<Longrightarrow> p m s = Some r"
    and qm: "\<And>n m x s r. q n x s = Some r \<Longrightarrow> n \<le> m \<Longrightarrow> q m x s = Some r"
  shows "\<exists>m. bind_p (p m s) (\<lambda>c s. q m c s) = Some y"
  using pm [OF p, of "max n k"] qm [OF q, of "max n k"] by (intro exI [of _ "max n k"]) simp

lemma parser_complete:
  "gram_or u e \<Longrightarrow> ends_label r \<and> consume ch_and r = None \<and> consume ch_or r = None \<Longrightarrow>
     \<exists>n. parse_or_expr n (u @ r) = Some (Inr (e, r))"
  "gram_ors u es \<Longrightarrow> ends_label r \<and> consume ch_and r = None \<and> consume ch_or r = None \<Longrightarrow>
     \<exists>n. bind_p (parse_and_expr n (u @ r)) (\<lambda>c s. parse_or_loop n (cs @ [c]) s)
         = Some (Inr (finish_or (cs @ es), r))"
  "gram_and u e \<Longrightarrow> ends_label r \<and> consume ch_and r = None \<Longrightarrow>
     \<exists>n. parse_and_expr n (u @ r) = Some (Inr (e, r))"
  "gram_ands u es \<Longrightarrow> ends_label r \<and> consume ch_and r = None \<Longrightarrow>
     \<exists>n. bind_p (parse_primary n (u @ r)) (\<lambda>c s. parse_and_loop n (cs @ [c]) s)
         = Some (Inr (finish_and (cs @ es), r))"
  "gram_primary u e \<Longrightarrow> ends_label r \<Longrightarrow> \<exists>n. parse_primary n (u @ r) = Some (Inr (e, r))"
proof (induction u e and u es and u e and u es and u e
    arbitrary: r and r cs and r and r cs and r
    rule: gram_or_gram_ors_gram_and_gram_ands_gram_primary.inducts)
  case (gram_or s es)
  from gram_or.IH [OF gram_or.prems, of "[]"] obtain n where
    "bind_p (parse_and_expr n (s @ r)) (\<lambda>c. parse_or_loop n ([] @ [c])) = Some (Inr (finish_or es, r))"
    by auto
  then show ?case by (intro exI [of _ "Suc n"]) simp
next
  case (gram_ors_one s e)
  then obtain n where n: "parse_and_expr n (s @ r) = Some (Inr (e, r))" by blast
  have "parse_or_loop (Suc 0) (cs @ [e]) r = Some (Inr (finish_or (cs @ [e]), r))"
    using gram_ors_one by simp
  with n show ?case
    by (rule seq_fuel [where q = "\<lambda>n c s. parse_or_loop n (cs @ [c]) s"]) (fact parser_mono)+
next
  case (gram_ors_more s e t es)
  from gram_ors_more.IH(1) [of "ch_or # t @ r"] obtain n where
    n: "parse_and_expr n (s @ ch_or # t @ r) = Some (Inr (e, ch_or # t @ r))" by auto
  from gram_ors_more.IH(2) [OF gram_ors_more.prems, of "cs @ [e]"] obtain k where
    "parse_or_loop (Suc k) (cs @ [e]) (ch_or # t @ r) = Some (Inr (finish_or (cs @ e # es), r))"
    by auto
  with n have "\<exists>m. bind_p (parse_and_expr m (s @ ch_or # t @ r)) (\<lambda>c s. parse_or_loop m (cs @ [c]) s)
      = Some (Inr (finish_or (cs @ e # es), r))"
    by (rule seq_fuel [where q = "\<lambda>n c s. parse_or_loop n (cs @ [c]) s"]) (fact parser_mono)+
  then show ?case by simp
next
  case (gram_and s es)
  from gram_and.IH [OF gram_and.prems, of "[]"] obtain n where
    "bind_p (parse_primary n (s @ r)) (\<lambda>c. parse_and_loop n ([] @ [c])) = Some (Inr (finish_and es, r))"
    by auto
  then show ?case by (intro exI [of _ "Suc n"]) simp
next
  case (gram_ands_one s e)
  then obtain n where n: "parse_primary n (s @ r) = Some (Inr (e, r))" by blast
  have "parse_and_loop (Suc 0) (cs @ [e]) r = Some (Inr (finish_and (cs @ [e]), r))"
    using gram_ands_one by simp
  with n show ?case
    by (rule seq_fuel [where q = "\<lambda>n c s. parse_and_loop n (cs @ [c]) s"]) (fact parser_mono)+
next
  case (gram_ands_more s e t es)
  from gram_ands_more.IH(1) [of "ch_and # t @ r"] obtain n where
    n: "parse_primary n (s @ ch_and # t @ r) = Some (Inr (e, ch_and # t @ r))" by auto
  from gram_ands_more.IH(2) [OF gram_ands_more.prems, of "cs @ [e]"] obtain k where
    "parse_and_loop (Suc k) (cs @ [e]) (ch_and # t @ r) = Some (Inr (finish_and (cs @ e # es), r))"
    by auto
  with n have "\<exists>m. bind_p (parse_primary m (s @ ch_and # t @ r)) (\<lambda>c s. parse_and_loop m (cs @ [c]) s)
      = Some (Inr (finish_and (cs @ e # es), r))"
    by (rule seq_fuel [where q = "\<lambda>n c s. parse_and_loop n (cs @ [c]) s"]) (fact parser_mono)+
  then show ?case by simp
next
  case (gram_label l)
  then show ?case
    by (intro exI [of _ "Suc 0"]) (auto simp: parse_label_append consume_label is_valid_label_def)
next
  case (gram_paren s e)
  from gram_paren.IH [of "ch_close # r"] obtain n where
    "parse_or_expr n (s @ ch_close # r) = Some (Inr (e, ch_close # r))" by auto
  then show ?case by (intro exI [of _ "Suc n"]) simp
qed

lemma parse_or_expr_iff:
  "parse_or_expr (parse_fuel s) s = Some (Inr (e, [])) \<longleftrightarrow> gram_or s e"
proof
  assume "gram_or s e"
  then obtain n where n: "parse_or_expr n s = Some (Inr (e, []))"
    using parser_complete(1) [of s e "[]"] by auto
  obtain x where x: "parse_or_expr (parse_fuel s) s = Some x"
    using parser_fuel(1) [of s "parse_fuel s"] by (auto simp: parse_fuel_def)
  show "parse_or_expr (parse_fuel s) s = Some (Inr (e, []))"
    using parser_mono(1) [OF n, of "max n (parse_fuel s)"] parser_mono(1) [OF x, of "max n (parse_fuel s)"] x
    by simp
qed (auto dest: parser_sound(1))

section \<open>Normal forms\<close>

text \<open>What the grammar produces: valid labels, and at least two children per operator.\<close>

fun well_formed :: "expr \<Rightarrow> bool" where
  "well_formed Public = True"
| "well_formed (Label l) = is_valid_label l"
| "well_formed (And cs) = (2 \<le> length cs \<and> (\<forall>c\<in>set cs. well_formed c))"
| "well_formed (Or cs) = (2 \<le> length cs \<and> (\<forall>c\<in>set cs. well_formed c))"

fun same_op :: "operator \<Rightarrow> expr \<Rightarrow> bool" where
  "same_op OpAnd (And _) = True"
| "same_op OpOr (Or _) = True"
| "same_op _ _ = False"

definition canon_key :: "expr \<Rightarrow> bytes" where
  "canon_key e = utf8_encode (canonical e)"

text \<open>A non-public normal form: valid labels, at least two children, no child with its
  parent's operator, no public child, children strictly ascending by canonical bytes.\<close>

fun normal :: "expr \<Rightarrow> bool" where
  "normal Public = False"
| "normal (Label l) = is_valid_label l"
| "normal (And cs) =
     (2 \<le> length cs \<and> (\<forall>c\<in>set cs. normal c \<and> \<not> same_op OpAnd c) \<and> sorted_wrt (<) (map canon_key cs))"
| "normal (Or cs) =
     (2 \<le> length cs \<and> (\<forall>c\<in>set cs. normal c \<and> \<not> same_op OpOr c) \<and> sorted_wrt (<) (map canon_key cs))"

definition normal_form :: "expr \<Rightarrow> bool" where
  "normal_form e = (e = Public \<or> normal e)"

lemma well_formed_finish:
  "es \<noteq> [] \<and> (\<forall>e\<in>set es. well_formed e) \<Longrightarrow> well_formed (finish_or es) \<and> well_formed (finish_and es)"
  by (cases es) (auto simp: finish_or_def finish_and_def remove_only_child_def Suc_le_eq)

lemma gram_well_formed:
  "gram_or s e \<Longrightarrow> well_formed e"
  "gram_ors s es \<Longrightarrow> es \<noteq> [] \<and> (\<forall>e\<in>set es. well_formed e)"
  "gram_and s e \<Longrightarrow> well_formed e"
  "gram_ands s es \<Longrightarrow> es \<noteq> [] \<and> (\<forall>e\<in>set es. well_formed e)"
  "gram_primary s e \<Longrightarrow> well_formed e"
  by (induction rule: gram_or_gram_ors_gram_and_gram_ands_gram_primary.inducts)
    (simp_all add: well_formed_finish)

lemma write_joined_False:
  "cs \<noteq> [] \<Longrightarrow> write_joined False cs sep p = sep # write_joined True cs sep p"
  by (cases cs) auto

lemma gram_ands_joined:
  "(\<And>c. c \<in> set cs \<Longrightarrow> gram_primary (write_canonical p c) c) \<Longrightarrow> cs \<noteq> [] \<Longrightarrow>
    gram_ands (write_joined True cs ch_and p) cs"
proof (induction cs)
  case (Cons c cs)
  show ?case
  proof (cases "cs = []")
    case True
    with Cons show ?thesis by (simp add: gram_ands_one)
  next
    case False
    with Cons gram_ands_more [of "write_canonical p c" c "write_joined True cs ch_and p" cs]
    show ?thesis by (simp add: write_joined_False)
  qed
qed simp

lemma gram_ors_joined:
  "(\<And>c. c \<in> set cs \<Longrightarrow> gram_and (write_canonical p c) c) \<Longrightarrow> cs \<noteq> [] \<Longrightarrow>
    gram_ors (write_joined True cs ch_or p) cs"
proof (induction cs)
  case (Cons c cs)
  show ?case
  proof (cases "cs = []")
    case True
    with Cons show ?thesis by (simp add: gram_ors_one)
  next
    case False
    with Cons gram_ors_more [of "write_canonical p c" c "write_joined True cs ch_or p" cs]
    show ?thesis by (simp add: write_joined_False)
  qed
qed simp

lemma gram_lift:
  "gram_and s e \<Longrightarrow> gram_or s e" "gram_primary s e \<Longrightarrow> gram_and s e"
  using gram_or [OF gram_ors_one] gram_and [OF gram_ands_one] by auto

text \<open>The canonical text of a normal form parses back to it: the printer's parentheses are
  exactly where the parser needs them.\<close>

lemma normal_gram:
  "normal e \<Longrightarrow>
    gram_or (write_canonical 0 e) e \<and>
    (\<not> same_op OpOr e \<longrightarrow> gram_and (write_canonical 1 e) e) \<and>
    (\<not> same_op OpAnd e \<longrightarrow> gram_primary (write_canonical 2 e) e)"
proof (induction e)
  case (Label l)
  then show ?case
    using gram_label [of l] gram_lift(2) [OF gram_label [of l]]
      gram_lift(1) [OF gram_lift(2) [OF gram_label [of l]]]
    by (simp add: wrap_parens_def)
next
  case (And cs)
  then have "gram_ands (write_joined True cs ch_and 2) cs"
    by (intro gram_ands_joined) auto
  moreover have "finish_and cs = And cs"
    using And by (auto simp: finish_and_def)
  ultimately have "gram_and (write_joined True cs ch_and 2) (And cs)"
    using gram_and [of "write_joined True cs ch_and 2" cs] by simp
  then show ?case
    using gram_lift(1) [of "write_joined True cs ch_and 2"] by (simp add: wrap_parens_def)
next
  case (Or cs)
  then have "gram_ors (write_joined True cs ch_or 1) cs"
    by (intro gram_ors_joined) auto
  moreover have "finish_or cs = Or cs"
    using Or by (auto simp: finish_or_def)
  ultimately have "gram_or (write_joined True cs ch_or 1) (Or cs)"
    using gram_or [of "write_joined True cs ch_or 1" cs] by simp
  then show ?case
    using gram_paren [of "write_joined True cs ch_or 1"] by (simp add: wrap_parens_def)
qed simp

lemma canonical_gram: "normal e \<Longrightarrow> gram_or (canonical e) e"
  using normal_gram by (simp add: canonical_def)

lemma gram_or_deterministic: "gram_or s e \<Longrightarrow> gram_or s f \<Longrightarrow> e = f"
  by (simp flip: parse_or_expr_iff)

lemma gram_or_nonempty: "\<not> gram_or [] e"
  by (auto simp flip: parse_or_expr_iff dest: parser_shorter(1))

lemma canonical_inject: "normal e \<Longrightarrow> normal f \<Longrightarrow> canonical e = canonical f \<longleftrightarrow> e = f"
  using canonical_gram gram_or_deterministic by metis

lemma is_ascii_simps [simp]:
  "is_ascii []" "is_ascii (c # s) = (c < 128 \<and> is_ascii s)" "is_ascii (s @ t) = (is_ascii s \<and> is_ascii t)"
  by (auto simp: is_ascii_def)

lemma is_ascii_label: "is_valid_label l \<Longrightarrow> is_ascii l"
  by (auto simp: is_valid_label_def is_ascii_def list_all_iff is_label_char_def)

lemma is_ascii_canonical:
  "well_formed e \<Longrightarrow> is_ascii (write_canonical p e)"
  "\<forall>c\<in>set cs. well_formed c \<Longrightarrow> sep < 128 \<Longrightarrow> is_ascii (write_joined first cs sep p)"
  by (induction p e and first cs sep p rule: write_canonical_write_joined.induct)
    (auto simp: wrap_parens_def is_ascii_label)

lemma normal_well_formed: "normal e \<Longrightarrow> well_formed e"
  by (induction e) auto

lemma canon_key_inject:
  assumes "normal e" "normal f"
  shows "canon_key e = canon_key f \<longleftrightarrow> e = f"
proof
  assume "canon_key e = canon_key f"
  then have "utf8_decode (utf8_encode (canonical e)) = utf8_decode (utf8_encode (canonical f))"
    by (simp add: canon_key_def)
  then show "e = f"
    using assms canonical_inject
    by (simp add: utf8_decode_encode_ascii is_ascii_canonical normal_well_formed canonical_def)
qed simp

subsection \<open>Sorting and removing duplicates\<close>

definition pairs_normal :: "operator \<Rightarrow> (rstr \<times> expr) list \<Rightarrow> bool" where
  "pairs_normal op ps = (\<forall>p\<in>set ps. fst p = canonical (snd p) \<and> normal (snd p) \<and> \<not> same_op op (snd p))"

lemma set_dedup_pairs: "pairs_normal op ps \<Longrightarrow> set (dedup_pairs ps) = set ps"
proof (induction ps rule: dedup_pairs.induct)
  case (3 p q ps)
  show ?case
  proof (cases "fst p = fst q")
    case True
    with 3 have "p = q"
      by (auto simp: pairs_normal_def canonical_inject prod_eq_iff)
    with 3 show ?thesis by (auto simp: pairs_normal_def)
  next
    case False
    with 3 show ?thesis by (auto simp: pairs_normal_def)
  qed
qed auto

lemma strict_head:
  "sorted_wrt (<) (map f (dedup_pairs (q # ps))) \<Longrightarrow>
    (\<forall>x\<in>set (q # ps). (k :: bytes) < f x) \<Longrightarrow> \<forall>x\<in>set (dedup_pairs (q # ps)). k < f x"
  for f :: "rstr \<times> expr \<Rightarrow> bytes"
proof -
  have "set (dedup_pairs xs) \<subseteq> set xs" for xs
    by (induction xs rule: dedup_pairs.induct) auto
  then show "\<forall>x\<in>set (q # ps). k < f x \<Longrightarrow> \<forall>x\<in>set (dedup_pairs (q # ps)). k < f x"
    by blast
qed

lemma pairs_normal_Cons [simp]:
  "pairs_normal op (p # ps) \<longleftrightarrow>
    fst p = canonical (snd p) \<and> normal (snd p) \<and> \<not> same_op op (snd p) \<and> pairs_normal op ps"
  "pairs_normal op []"
  by (auto simp: pairs_normal_def)

lemma sorted_dedup_pairs:
  "pairs_normal op ps \<Longrightarrow> sorted (map (\<lambda>p. canon_key (snd p)) ps) \<Longrightarrow>
    sorted_wrt (<) (map (\<lambda>p. canon_key (snd p)) (dedup_pairs ps))"
proof (induction ps rule: dedup_pairs.induct)
  case (3 p q ps)
  note hyps = 3(3,4)
  show ?case
  proof (cases "fst p = fst q")
    case True
    have "sorted_wrt (<) (map (\<lambda>p. canon_key (snd p)) (dedup_pairs (p # ps)))"
      by (rule 3(1) [OF True]) (use hyps in simp_all)
    with True show ?thesis by simp
  next
    case False
    have ne: "canon_key (snd p) \<noteq> canon_key (snd q)"
      using hyps(1) False by (auto simp: canon_key_inject)
    have le: "canon_key (snd p) \<le> canon_key (snd q)" "\<forall>x\<in>set ps. canon_key (snd q) \<le> canon_key (snd x)"
      using hyps(2) by simp_all
    then have lt: "\<forall>x\<in>set (q # ps). canon_key (snd p) < canon_key (snd x)"
      using ne by (metis le_less_trans less_le list.set_cases set_ConsD order_less_le_trans)
    have s: "sorted_wrt (<) (map (\<lambda>p. canon_key (snd p)) (dedup_pairs (q # ps)))"
      by (rule 3(2) [OF False]) (use hyps in simp_all)
    show ?thesis
      using strict_head [OF s lt] s False by simp
  qed
qed simp_all

lemma dedup_sorted_id:
  "sorted_wrt (<) (map canon_key cs) \<Longrightarrow>
    dedup_pairs (map (\<lambda>c. (canonical c, c)) cs) = map (\<lambda>c. (canonical c, c)) cs"
proof (induction cs)
  case (Cons c cs)
  then show ?case by (cases cs) (auto simp: canon_key_def)
qed simp

lemma sort_sorted_id:
  assumes "sorted_wrt (<) (map canon_key cs)"
  shows "sort_pairs (map (\<lambda>c. (canonical c, c)) cs) = map (\<lambda>c. (canonical c, c)) cs"
proof -
  have "sorted (map canon_key cs)"
    using assms by (rule sorted_wrt_mono_rel [rotated]) auto
  then show ?thesis
    unfolding sort_pairs_def by (intro sort_key_id_if_sorted) (simp add: comp_def canon_key_def [abs_def])
qed

lemma pairs_normal_sort:
  assumes "pairs_normal op ps"
  shows "pairs_normal op (sort_pairs ps)"
    and "sorted (map (\<lambda>p. canon_key (snd p)) (sort_pairs ps))"
proof -
  show p: "pairs_normal op (sort_pairs ps)"
    using assms by (simp add: pairs_normal_def sort_pairs_def)
  have "map (\<lambda>p. utf8_encode (fst p)) (sort_pairs ps) = map (\<lambda>p. canon_key (snd p)) (sort_pairs ps)"
    using p by (auto simp: pairs_normal_def canon_key_def)
  then show "sorted (map (\<lambda>p. canon_key (snd p)) (sort_pairs ps))"
    by (metis sort_pairs_def sorted_sort_key)
qed

section \<open>Normalisation is sound, complete and idempotent\<close>

lemma child_pairs_normal:
  "normal_form e \<Longrightarrow> child_pairs op e = Some ps \<Longrightarrow> pairs_normal op ps"
  by (cases op; cases e) (auto simp: normal_form_def pairs_normal_def)

lemma pairs_normal_append [simp]:
  "pairs_normal op (ps @ qs) \<longleftrightarrow> pairs_normal op ps \<and> pairs_normal op qs"
  by (auto simp: pairs_normal_def)

lemma build_children_normal:
  assumes "pairs_normal op ps"
  shows "normal_form (build_children op (Some ps))"
proof -
  define qs where "qs = dedup_pairs (sort_pairs ps)"
  have n: "pairs_normal op qs"
    using pairs_normal_sort [OF assms] set_dedup_pairs [of op "sort_pairs ps"]
    by (simp add: qs_def pairs_normal_def)
  have s: "sorted_wrt (<) (map (\<lambda>p. canon_key (snd p)) qs)"
    unfolding qs_def by (rule sorted_dedup_pairs) (rule pairs_normal_sort [OF assms])+
  have n': "\<forall>c\<in>set (map snd qs). normal c \<and> \<not> same_op op c"
    using n by (auto simp: pairs_normal_def)
  have s': "sorted_wrt (<) (map canon_key (map snd qs))"
    using s by (simp add: comp_def)
  show ?thesis
  proof (cases "map snd qs" rule: remdups_adj.cases)
    case 1
    then show ?thesis by (simp add: build_children_def normal_form_def flip: qs_def)
  next
    case (2 c)
    with n' show ?thesis by (simp add: build_children_def normal_form_def flip: qs_def)
  next
    case (3 c d cs)
    have "build_children op (Some ps) = (case op of OpAnd \<Rightarrow> And (c # d # cs) | OpOr \<Rightarrow> Or (c # d # cs))"
      using 3 by (simp add: build_children_def flip: qs_def)
    then show ?thesis
      using n' s' unfolding 3 by (cases op) (simp_all add: normal_form_def)
  qed
qed

lemma normalized_normal_form:
  "well_formed e \<Longrightarrow> normal_form (normalized e)"
  "\<forall>c\<in>set cs. well_formed c \<Longrightarrow> normalize_pairs op cs = Some ps \<Longrightarrow> pairs_normal op ps"
proof (induction e and op cs arbitrary: and ps rule: normalized_normalize_pairs.induct)
  case (1 cs)
  then show ?case
    by (cases "normalize_pairs OpAnd cs") (simp_all add: build_children_normal, simp add: build_children_def normal_form_def)
next
  case (2 cs)
  then show ?case
    by (cases "normalize_pairs OpOr cs") (simp_all add: build_children_normal, simp add: build_children_def normal_form_def)
next
  case (6 op c cs)
  then obtain us vs where us: "child_pairs op (normalized c) = Some us"
    and vs: "normalize_pairs op cs = Some vs" and ps: "ps = us @ vs"
    by (auto split: option.splits)
  have "pairs_normal op us"
    using child_pairs_normal [OF _ us] 6(1,3) by simp
  moreover have "pairs_normal op vs"
    using 6(2) [OF us _ vs] 6(3) by simp
  ultimately show ?case using ps by simp
qed (simp_all add: normal_form_def)

lemma evaluate_build_children:
  assumes "pairs_normal op ps"
  shows "evaluate (build_children op (Some ps)) A =
    (case op of OpAnd \<Rightarrow> \<forall>p\<in>set ps. evaluate (snd p) A
              | OpOr \<Rightarrow> ps = [] \<or> (\<exists>p\<in>set ps. evaluate (snd p) A))"
proof -
  define qs where "qs = dedup_pairs (sort_pairs ps)"
  have q: "set qs = set ps"
    using set_dedup_pairs [OF pairs_normal_sort(1) [OF assms]] by (simp add: qs_def sort_pairs_def)
  then have e: "map snd qs = [] \<longleftrightarrow> ps = []" and s: "set (map snd qs) = snd ` set ps"
    by (metis Nil_is_map_conv set_empty) (simp add: q)
  have "(\<forall>p\<in>set ps. evaluate (snd p) A) \<longleftrightarrow> (\<forall>c\<in>set (map snd qs). evaluate c A)"
    "(\<exists>p\<in>set ps. evaluate (snd p) A) \<longleftrightarrow> (\<exists>c\<in>set (map snd qs). evaluate c A)"
    by (simp_all add: q)
  moreover have "build_children op (Some ps) =
      (case map snd qs of [] \<Rightarrow> Public | [c] \<Rightarrow> c
       | c # d # cs \<Rightarrow> (case op of OpAnd \<Rightarrow> And (c # d # cs) | OpOr \<Rightarrow> Or (c # d # cs)))"
    by (simp add: build_children_def qs_def)
  ultimately show ?thesis
    using e by (cases "map snd qs" rule: remdups_adj.cases; cases op) simp_all
qed

lemma evaluate_child_pairs:
  "child_pairs op e = Some ps \<Longrightarrow> normal_form e \<Longrightarrow>
    evaluate e A = (case op of OpAnd \<Rightarrow> \<forall>p\<in>set ps. evaluate (snd p) A
                             | OpOr \<Rightarrow> \<exists>p\<in>set ps. evaluate (snd p) A)"
  "child_pairs op e = None \<Longrightarrow> op = OpOr \<and> e = Public"
  by (cases op; cases e; auto)+

text \<open>Normalisation keeps the meaning: flattening, dropping public conjuncts, sorting and
  removing duplicates by canonical text never change who may read.\<close>

lemma evaluate_pairs_Cons:
  assumes c: "child_pairs op c = Some us" "normal_form c" "evaluate c A = evaluate c0 A"
    and v: "case op of
          OpAnd \<Rightarrow> (\<forall>p\<in>set vs. evaluate (snd p) A) = (\<forall>c\<in>set cs. evaluate c A)
        | OpOr \<Rightarrow> (\<exists>p\<in>set vs. evaluate (snd p) A) = (\<exists>c\<in>set cs. evaluate c A)"
  shows "case op of
          OpAnd \<Rightarrow> (\<forall>p\<in>set (us @ vs). evaluate (snd p) A) = (\<forall>c\<in>set (c0 # cs). evaluate c A)
        | OpOr \<Rightarrow> (\<exists>p\<in>set (us @ vs). evaluate (snd p) A) = (\<exists>c\<in>set (c0 # cs). evaluate c A)"
  using evaluate_child_pairs(1) [OF c(1,2), of A] c(3) v by (cases op) auto

lemma child_pairs_nonempty:
  "child_pairs OpOr e = Some ps \<Longrightarrow> normal_form e \<Longrightarrow> ps \<noteq> []"
  by (cases e) (auto simp: normal_form_def)

lemma normalize_pairs_nonempty:
  "\<forall>c\<in>set cs. well_formed c \<Longrightarrow> normalize_pairs OpOr cs = Some ps \<Longrightarrow> cs \<noteq> [] \<Longrightarrow> ps \<noteq> []"
  by (cases cs) (auto split: option.splits dest!: child_pairs_nonempty normalized_normal_form(1))

lemma normalize_pairs_None: "normalize_pairs op cs = None \<Longrightarrow> op = OpOr \<and> (\<exists>c\<in>set cs. normalized c = Public)"
  by (induction cs) (auto split: option.splits dest: evaluate_child_pairs(2))

lemma evaluate_normalized:
  "well_formed e \<Longrightarrow> evaluate (normalized e) A = evaluate e A"
proof (induction e)
  have pairs: "case op of
          OpAnd \<Rightarrow> (\<forall>p\<in>set ps. evaluate (snd p) A) = (\<forall>c\<in>set cs. evaluate c A)
        | OpOr \<Rightarrow> (\<exists>p\<in>set ps. evaluate (snd p) A) = (\<exists>c\<in>set cs. evaluate c A)"
    if "\<forall>c\<in>set cs. well_formed c \<and> evaluate (normalized c) A = evaluate c A"
      and "normalize_pairs op cs = Some ps" for op cs ps
    using that
  proof (induction cs arbitrary: ps)
    case Nil
    then show ?case by (cases op) simp_all
  next
    case (Cons c cs)
    then obtain us vs where us: "child_pairs op (normalized c) = Some us"
      and vs: "normalize_pairs op cs = Some vs" and ps: "ps = us @ vs"
      by (auto split: option.splits)
    show ?case
      unfolding ps
      by (rule evaluate_pairs_Cons [OF us _ _ Cons.IH [OF _ vs]])
        (use Cons.prems normalized_normal_form(1) in auto)
  qed
  {
    case (And cs)
    then obtain ps where ps: "normalize_pairs OpAnd cs = Some ps"
      using normalize_pairs_None [of OpAnd cs] by fastforce
    then show ?case
      using pairs [of cs OpAnd ps] And normalized_normal_form(2) [OF _ ps]
      by (simp add: evaluate_build_children)
  next
    case (Or cs)
    show ?case
    proof (cases "normalize_pairs OpOr cs")
      case None
      then obtain c where "c \<in> set cs" "normalized c = Public"
        using normalize_pairs_None by blast
      moreover from this have "evaluate c A"
        using Or by (metis evaluate.simps(1) well_formed.simps(4))
      ultimately show ?thesis
        using None by (auto simp: build_children_def)
    next
      case (Some ps)
      from Or have wf: "\<forall>c\<in>set cs. well_formed c" "cs \<noteq> []" by auto
      from Or have "(\<exists>p\<in>set ps. evaluate (snd p) A) = (\<exists>c\<in>set cs. evaluate c A)"
        using pairs [of cs OpOr ps] Some by simp
      then show ?thesis
        using Some normalized_normal_form(2) [OF wf(1) Some] normalize_pairs_nonempty [OF wf(1) Some wf(2)]
        by (simp add: evaluate_build_children)
    qed
  }
qed simp_all

lemma normalize_pairs_id:
  "(\<And>c. c \<in> set cs \<Longrightarrow> normalized c = c \<and> normal c \<and> \<not> same_op op c) \<Longrightarrow>
    normalize_pairs op cs = Some (map (\<lambda>c. (canonical c, c)) cs)"
proof (induction cs)
  case (Cons c cs)
  have "child_pairs op c = Some [(canonical c, c)]"
    using Cons.prems [of c] by (cases op; cases c) auto
  with Cons show ?case by simp
qed simp

lemma build_children_id:
  assumes "sorted_wrt (<) (map canon_key cs)" "2 \<le> length cs"
  shows "build_children op (Some (map (\<lambda>c. (canonical c, c)) cs)) = (case op of OpAnd \<Rightarrow> And cs | OpOr \<Rightarrow> Or cs)"
proof -
  have "map snd (dedup_pairs (sort_pairs (map (\<lambda>c. (canonical c, c)) cs))) = cs"
    by (simp add: sort_sorted_id [OF assms(1)] dedup_sorted_id [OF assms(1)] comp_def)
  with assms(2) show ?thesis
    by (cases cs rule: remdups_adj.cases; cases op) (simp_all add: build_children_def)
qed

lemma normalized_id: "normal e \<Longrightarrow> normalized e = e"
proof (induction e)
  case (And cs)
  then have "normalize_pairs OpAnd cs = Some (map (\<lambda>c. (canonical c, c)) cs)"
    by (intro normalize_pairs_id) auto
  with And show ?case by (simp add: build_children_id)
next
  case (Or cs)
  then have "normalize_pairs OpOr cs = Some (map (\<lambda>c. (canonical c, c)) cs)"
    by (intro normalize_pairs_id) auto
  with Or show ?case by (simp add: build_children_id)
qed simp_all

section \<open>The entry point\<close>

lemma vis_parse_eq:
  "vis_parse s = Inr v \<longleftrightarrow>
    (s = [] \<and> v = vis_public) \<or>
    (\<exists>e. gram_or s e \<and> v = \<lparr>vis_expr = normalized e, vis_canonical = canonical (normalized e)\<rparr>)"
proof (cases "s = []")
  case True
  then show ?thesis by (auto simp: vis_parse_def gram_or_nonempty)
next
  case False
  then show ?thesis
    unfolding parse_or_expr_iff [symmetric]
    by (auto simp: vis_parse_def split: option.splits sum.splits)
qed

lemma vis_parse_canonical:
  assumes "vis_parse s = Inr v"
  shows "normal_form (vis_expr v)" "vis_canonical v = canonical (vis_expr v)"
  using assms unfolding vis_parse_eq
  by (auto simp: vis_public_def normal_form_def canonical_def wrap_parens_def
      dest!: gram_well_formed(1) normalized_normal_form(1))

lemma vis_parse_normal_form:
  assumes "normal_form e"
  shows "vis_parse (canonical e) = Inr \<lparr>vis_expr = e, vis_canonical = canonical e\<rparr>"
proof (cases "e = Public")
  case True
  then show ?thesis
    by (simp add: vis_parse_def vis_public_def canonical_def wrap_parens_def)
next
  case False
  with assms have n: "normal e" by (simp add: normal_form_def)
  show ?thesis
    unfolding vis_parse_eq using canonical_gram [OF n] normalized_id [OF n] by auto
qed

lemma vis_parse_own_canonical:
  assumes "vis_parse s = Inr v"
  shows "vis_parse (vis_canonical v) = Inr v"
proof -
  have "v = \<lparr>vis_expr = vis_expr v, vis_canonical = canonical (vis_expr v)\<rparr>"
    using vis_parse_canonical(2) [OF assms] by simp
  then show ?thesis
    using vis_parse_normal_form [OF vis_parse_canonical(1) [OF assms]] vis_parse_canonical(2) [OF assms]
    by metis
qed

lemma bind_p_eq_SomeInl:
  "bind_p m f = Some (Inl e) \<longleftrightarrow> m = Some (Inl e) \<or> (\<exists>x s. m = Some (Inr (x, s)) \<and> f x s = Some (Inl e))"
  by (auto simp: bind_p_def split: option.splits sum.splits)

lemma parser_errors:
  "parse_or_expr n s = Some (Inl x) \<Longrightarrow> \<exists>m. x = InvalidVisibilityExpression m"
  "parse_or_loop n cs s = Some (Inl x) \<Longrightarrow> \<exists>m. x = InvalidVisibilityExpression m"
  "parse_and_expr n s = Some (Inl x) \<Longrightarrow> \<exists>m. x = InvalidVisibilityExpression m"
  "parse_and_loop n cs s = Some (Inl x) \<Longrightarrow> \<exists>m. x = InvalidVisibilityExpression m"
  "parse_primary n s = Some (Inl x) \<Longrightarrow> \<exists>m. x = InvalidVisibilityExpression m"
  by (induction n s and n cs s and n s and n cs s and n s
      rule: parse_or_expr_parse_or_loop_parse_and_expr_parse_and_loop_parse_primary.induct)
    (auto simp: bind_p_eq_SomeInl split: option.splits prod.splits if_splits)

lemma evaluate_mono: "evaluate e A \<Longrightarrow> A \<subseteq> B \<Longrightarrow> evaluate e B"
  by (induction e) (auto simp: auths_contains_def)

lemma auths_from_labels_acc:
  "auths_from_labels_acc A ls =
    (if list_all is_valid_label ls then Inr (A \<union> set ls)
     else Inl (InvalidVisibilityExpression ''authorization label must be a valid identifier''))"
  by (induction ls arbitrary: A) (auto simp: auths_insert_def)

section \<open>Properties\<close>

text \<open>C33: parsing always returns, and returns either an expression or an
  \<open>InvalidVisibilityExpression\<close> error: the parser terminates on every input within the fuel the
  model gives it, and accepts exactly the empty string and the strings of the grammar.\<close>

theorem visibility_parse_total:
  "case vis_parse s of
     Inr v \<Rightarrow> s = [] \<or> (\<exists>e. gram_or s e)
   | Inl err \<Rightarrow> s \<noteq> [] \<and> \<not> (\<exists>e. gram_or s e) \<and> (\<exists>m. err = InvalidVisibilityExpression m)"
proof (cases "vis_parse s")
  case (Inr v)
  then have "s = [] \<or> (\<exists>e. gram_or s e)" by (auto simp: vis_parse_eq)
  with Inr show ?thesis by simp
next
  case (Inl err)
  have f: "parse_or_expr (parse_fuel s) s \<noteq> None"
    by (rule parser_fuel) (simp add: parse_fuel_def)
  have "\<exists>m. err = InvalidVisibilityExpression m"
    using Inl f by (auto simp: vis_parse_def split: if_splits option.splits sum.splits dest: parser_errors(1))
  moreover have "s \<noteq> []" "\<not> (\<exists>e. gram_or s e)"
    using Inl vis_parse_eq [of s vis_public] vis_parse_eq [of s] by auto
  ultimately show ?thesis using Inl by simp
qed

text \<open>C25: the canonical text of a parsed visibility expression parses back to the same
  expression and the same text, so canonicalisation is idempotent and stored canonical text is
  accepted unchanged.\<close>

theorem visibility_canonical_fixpoint:
  assumes "vis_parse s = Inr v"
  shows "vis_parse (vis_canonical v) = Inr v"
  using assms by (rule vis_parse_own_canonical)

theorem visibility_canonical_fixpoint_witness:
  "vis_parse [98, 38, 40, 99, 124, 97, 41, 38, 98] =
     Inr \<lparr>vis_expr = And [Or [Label [97], Label [99]], Label [98]],
          vis_canonical = [40, 97, 124, 99, 41, 38, 98]\<rparr>
   \<and> vis_parse [40, 97, 124, 99, 41, 38, 98] =
     Inr \<lparr>vis_expr = And [Or [Label [97], Label [99]], Label [98]],
          vis_canonical = [40, 97, 124, 99, 41, 38, 98]\<rparr>"
proof -
  have "vis_parse [98, 38, 40, 99, 124, 97, 41, 38, 98] =
     Inr \<lparr>vis_expr = And [Or [Label [97], Label [99]], Label [98]],
          vis_canonical = [40, 97, 124, 99, 41, 38, 98]\<rparr>"
    by code_simp
  from this visibility_canonical_fixpoint [OF this] show ?thesis by simp
qed

text \<open>C26: normalisation keeps the meaning: the stored expression grants access to exactly the
  authorization sets that satisfy the expression as the user wrote it (its unique parse tree).\<close>

theorem visibility_parse_meaning:
  assumes "vis_parse s = Inr v" "s \<noteq> []"
  shows "\<exists>e. gram_or s e \<and> (\<forall>f. gram_or s f \<longrightarrow> f = e) \<and> (\<forall>A. vis_evaluate v A = evaluate e A)"
proof -
  obtain t where t: "gram_or s t" "v = \<lparr>vis_expr = normalized t, vis_canonical = canonical (normalized t)\<rparr>"
    using assms by (auto simp: vis_parse_eq)
  have "vis_evaluate v A = evaluate t A" for A
    using evaluate_normalized [OF gram_well_formed(1) [OF t(1)], of A] t(2) by (simp add: vis_evaluate_def)
  with t(1) gram_or_deterministic show ?thesis by blast
qed

theorem visibility_parse_meaning_witness:
  "\<exists>e. gram_or [98, 124, 97, 38, 98] e \<and> (\<forall>f. gram_or [98, 124, 97, 38, 98] f \<longrightarrow> f = e) \<and>
    (\<forall>A. vis_evaluate \<lparr>vis_expr = Or [And [Label [97], Label [98]], Label [98]],
            vis_canonical = [97, 38, 98, 124, 98]\<rparr> A = evaluate e A)"
  by (rule visibility_parse_meaning) code_simp+

text \<open>Two parsed expressions with the same canonical text are the same expression, so they
  grant access to the same authorization sets; the canonical text decides equality.\<close>

lemma visibility_canonical_injective:
  assumes "vis_parse s = Inr v" "vis_parse t = Inr w"
  shows "vis_canonical v = vis_canonical w \<longleftrightarrow> v = w"
  using vis_parse_own_canonical [OF assms(1)] vis_parse_own_canonical [OF assms(2)]
  by (metis sum.inject(2))

text \<open>Granting more labels never hides data: a visibility expression that an authorization
  set satisfies is satisfied by every larger set, and the public expression by every set.\<close>

lemma visibility_evaluate_mono:
  assumes "vis_evaluate v A" "A \<subseteq> B"
  shows "vis_evaluate v B"
  using assms evaluate_mono by (simp add: vis_evaluate_def)

end
