(* ===== verification/Providers.thy ===== *)
theory Providers
  imports Visibility
begin

text \<open>
  \<open>src/secure/audit.rs\<close> and \<open>src/secure/providers.rs\<close>: audit events and their sink, the provider
  set that authenticates and authorizes, and the built-in static providers.

  The traits \<open>Authenticator\<close>, \<open>PermissionHandler\<close>, \<open>Authorizor\<close> and \<open>AuditSink\<close> are implemented by
  users: their methods are functions in the records.  A sink may answer differently from call to
  call, so its answer is a function of the events it was offered before; operations that audit
  pass that trail along.
\<close>

section \<open>Audit\<close>

datatype audit_failure_mode = BestEffort | FailClosed

datatype compaction_delete_reason = MaxVersions | Ttl

datatype 'i audit_event =
    AuthenticationSucceeded 'i
  | AuthenticationFailed
  | AuthorizationDenied 'i rstr
  | PolicyViolation rstr
  | CompactionDeleted rstr compaction_delete_reason
  | KeyspaceAccess 'i rstr

type_synonym 'i trail = "'i audit_event list"

record 'i audit_config =
  ac_sink :: "'i trail \<Rightarrow> 'i audit_event \<Rightarrow> unit result"
  ac_failure_mode :: audit_failure_mode

definition audit_config_new ::
    "('i trail \<Rightarrow> 'i audit_event \<Rightarrow> unit result) \<Rightarrow> audit_failure_mode \<Rightarrow> 'i audit_config" where
  "audit_config_new sink mode = \<lparr>ac_sink = sink, ac_failure_mode = mode\<rparr>"

definition audit_record :: "'i audit_config \<Rightarrow> 'i audit_event \<Rightarrow> 'i trail \<Rightarrow> unit result \<times> 'i trail" where
  "audit_record a ev tr =
     (case ac_sink a tr ev of
        Inr _ \<Rightarrow> (Inr (), tr @ [ev])
      | Inl _ \<Rightarrow>
          if ac_failure_mode a = BestEffort then (Inr (), tr @ [ev])
          else (Inl (Audit ''audit sink failed''), tr @ [ev]))"

section \<open>Permissions\<close>

record credentials =
  cr_principal :: rstr
  cr_secret :: bytes

definition credentials_new :: "rstr \<Rightarrow> bytes \<Rightarrow> credentials" where
  "credentials_new p secret = \<lparr>cr_principal = p, cr_secret = secret\<rparr>"

datatype system_permission = CreateKeyspace | DropKeyspace | ManageUsers | ManagePolicies | SystemCompact

datatype keyspace_permission = PermRead | PermWrite | PermDelete | PermCompact | PermAlter

fun permission_as_str :: "keyspace_permission \<Rightarrow> string" where
  "permission_as_str PermRead = ''keyspace:read''"
| "permission_as_str PermWrite = ''keyspace:write''"
| "permission_as_str PermDelete = ''keyspace:delete''"
| "permission_as_str PermCompact = ''keyspace:compact''"
| "permission_as_str PermAlter = ''keyspace:alter''"

text \<open>The derived order of the two enums is the order of their variants.\<close>

fun system_permission_index :: "system_permission \<Rightarrow> nat" where
  "system_permission_index CreateKeyspace = 0"
| "system_permission_index DropKeyspace = 1"
| "system_permission_index ManageUsers = 2"
| "system_permission_index ManagePolicies = 3"
| "system_permission_index SystemCompact = 4"

fun keyspace_permission_index :: "keyspace_permission \<Rightarrow> nat" where
  "keyspace_permission_index PermRead = 0"
| "keyspace_permission_index PermWrite = 1"
| "keyspace_permission_index PermDelete = 2"
| "keyspace_permission_index PermCompact = 3"
| "keyspace_permission_index PermAlter = 4"

lemma permission_index_inject [simp]:
  "system_permission_index p = system_permission_index q \<longleftrightarrow> p = q"
  "keyspace_permission_index a = keyspace_permission_index b \<longleftrightarrow> a = b"
  by (cases p; cases q; simp) (cases a; cases b; simp)

instantiation system_permission :: linorder
begin

definition less_eq_system_permission :: "system_permission \<Rightarrow> system_permission \<Rightarrow> bool" where
  "less_eq_system_permission p q = (system_permission_index p \<le> system_permission_index q)"

definition less_system_permission :: "system_permission \<Rightarrow> system_permission \<Rightarrow> bool" where
  "less_system_permission p q = (system_permission_index p < system_permission_index q)"

instance
  by standard (auto simp: less_eq_system_permission_def less_system_permission_def)

end

instantiation keyspace_permission :: linorder
begin

definition less_eq_keyspace_permission :: "keyspace_permission \<Rightarrow> keyspace_permission \<Rightarrow> bool" where
  "less_eq_keyspace_permission p q = (keyspace_permission_index p \<le> keyspace_permission_index q)"

definition less_keyspace_permission :: "keyspace_permission \<Rightarrow> keyspace_permission \<Rightarrow> bool" where
  "less_keyspace_permission p q = (keyspace_permission_index p < keyspace_permission_index q)"

instance
  by standard (auto simp: less_eq_keyspace_permission_def less_keyspace_permission_def)

end

section \<open>The provider set\<close>

record 'i permission_handler =
  has_system_permission :: "'i \<Rightarrow> system_permission \<Rightarrow> bool"
  has_keyspace_permission :: "'i \<Rightarrow> rstr \<Rightarrow> keyspace_permission \<Rightarrow> bool"

record 'i security_providers =
  sp_authenticator :: "credentials \<Rightarrow> 'i option result"
  sp_permission_handler :: "'i permission_handler"
  sp_authorizor :: "'i \<Rightarrow> authorizations result"
  sp_audit :: "'i audit_config option"

record 'i session =
  se_identity :: 'i
  se_auths :: authorizations

definition security_providers_new ::
    "(credentials \<Rightarrow> 'i option result) \<Rightarrow> 'i permission_handler \<Rightarrow> ('i \<Rightarrow> authorizations result)
     \<Rightarrow> 'i security_providers" where
  "security_providers_new a p z =
     \<lparr>sp_authenticator = a, sp_permission_handler = p, sp_authorizor = z, sp_audit = None\<rparr>"

definition with_audit_sink ::
    "('i trail \<Rightarrow> 'i audit_event \<Rightarrow> unit result) \<Rightarrow> audit_failure_mode \<Rightarrow> 'i security_providers
     \<Rightarrow> 'i security_providers" where
  "with_audit_sink sink mode S = S\<lparr>sp_audit := Some (audit_config_new sink mode)\<rparr>"

definition record_audit :: "'i security_providers \<Rightarrow> 'i audit_event \<Rightarrow> 'i trail \<Rightarrow> unit result \<times> 'i trail" where
  "record_audit S ev tr = (case sp_audit S of None \<Rightarrow> (Inr (), tr) | Some a \<Rightarrow> audit_record a ev tr)"

definition authenticate :: "'i security_providers \<Rightarrow> credentials \<Rightarrow> 'i trail \<Rightarrow> 'i session result \<times> 'i trail" where
  "authenticate S c tr =
     (case sp_authenticator S c of
        Inl e \<Rightarrow> (Inl e, tr)
      | Inr None \<Rightarrow>
          (case record_audit S AuthenticationFailed tr of
             (Inl e, tr1) \<Rightarrow> (Inl e, tr1)
           | (Inr _, tr1) \<Rightarrow> (Inl AuthenticationDenied, tr1))
      | Inr (Some identity) \<Rightarrow>
          (case sp_authorizor S identity of
             Inl e \<Rightarrow> (Inl e, tr)
           | Inr auths \<Rightarrow>
               (case record_audit S (AuthenticationSucceeded identity) tr of
                  (Inl e, tr1) \<Rightarrow> (Inl e, tr1)
                | (Inr _, tr1) \<Rightarrow> (Inr \<lparr>se_identity = identity, se_auths = auths\<rparr>, tr1))))"

definition check_keyspace_permission ::
    "'i security_providers \<Rightarrow> 'i \<Rightarrow> rstr \<Rightarrow> keyspace_permission \<Rightarrow> 'i trail \<Rightarrow> unit result \<times> 'i trail" where
  "check_keyspace_permission S identity keyspace perm tr =
     (if has_keyspace_permission (sp_permission_handler S) identity keyspace perm
      then case record_audit S (KeyspaceAccess identity keyspace) tr of
             (Inl e, tr1) \<Rightarrow> (Inl e, tr1)
           | (Inr _, tr1) \<Rightarrow> (Inr (), tr1)
      else case record_audit S (AuthorizationDenied identity keyspace) tr of
             (Inl e, tr1) \<Rightarrow> (Inl e, tr1)
           | (Inr _, tr1) \<Rightarrow> (Inl (PermissionDenied (permission_as_str perm)), tr1))"

section \<open>Static providers\<close>

type_synonym 'i static_authenticator = "(rstr \<times> (bytes \<times> 'i)) list"

definition static_authenticator_new :: "'i static_authenticator" where
  "static_authenticator_new = []"

definition with_principal ::
    "rstr \<Rightarrow> bytes \<Rightarrow> 'i \<Rightarrow> 'i static_authenticator \<Rightarrow> 'i static_authenticator" where
  "with_principal p secret identity a = btree_insert p (secret, identity) a"

definition static_authenticate :: "'i static_authenticator \<Rightarrow> credentials \<Rightarrow> 'i option result" where
  "static_authenticate a c =
     Inr (case map_of a (cr_principal c) of
            None \<Rightarrow> None
          | Some (secret, identity) \<Rightarrow> if secret = cr_secret c then Some identity else None)"

definition allow_all_permissions :: "'i permission_handler" where
  "allow_all_permissions = \<lparr>has_system_permission = (\<lambda>_ _. True), has_keyspace_permission = (\<lambda>_ _ _. True)\<rparr>"

record static_permissions =
  st_system_permissions :: "system_permission list"
  st_keyspace_permissions :: "(rstr \<times> keyspace_permission list) list"

definition static_permissions_new :: static_permissions where
  "static_permissions_new = \<lparr>st_system_permissions = [], st_keyspace_permissions = []\<rparr>"

definition with_system_permission :: "system_permission \<Rightarrow> static_permissions \<Rightarrow> static_permissions" where
  "with_system_permission p h = h\<lparr>st_system_permissions := btset_insert p (st_system_permissions h)\<rparr>"

definition with_keyspace_permission ::
    "rstr \<Rightarrow> keyspace_permission \<Rightarrow> static_permissions \<Rightarrow> static_permissions" where
  "with_keyspace_permission keyspace p h =
     (let m = st_keyspace_permissions h;
          ps = (case map_of m keyspace of None \<Rightarrow> [] | Some ps \<Rightarrow> ps)
      in h\<lparr>st_keyspace_permissions := btree_insert keyspace (btset_insert p ps) m\<rparr>)"

definition static_permission_handler :: "static_permissions \<Rightarrow> 'i permission_handler" where
  "static_permission_handler h =
     \<lparr>has_system_permission = (\<lambda>_ p. p \<in> set (st_system_permissions h)),
      has_keyspace_permission = (\<lambda>_ keyspace p.
        case map_of (st_keyspace_permissions h) keyspace of None \<Rightarrow> False | Some ps \<Rightarrow> p \<in> set ps)\<rparr>"

definition static_authorizations :: "authorizations \<Rightarrow> 'i \<Rightarrow> authorizations result" where
  "static_authorizations auths _ = Inr auths"

section \<open>Properties\<close>

text \<open>The events offered to the sink by one audited step: none without a sink.\<close>

definition offered :: "'i security_providers \<Rightarrow> 'i audit_event \<Rightarrow> 'i trail" where
  "offered S ev = (if sp_audit S = None then [] else [ev])"

definition audit_refused :: "'i security_providers \<Rightarrow> 'i audit_event \<Rightarrow> 'i trail \<Rightarrow> bool" where
  "audit_refused S ev tr \<longleftrightarrow>
     (case sp_audit S of None \<Rightarrow> False | Some a \<Rightarrow> ac_failure_mode a = FailClosed \<and> is_err (ac_sink a tr ev))"

lemma record_audit_eq:
  "record_audit S ev tr =
     (if audit_refused S ev tr then Inl (Audit ''audit sink failed'') else Inr (), tr @ offered S ev)"
  by (cases "sp_audit S")
    (auto simp: record_audit_def audit_record_def audit_refused_def offered_def is_err_def
      split: sum.splits audit_failure_mode.splits intro: audit_failure_mode.exhaust)

lemma check_eq:
  "check_keyspace_permission S i ks p tr =
     (let ok = has_keyspace_permission (sp_permission_handler S) i ks p;
          ev = (if ok then KeyspaceAccess i ks else AuthorizationDenied i ks)
      in (if audit_refused S ev tr then Inl (Audit ''audit sink failed'')
          else if ok then Inr () else Inl (PermissionDenied (permission_as_str p)), tr @ offered S ev))"
  by (simp add: check_keyspace_permission_def record_audit_eq Let_def)

text \<open>A session is returned exactly if the authenticator yields its identity, the authorizor
  yields its labels for that identity and, in the fail-closed mode, the sink has taken the success
  event.\<close>

lemma authenticate_exact:
  "fst (authenticate S c tr) = Inr s \<longleftrightarrow>
     sp_authenticator S c = Inr (Some (se_identity s)) \<and> sp_authorizor S (se_identity s) = Inr (se_auths s) \<and>
     \<not> audit_refused S (AuthenticationSucceeded (se_identity s)) tr"
  by (auto simp: authenticate_def record_audit_eq split: sum.splits option.splits)

text \<open>The static permission handler grants to every identity exactly the permissions added to
  it, whatever the order and the repetition of the grants.\<close>

lemma static_permissions_exact:
  "has_keyspace_permission (static_permission_handler
       (fold (\<lambda>(ks, p). with_keyspace_permission ks p) grants static_permissions_new)) i ks p \<longleftrightarrow> (ks, p) \<in> set grants"
proof -
  have "has_keyspace_permission (static_permission_handler (fold (\<lambda>(ks, p). with_keyspace_permission ks p) grants h)) i ks p
      \<longleftrightarrow> (ks, p) \<in> set grants \<or> has_keyspace_permission (static_permission_handler h) i ks p" for h
    by (induction grants arbitrary: h)
      (auto simp: static_permission_handler_def with_keyspace_permission_def Let_def split: option.splits if_splits)
  then show ?thesis by (simp add: static_permissions_new_def static_permission_handler_def)
qed

end
