(* ===== verification/Retention.thy ===== *)
theory Retention
  imports Composite Providers
begin

text \<open>
  \<open>src/secure/policy.rs\<close>: retention policies and the compaction filter that enforces them.

  The engine offers the filter the items of a compaction in key order; \<open>filter_item\<close> is one call
  and \<open>run_filter\<close> is a compaction.  The clock and the sink of the audit events are parameters.
  A \<open>Duration\<close> is its whole seconds and nanoseconds.
\<close>

section \<open>Operations\<close>

record duration =
  du_secs :: u64
  du_nanos :: u32

definition duration_is_zero :: "duration \<Rightarrow> bool" where
  "duration_is_zero d = (du_secs d = 0 \<and> du_nanos d = 0)"

record retention_policy =
  rp_max_versions :: "u64 option"
  rp_ttl :: "duration option"

definition retention_validate :: "retention_policy \<Rightarrow> unit result" where
  "retention_validate p =
     (if rp_max_versions p = Some 0 then Inl (InvalidPolicy ''max_versions must be greater than zero'')
      else if (case rp_ttl p of None \<Rightarrow> False | Some ttl \<Rightarrow> duration_is_zero ttl)
      then Inl (InvalidPolicy ''ttl must be greater than zero'')
      else Inr ())"

record 'i compaction_policy =
  sc_logical_keyspace :: rstr
  sc_retention :: retention_policy
  sc_audit :: "'i audit_config option"

definition compaction_policy_new ::
    "rstr \<Rightarrow> retention_policy \<Rightarrow> 'i audit_config option \<Rightarrow> 'i compaction_policy result" where
  "compaction_policy_new keyspace retention audit =
     bind_r (retention_validate retention) (\<lambda>_.
       Inr \<lparr>sc_logical_keyspace = keyspace, sc_retention = retention, sc_audit = audit\<rparr>)"

record version_group =
  vg_row :: bytes
  vg_family :: bytes
  vg_qualifier :: bytes
  vg_visibility :: bytes

definition version_group_from :: "composite_key \<Rightarrow> version_group" where
  "version_group_from k =
     \<lparr>vg_row = row k, vg_family = family k, vg_qualifier = qualifier k, vg_visibility = visibility k\<rparr>"

record 'i retention_filter =
  rf_policy :: "'i compaction_policy"
  rf_current_group :: "version_group option"
  rf_versions_seen :: u64
  rf_now :: i64

text \<open>Seconds since the epoch, \<open>None\<close> for a clock set before it.\<close>

definition unix_seconds_now :: "u64 option \<Rightarrow> i64" where
  "unix_seconds_now clock =
     (let seconds = (case clock of None \<Rightarrow> 0 | Some s \<Rightarrow> s)
      in if unat seconds < 2 ^ 63 then seconds else 0x7FFFFFFFFFFFFFFF)"

definition make_filter :: "'i compaction_policy \<Rightarrow> u64 option \<Rightarrow> 'i retention_filter" where
  "make_filter policy clock =
     \<lparr>rf_policy = policy, rf_current_group = None, rf_versions_seen = 0, rf_now = unix_seconds_now clock\<rparr>"

text \<open>\<open>i64::saturating_sub\<close>.\<close>

definition saturating_sub :: "i64 \<Rightarrow> i64 \<Rightarrow> i64" where
  "saturating_sub a b =
     (let d = sint a - sint b
      in if d < - (2 ^ 63) then 0x8000000000000000 else if 2 ^ 63 \<le> d then 0x7FFFFFFFFFFFFFFF else of_int d)"

definition is_expired :: "'i retention_filter \<Rightarrow> i64 \<Rightarrow> bool" where
  "is_expired f ts =
     (case rp_ttl (sc_retention (rf_policy f)) of
        None \<Rightarrow> False
      | Some ttl \<Rightarrow>
          if unat (du_secs ttl) < 2 ^ 63 then sint ts \<le> sint (saturating_sub (rf_now f) (du_secs ttl)) else False)"

definition audit_delete ::
    "'i retention_filter \<Rightarrow> compaction_delete_reason \<Rightarrow> 'i trail \<Rightarrow> unit result \<times> 'i trail" where
  "audit_delete f reason tr =
     (case sc_audit (rf_policy f) of
        None \<Rightarrow> (Inr (), tr)
      | Some a \<Rightarrow> audit_record a (CompactionDeleted (sc_logical_keyspace (rf_policy f)) reason) tr)"

definition to_lsm_error :: "error \<Rightarrow> lsm_error" where
  "to_lsm_error e = LsmUnrecoverable"

datatype verdict = Keep | VerdictRemove

definition filter_item ::
    "'i retention_filter \<Rightarrow> bytes \<Rightarrow> 'i trail \<Rightarrow> (lsm_error + verdict) \<times> 'i retention_filter \<times> 'i trail" where
  "filter_item f raw tr =
     (case composite_decode raw of
        Inl e \<Rightarrow> (Inl (to_lsm_error e), f, tr)
      | Inr key \<Rightarrow>
          let group = version_group_from key;
              f1 = (if rf_current_group f \<noteq> Some group
                    then f\<lparr>rf_current_group := Some group, rf_versions_seen := 0\<rparr> else f);
              f2 = f1\<lparr>rf_versions_seen := rf_versions_seen f1 + 1\<rparr>
          in if (case rp_max_versions (sc_retention (rf_policy f2)) of None \<Rightarrow> False | Some m \<Rightarrow> rf_versions_seen f2 > m)
             then case audit_delete f2 MaxVersions tr of
                    (Inl e, tr1) \<Rightarrow> (Inl (to_lsm_error e), f2, tr1)
                  | (Inr _, tr1) \<Rightarrow> (Inr VerdictRemove, f2, tr1)
             else if is_expired f2 (timestamp key)
             then case audit_delete f2 Ttl tr of
                    (Inl e, tr1) \<Rightarrow> (Inl (to_lsm_error e), f2, tr1)
                  | (Inr _, tr1) \<Rightarrow> (Inr VerdictRemove, f2, tr1)
             else (Inr Keep, f2, tr))"

text \<open>A compaction: the filter is asked for each item in turn and an error stops it.\<close>

fun run_filter ::
    "'i retention_filter \<Rightarrow> bytes list \<Rightarrow> 'i trail \<Rightarrow> (lsm_error + verdict list) \<times> 'i trail" where
  "run_filter f [] tr = (Inr [], tr)"
| "run_filter f (k # ks) tr =
     (case filter_item f k tr of
        (Inl e, _, tr1) \<Rightarrow> (Inl e, tr1)
      | (Inr v, f1, tr1) \<Rightarrow>
          (case run_filter f1 ks tr1 of
             (Inl e, tr2) \<Rightarrow> (Inl e, tr2)
           | (Inr vs, tr2) \<Rightarrow> (Inr (v # vs), tr2)))"

section \<open>Groups in key order\<close>

definition group_order :: "composite_key \<Rightarrow> bytes \<times> bytes \<times> bytes \<times> bytes" where
  "group_order k = (row k, family k, qualifier k, visibility k)"

lemma version_group_eq: "version_group_from a = version_group_from b \<longleftrightarrow> group_order a = group_order b"
  by (auto simp: version_group_from_def group_order_def)

lemma key_bytes_group_le: "key_bytes a < key_bytes b \<Longrightarrow> group_order a \<le> group_order b"
  by (auto simp: key_bytes_less cell_order_def group_order_def less_prod_simp less_eq_prod_simp)

lemma key_bytes_same_group:
  "group_order a = group_order b \<Longrightarrow> key_bytes a < key_bytes b \<longleftrightarrow> sint (timestamp b) < sint (timestamp a)"
  by (auto simp: key_bytes_less cell_order_def group_order_def less_prod_simp)

text \<open>The keys before \<open>k\<close> of its group.\<close>

definition earlier :: "composite_key list \<Rightarrow> composite_key \<Rightarrow> nat" where
  "earlier pre k = length (filter (\<lambda>x. version_group_from x = version_group_from k) pre)"

lemma earlier_new_group:
  assumes "sorted_wrt (<) (map key_bytes (pre @ [k]))" "pre \<noteq> []" "version_group_from (last pre) \<noteq> version_group_from k"
  shows "earlier pre k = 0"
proof -
  have "version_group_from x \<noteq> version_group_from k" if x: "x \<in> set pre" for x
  proof
    assume same: "version_group_from x = version_group_from k"
    have "key_bytes (last pre) < key_bytes k" using assms(1,2) by (simp add: sorted_wrt_append)
    then have "group_order (last pre) \<le> group_order k" by (rule key_bytes_group_le)
    moreover have "x = last pre \<or> key_bytes x < key_bytes (last pre)"
      using assms(1,2) x by (cases pre rule: rev_cases) (auto simp: sorted_wrt_append)
    then have "group_order x \<le> group_order (last pre)" using key_bytes_group_le by auto
    ultimately show False using same assms(3) by (simp add: version_group_eq)
  qed
  then show ?thesis by (simp add: earlier_def filter_empty_conv)
qed

section \<open>The filter\<close>

definition filter_inv :: "'i retention_filter \<Rightarrow> composite_key list \<Rightarrow> 'i retention_filter \<Rightarrow> bool" where
  "filter_inv f0 pre f \<longleftrightarrow> rf_policy f = rf_policy f0 \<and> rf_now f = rf_now f0 \<and>
     (if pre = [] then rf_current_group f = None
      else rf_current_group f = Some (version_group_from (last pre)) \<and>
        unat (rf_versions_seen f) = earlier pre (last pre))"

definition over_limit :: "retention_policy \<Rightarrow> nat \<Rightarrow> bool" where
  "over_limit p n = (case rp_max_versions p of None \<Rightarrow> False | Some m \<Rightarrow> unat m < n)"

lemma filter_item_step:
  assumes inv: "filter_inv f0 pre f" and sorted: "sorted_wrt (<) (map key_bytes (pre @ [k]))"
    and len: "length pre < 2 ^ 64 - 1" and run: "filter_item f (key_bytes k) tr = (Inr v, f1, tr1)"
  shows "filter_inv f0 (pre @ [k]) f1"
    and "v = Keep \<longleftrightarrow> \<not> over_limit (sc_retention (rf_policy f0)) (Suc (earlier pre k)) \<and> \<not> is_expired f0 (timestamp k)"
proof -
  define g where "g = (if rf_current_group f \<noteq> Some (version_group_from k)
    then f\<lparr>rf_current_group := Some (version_group_from k), rf_versions_seen := 0\<rparr> else f)"
  define h where "h = g\<lparr>rf_versions_seen := rf_versions_seen g + 1\<rparr>"
  have "unat (rf_versions_seen g) = earlier pre k"
  proof (cases "pre = []")
    case True
    then show ?thesis using inv by (simp add: g_def filter_inv_def earlier_def)
  next
    case False
    then show ?thesis
      using inv earlier_new_group [OF sorted False] by (auto simp: g_def filter_inv_def earlier_def)
  qed
  moreover have "earlier pre k \<le> length pre" by (simp add: earlier_def)
  ultimately have "rf_versions_seen g \<noteq> - 1" "unat (rf_versions_seen g) = earlier pre k"
    using len by (auto simp: unat_seqno_max)
  then have seen: "unat (rf_versions_seen h) = Suc (earlier pre k)"
    by (simp add: h_def unat_Suc_seqno)
  have h: "rf_policy h = rf_policy f0" "rf_now h = rf_now f0" "rf_current_group h = Some (version_group_from k)"
    using inv by (auto simp: h_def g_def filter_inv_def)
  have exp: "is_expired h ts = is_expired f0 ts" for ts by (simp add: is_expired_def h(1,2) split: option.split)
  have over: "(case rp_max_versions (sc_retention (rf_policy h)) of None \<Rightarrow> False | Some m \<Rightarrow> rf_versions_seen h > m)
      = over_limit (sc_retention (rf_policy f0)) (Suc (earlier pre k))"
    using h seen by (simp add: over_limit_def word_less_nat_alt split: option.split)
  note r = run [unfolded filter_item_def composite_decode_key_bytes sum.case Let_def g_def [symmetric] h_def [symmetric] over exp]
  have "f1 = h" using r by (auto split: if_splits prod.splits sum.splits)
  then show "filter_inv f0 (pre @ [k]) f1" using h seen by (simp add: filter_inv_def earlier_def)
  show "v = Keep \<longleftrightarrow> \<not> over_limit (sc_retention (rf_policy f0)) (Suc (earlier pre k)) \<and> \<not> is_expired f0 (timestamp k)"
    using r by (auto split: if_splits prod.splits sum.splits)
qed

text \<open>The verdicts of a compaction over sorted keys, by the number of earlier keys of the group.\<close>

lemma run_filter_verdicts:
  assumes "filter_inv f0 pre f" "sorted_wrt (<) (map key_bytes (pre @ ks))" "length (pre @ ks) < 2 ^ 64"
    and "run_filter f (map key_bytes ks) tr = (Inr vs, tr')"
  shows "length vs = length ks \<and> (\<forall>i<length ks. vs ! i = Keep \<longleftrightarrow>
    \<not> over_limit (sc_retention (rf_policy f0)) (Suc (earlier (pre @ take i ks) (ks ! i))) \<and> \<not> is_expired f0 (timestamp (ks ! i)))"
  using assms
proof (induction ks arbitrary: pre f tr vs)
  case (Cons k ks)
  obtain v f1 tr1 where item: "filter_item f (key_bytes k) tr = (Inr v, f1, tr1)"
    using Cons.prems(4) by (auto split: prod.splits sum.splits)
  then obtain us where rest: "run_filter f1 (map key_bytes ks) tr1 = (Inr us, tr')" "vs = v # us"
    using Cons.prems(4) by (auto split: prod.splits sum.splits)
  have sorted: "sorted_wrt (<) (map key_bytes (pre @ [k]))" "length pre < 2 ^ 64 - 1"
    using Cons.prems(2,3) by (auto simp: sorted_wrt_append)
  note step = filter_item_step [OF Cons.prems(1) sorted item]
  have "sorted_wrt (<) (map key_bytes ((pre @ [k]) @ ks))" "length ((pre @ [k]) @ ks) < 2 ^ 64"
    using Cons.prems(2,3) by simp_all
  note IH = Cons.IH [OF step(1) this rest(1)]
  show ?case
  proof (intro conjI allI impI)
    show "length vs = length (k # ks)" using IH rest(2) by simp
    fix i assume i: "i < length (k # ks)"
    show "vs ! i = Keep \<longleftrightarrow> \<not> over_limit (sc_retention (rf_policy f0)) (Suc (earlier (pre @ take i (k # ks)) ((k # ks) ! i)))
        \<and> \<not> is_expired f0 (timestamp ((k # ks) ! i))"
      using step(2) IH i rest(2) by (cases i) simp_all
  qed
qed simp

lemma earlier_newer:
  assumes "sorted_wrt (<) (map key_bytes (pre @ k # post))"
  shows "earlier pre k = card {x \<in> set (pre @ k # post). version_group_from x = version_group_from k \<and>
    sint (timestamp k) < sint (timestamp x)}"
proof -
  have s: "\<forall>x\<in>set pre. key_bytes x < key_bytes k" "\<forall>x\<in>set post. key_bytes k < key_bytes x"
    using assms by (simp_all add: sorted_wrt_append)
  have "distinct (map key_bytes (pre @ k # post))" using assms unfolding strict_sorted_iff by blast
  then have dist: "distinct (filter (\<lambda>x. version_group_from x = version_group_from k) pre)"
    by (simp add: distinct_map)
  have "x \<in> set pre \<and> version_group_from x = version_group_from k \<longleftrightarrow>
      x \<in> set (pre @ k # post) \<and> version_group_from x = version_group_from k \<and> sint (timestamp k) < sint (timestamp x)" for x
  proof (cases "version_group_from x = version_group_from k")
    case True
    then have "key_bytes x < key_bytes k \<longleftrightarrow> sint (timestamp k) < sint (timestamp x)"
      by (intro key_bytes_same_group) (simp add: version_group_eq)
    then show ?thesis using s less_asym by auto
  qed simp
  then have "set (filter (\<lambda>x. version_group_from x = version_group_from k) pre) =
      {x \<in> set (pre @ k # post). version_group_from x = version_group_from k \<and> sint (timestamp k) < sint (timestamp x)}"
    by auto
  then show ?thesis using distinct_card [OF dist] by (simp add: earlier_def)
qed

section \<open>Expiry\<close>

lemma sint_nonneg_small:
  assumes "unat (w :: i64) < 2 ^ 63"
  shows "sint w = int (unat w)"
proof -
  have "int (unat w) < 2 ^ 63" using assms by (metis of_nat_less_iff of_nat_numeral of_nat_power)
  then have "uint w < 2 ^ 63" by simp
  then have "signed_take_bit 63 (uint w) = uint w"
    by (intro signed_take_bit_int_eq_self) (simp_all add: order_trans [of _ 0])
  then show ?thesis by (simp add: sint_uint)
qed

lemma sint_word_of_int: "- (2 ^ 63) \<le> d \<Longrightarrow> d < 2 ^ 63 \<Longrightarrow> sint (word_of_int d :: i64) = d"
  by (simp add: signed_of_int signed_take_bit_int_eq_self)

lemma now_range: "0 \<le> sint (unix_seconds_now clock)"
  by (auto simp: unix_seconds_now_def Let_def sint_nonneg_small split: option.split)

lemma sint_range: "- (2 ^ 63) \<le> sint (w :: i64)" "sint (w :: i64) < 2 ^ 63"
  using sint_ge [of w] sint_lt [of w] by simp_all

lemma is_expired_eq:
  assumes "0 \<le> sint (rf_now f)"
  shows "is_expired f ts \<longleftrightarrow> (\<exists>ttl. rp_ttl (sc_retention (rf_policy f)) = Some ttl \<and> unat (du_secs ttl) < 2 ^ 63 \<and>
    sint ts \<le> sint (rf_now f) - int (unat (du_secs ttl)))"
proof -
  have sat: "sint (saturating_sub (rf_now f) (du_secs ttl)) = sint (rf_now f) - int (unat (du_secs ttl))"
    if small: "unat (du_secs ttl) < 2 ^ 63" for ttl
  proof -
    define d where "d = sint (rf_now f) - int (unat (du_secs ttl))"
    have secs: "sint (du_secs ttl) = int (unat (du_secs ttl))" by (rule sint_nonneg_small [OF small])
    then have "0 \<le> sint (du_secs ttl)" "sint (du_secs ttl) < 2 ^ 63" using sint_range(2) [of "du_secs ttl"] by linarith+
    then have "- (2 ^ 63) \<le> d" "d < 2 ^ 63" unfolding d_def secs [symmetric] using assms sint_range [of "rf_now f"] by linarith+
    moreover from this have "saturating_sub (rf_now f) (du_secs ttl) = word_of_int d"
      unfolding saturating_sub_def Let_def secs d_def [symmetric] by simp
    ultimately show ?thesis unfolding d_def [symmetric] using sint_word_of_int by simp
  qed
  show ?thesis
  proof (cases "rp_ttl (sc_retention (rf_policy f))")
    case (Some ttl)
    then show ?thesis using sat [of ttl] by (cases "unat (du_secs ttl) < 2 ^ 63") (simp_all add: is_expired_def)
  qed (simp add: is_expired_def)
qed

section \<open>Properties\<close>


lemma filter_item_trail:
  assumes "sc_audit (rf_policy f) = Some a" "filter_item f k tr = (r, f1, tr1)"
  shows "rf_policy f1 = rf_policy f"
    and "r = Inr Keep \<Longrightarrow> tr1 = tr"
    and "r = Inr VerdictRemove \<Longrightarrow> \<exists>reason. tr1 = tr @ [CompactionDeleted (sc_logical_keyspace (rf_policy f)) reason] \<and>
      (is_err (ac_sink a tr (CompactionDeleted (sc_logical_keyspace (rf_policy f)) reason)) \<longrightarrow> ac_failure_mode a = BestEffort)"
    and "r = Inl e \<Longrightarrow> e = LsmUnrecoverable \<and>
      (tr1 = tr \<or> (\<exists>reason. tr1 = tr @ [CompactionDeleted (sc_logical_keyspace (rf_policy f)) reason]))"
  using assms
  by (auto simp: to_lsm_error_def filter_item_def Let_def audit_delete_def audit_record_def is_err_def
      split: sum.splits if_splits prod.splits audit_failure_mode.splits)

text \<open>C40: with a sink installed, a compaction offers it exactly one deletion event per removed item,
  in order; in the fail-closed mode an item is only removed if the sink has taken its event, and
  otherwise the compaction stops with an error.\<close>

theorem retention_audits_removals:
  assumes "sc_audit (rf_policy f) = Some a" "run_filter f ks tr = (r, tr')"
  shows "\<exists>evs. tr' = tr @ evs \<and> (\<forall>e\<in>set evs. \<exists>reason. e = CompactionDeleted (sc_logical_keyspace (rf_policy f)) reason) \<and>
    (case r of Inl e \<Rightarrow> e = LsmUnrecoverable
     | Inr vs \<Rightarrow> length evs = length (filter (\<lambda>v. v = VerdictRemove) vs) \<and>
        (ac_failure_mode a = FailClosed \<longrightarrow> (\<forall>j<length evs. \<not> is_err (ac_sink a (tr @ take j evs) (evs ! j)))))"
  using assms
proof (induction ks arbitrary: f tr r tr')
  case (Cons k ks)
  let ?del = "\<lambda>reason. CompactionDeleted (sc_logical_keyspace (rf_policy f)) reason"
  obtain x f1 tr1 where item: "filter_item f k tr = (x, f1, tr1)" by (metis prod_cases3)
  note trail = filter_item_trail [OF Cons.prems(1) item]
  show ?case
  proof (cases x)
    case (Inl e)
    then have "e = LsmUnrecoverable" "\<exists>evs. tr1 = tr @ evs \<and> (\<forall>e\<in>set evs. \<exists>reason. e = ?del reason)"
      using trail(4) by auto
    then show ?thesis using Inl item Cons.prems(2) by auto
  next
    case (Inr v)
    obtain q where rest: "run_filter f1 ks tr1 = (q, tr')" "r = map_r (Cons v) q"
      using Cons.prems(2) item Inr by (auto simp: map_r_def split: prod.splits sum.splits)
    obtain evs where evs: "tr' = tr1 @ evs" "\<forall>e\<in>set evs. \<exists>reason. e = ?del reason"
      "case q of Inl e \<Rightarrow> e = LsmUnrecoverable
       | Inr vs \<Rightarrow> length evs = length (filter (\<lambda>v. v = VerdictRemove) vs) \<and>
          (ac_failure_mode a = FailClosed \<longrightarrow> (\<forall>j<length evs. \<not> is_err (ac_sink a (tr1 @ take j evs) (evs ! j))))"
      using Cons.IH [of f1, unfolded trail(1), OF Cons.prems(1) rest(1)] by auto
    show ?thesis
    proof (cases v)
      case Keep
      then show ?thesis using evs rest(2) trail(2) Inr by (cases q) auto
    next
      case VerdictRemove
      then obtain reason where rm: "tr1 = tr @ [?del reason]"
          "is_err (ac_sink a tr (?del reason)) \<longrightarrow> ac_failure_mode a = BestEffort"
        using trail(3) Inr by blast
      have "\<not> is_err (ac_sink a (tr @ take j (?del reason # evs)) ((?del reason # evs) ! j))"
        if "ac_failure_mode a = FailClosed" "j < Suc (length evs)" "q = Inr vs" for j vs
        using that evs(3) rm by (cases j) auto
      then show ?thesis
        using evs rest(2) rm VerdictRemove
        by (intro exI [of _ "?del reason # evs"]) (cases q; simp)
    qed
  qed
qed auto

text \<open>A compaction of three versions of one cell and one of another, with at most two versions kept.\<close>

definition sample_keys :: "composite_key list" where
  "sample_keys = map (\<lambda>(q, t). \<lparr>row = [97], family = [], qualifier = q, visibility = [], timestamp = t\<rparr>)
     [([], 9), ([], 7), ([], 5), ([98], 2)]"

definition sample_policy :: "nat compaction_policy" where
  "sample_policy = \<lparr>sc_logical_keyspace = [101], sc_retention = \<lparr>rp_max_versions = Some 2, rp_ttl = None\<rparr>,
     sc_audit = Some (audit_config_new (\<lambda>_ _. Inr ()) FailClosed)\<rparr>"

lemma sample_compaction:
  "run_filter (make_filter sample_policy None) (map key_bytes sample_keys) [] =
     (Inr [Keep, Keep, VerdictRemove, Keep], [CompactionDeleted [101] MaxVersions])"
  by (simp add: sample_keys_def make_filter_def sample_policy_def filter_item_def composite_decode_key_bytes Let_def
      version_group_from_def is_expired_def audit_delete_def audit_config_new_def audit_record_def)


theorem retention_audits_removals_witness:
  "\<exists>evs. [CompactionDeleted [101] MaxVersions] = [] @ evs \<and> length evs = 1 \<and>
     (\<forall>e\<in>set evs. \<exists>reason. e = CompactionDeleted (sc_logical_keyspace sample_policy) reason)"
proof -
  have "sc_audit (rf_policy (make_filter sample_policy None)) = Some (audit_config_new (\<lambda>_ _. Inr ()) FailClosed)"
    by (simp add: make_filter_def sample_policy_def)
  from retention_audits_removals [OF this sample_compaction] show ?thesis
    by (simp add: make_filter_def)
qed

end
