(* ===== verification/SecureKeyspace.thy ===== *)
theory SecureKeyspace
  imports Cell ValueCrypto Retention
begin

text \<open>
  \<open>src/secure/keyspace.rs\<close>: the keyspace handle that asks for a session.  Each operation checks a
  permission (which audits), then works on the raw keyspace underneath: writes accept only cells
  with a canonical visibility expression, reads return only cells the session may see.

  The operations pass the audit trail and the database along.
\<close>

section \<open>Operations\<close>

definition parse_visibility :: "bytes \<Rightarrow> visibility_expr result" where
  "parse_visibility b =
     (case utf8_decode b of
        None \<Rightarrow> Inl (InvalidVisibilityExpression ''visibility expression must be valid UTF-8'')
      | Some s \<Rightarrow> vis_parse s)"

definition canonicalize_cell :: "versioned_cell \<Rightarrow> versioned_cell result" where
  "canonicalize_cell vc =
     bind_r (parse_visibility (c_visibility (vc_cell vc))) (\<lambda>v.
       if vis_as_bytes v \<noteq> c_visibility (vc_cell vc)
       then Inl (InvalidVisibilityExpression ''secure writes require canonical visibility expressions'')
       else Inr vc)"

definition is_visible :: "bytes \<Rightarrow> authorizations \<Rightarrow> bool result" where
  "is_visible b auths = map_r (\<lambda>v. vis_evaluate v auths) (parse_visibility b)"

record 'i secure_keyspace =
  sk_inner :: u64
  sk_name :: rstr
  sk_security :: "'i security_providers"
  sk_encryption :: "value_encryption option"

definition secure_check ::
    "'i secure_keyspace \<Rightarrow> 'i session \<Rightarrow> keyspace_permission \<Rightarrow> 'i trail \<Rightarrow> unit result \<times> 'i trail" where
  "secure_check sk se p tr = check_keyspace_permission (sk_security sk) (se_identity se) (sk_name sk) p tr"

definition secure_insert_version ::
    "('t, 'm) engine \<Rightarrow> 'i secure_keyspace \<Rightarrow> 'i session \<Rightarrow> versioned_cell \<Rightarrow> bytes \<Rightarrow> 'i trail \<times> 't db
     \<Rightarrow> unit result \<times> 'i trail \<times> 't db" where
  "secure_insert_version E sk se vc value st =
     (case secure_check sk se PermWrite (fst st) of
        (Inl e, tr) \<Rightarrow> (Inl e, tr, snd st)
      | (Inr _, tr) \<Rightarrow>
          (case bind_r (canonicalize_cell vc) (\<lambda>canonical.
                bind_r (cell_encode canonical) (\<lambda>key.
                map_r (Pair key) (maybe_encrypt_value (sk_encryption sk) key value))) of
             Inl e \<Rightarrow> (Inl e, tr, snd st)
           | Inr (key, stored) \<Rightarrow>
               let (r, db) = keyspace_insert E (sk_inner sk) key stored (snd st) in (r, tr, db)))"

definition secure_get_version ::
    "('t, 'm) engine \<Rightarrow> 'i secure_keyspace \<Rightarrow> 'i session \<Rightarrow> versioned_cell \<Rightarrow> 'i trail \<times> 't db
     \<Rightarrow> bytes option result \<times> 'i trail \<times> 't db" where
  "secure_get_version E sk se vc st =
     (case secure_check sk se PermRead (fst st) of
        (Inl e, tr) \<Rightarrow> (Inl e, tr, snd st)
      | (Inr _, tr) \<Rightarrow>
          (bind_r (is_visible (c_visibility (vc_cell vc)) (se_auths se)) (\<lambda>seen.
             if \<not> seen then Inr None
             else bind_r (cell_encode vc) (\<lambda>key.
               bind_r (keyspace_get E (sk_inner sk) key (snd st)) (\<lambda>found.
                 case found of
                   None \<Rightarrow> Inr None
                 | Some stored \<Rightarrow> map_r Some (maybe_decrypt_entry (sk_encryption sk) key stored)))),
           tr, snd st))"

text \<open>The loop of \<open>scan_versioned_prefix\<close>.\<close>

fun secure_scan_guards ::
    "value_encryption option \<Rightarrow> authorizations \<Rightarrow> version_scan \<Rightarrow> guard list \<Rightarrow> versioned_entry list
     \<Rightarrow> versioned_entry list result" where
  "secure_scan_guards enc auths sc [] entries = Inr entries"
| "secure_scan_guards enc auths sc (g # gs) entries =
     bind_r (map_err Storage g) (\<lambda>(key, stored).
     bind_r (composite_decode key) (\<lambda>k.
       let vc = versioned_cell_from k
       in bind_r (if scan_includes sc (vc_timestamp vc) then is_visible (c_visibility (vc_cell vc)) auths else Inr False) (\<lambda>seen.
          bind_r (if seen then map_r (\<lambda>value. entries @ [\<lparr>ve_cell = vc, ve_value = value\<rparr>]) (maybe_decrypt_entry enc key stored)
                  else Inr entries) (\<lambda>entries'.
            if scan_is_satisfied_by sc (length entries') then Inr entries'
            else secure_scan_guards enc auths sc gs entries'))))"

definition secure_scan_versioned_prefix ::
    "('t, 'm) engine \<Rightarrow> (bytes \<Rightarrow> key_range) \<Rightarrow> 'i secure_keyspace \<Rightarrow> 'i session \<Rightarrow> composite_prefix \<Rightarrow> version_scan
     \<Rightarrow> 'i trail \<times> 't db \<Rightarrow> versioned_entry list result \<times> 'i trail \<times> 't db" where
  "secure_scan_versioned_prefix E pr sk se p sc st =
     (case secure_check sk se PermRead (fst st) of
        (Inl e, tr) \<Rightarrow> (Inl e, tr, snd st)
      | (Inr _, tr) \<Rightarrow>
          (case composite_prefix_range pr p of
             Inl e \<Rightarrow> (Inl e, tr, snd st)
           | Inr r \<Rightarrow>
               let (es, db) = over_range E (sk_inner sk) r
                     (\<lambda>gs. secure_scan_guards (sk_encryption sk) (se_auths se) sc gs []) (snd st)
               in (es, tr, db)))"

definition secure_delete_version ::
    "('t, 'm) engine \<Rightarrow> 'i secure_keyspace \<Rightarrow> 'i session \<Rightarrow> versioned_cell \<Rightarrow> 'i trail \<times> 't db
     \<Rightarrow> unit result \<times> 'i trail \<times> 't db" where
  "secure_delete_version E sk se vc st =
     (case secure_check sk se PermDelete (fst st) of
        (Inl e, tr) \<Rightarrow> (Inl e, tr, snd st)
      | (Inr _, tr) \<Rightarrow>
          (case bind_r (canonicalize_cell vc) cell_encode of
             Inl e \<Rightarrow> (Inl e, tr, snd st)
           | Inr key \<Rightarrow> let (r, db) = keyspace_remove E (sk_inner sk) key (snd st) in (r, tr, db)))"

section \<open>Visibility of stored cells\<close>

text \<open>A cell that the secure writes accept, and whether a session may see it.\<close>

definition canonical_cell :: "versioned_cell \<Rightarrow> bool" where
  "canonical_cell vc = (canonicalize_cell vc = Inr vc)"

definition visible_to :: "authorizations \<Rightarrow> versioned_cell \<Rightarrow> bool" where
  "visible_to auths vc = (is_visible (c_visibility (vc_cell vc)) auths = Inr True)"

definition secure_cells :: "(bytes \<Rightarrow> bytes option) \<Rightarrow> bool" where
  "secure_cells view \<longleftrightarrow> (\<forall>k v. view k = Some v \<longrightarrow> (\<exists>vc. canonical_cell vc \<and> k = cell_bytes vc))"

lemma secure_cells_only: "secure_cells view \<Longrightarrow> cells_only view"
  unfolding secure_cells_def cells_only_def by blast

lemma canonicalize_eq: "canonicalize_cell vc = Inr vc' \<longleftrightarrow> canonical_cell vc \<and> vc' = vc"
  by (auto simp: canonical_cell_def canonicalize_cell_def result_elims split: if_splits)

lemma canonical_visible:
  "canonical_cell vc \<Longrightarrow> is_visible (c_visibility (vc_cell vc)) auths = Inr (visible_to auths vc)"
  by (auto simp: canonical_cell_def canonicalize_cell_def result_elims visible_to_def is_visible_def split: if_splits)

lemma secure_cells_at: "secure_cells view \<Longrightarrow> view (cell_bytes vc) = Some v \<Longrightarrow> canonical_cell vc"
  unfolding secure_cells_def by (metis cell_bytes_inject)

lemma secure_cells_upd: "secure_cells view \<Longrightarrow> canonical_cell vc \<Longrightarrow> secure_cells (view(cell_bytes vc := x))"
  unfolding secure_cells_def by auto

section \<open>Calls\<close>

datatype secure_call =
    SecInsert versioned_cell bytes
  | SecDelete versioned_cell
  | SecGet versioned_cell
  | SecScan composite_prefix version_scan

datatype secure_answer = SecDone | SecFound "bytes option" | SecEntries "versioned_entry list"

fun secure_permission :: "secure_call \<Rightarrow> keyspace_permission" where
  "secure_permission (SecInsert vc v) = PermWrite"
| "secure_permission (SecDelete vc) = PermDelete"
| "secure_permission (SecGet vc) = PermRead"
| "secure_permission (SecScan p sc) = PermRead"

fun run_secure ::
    "('t, 'm) engine \<Rightarrow> (bytes \<Rightarrow> key_range) \<Rightarrow> 'i secure_keyspace \<Rightarrow> 'i session \<Rightarrow> secure_call \<Rightarrow> 'i trail \<times> 't db
     \<Rightarrow> secure_answer result \<times> 'i trail \<times> 't db" where
  "run_secure E pr sk se (SecInsert vc v) st = map_prod (map_r (\<lambda>_. SecDone)) id (secure_insert_version E sk se vc v st)"
| "run_secure E pr sk se (SecDelete vc) st = map_prod (map_r (\<lambda>_. SecDone)) id (secure_delete_version E sk se vc st)"
| "run_secure E pr sk se (SecGet vc) st = map_prod (map_r SecFound) id (secure_get_version E sk se vc st)"
| "run_secure E pr sk se (SecScan p sc) st =
     map_prod (map_r SecEntries) id (secure_scan_versioned_prefix E pr sk se p sc st)"

definition granted :: "'i secure_keyspace \<Rightarrow> 'i session \<Rightarrow> keyspace_permission \<Rightarrow> bool" where
  "granted sk se p = has_keyspace_permission (sp_permission_handler (sk_security sk)) (se_identity se) (sk_name sk) p"

definition check_event :: "'i secure_keyspace \<Rightarrow> 'i session \<Rightarrow> keyspace_permission \<Rightarrow> 'i audit_event" where
  "check_event sk se p =
     (if granted sk se p then KeyspaceAccess (se_identity se) (sk_name sk)
      else AuthorizationDenied (se_identity se) (sk_name sk))"

lemma secure_check_eq:
  "secure_check sk se p tr =
     (if audit_refused (sk_security sk) (check_event sk se p) tr then Inl (Audit ''audit sink failed'')
      else if granted sk se p then Inr () else Inl (PermissionDenied (permission_as_str p)),
      tr @ offered (sk_security sk) (check_event sk se p))"
  by (simp add: secure_check_def check_eq granted_def check_event_def Let_def)

lemma run_secure_refused:
  "secure_check sk se (secure_permission c) tr = (Inl e, tr') \<Longrightarrow> run_secure E pr sk se c (tr, db) = (Inl e, tr', db)"
  by (cases c)
    (simp_all add: secure_insert_version_def secure_delete_version_def secure_get_version_def secure_scan_versioned_prefix_def)

section \<open>Scans\<close>

abbreviation guards :: "(versioned_cell \<times> bytes) list \<Rightarrow> guard list" where
  "guards xs \<equiv> map (\<lambda>(vc, v). Inr (cell_bytes vc, v)) xs"

definition selected :: "authorizations \<Rightarrow> version_scan \<Rightarrow> versioned_cell \<Rightarrow> bool" where
  "selected auths sc vc = (scan_includes sc (vc_timestamp vc) \<and> visible_to auths vc)"

text \<open>Cells that are not selected leave no trace in the result.\<close>

lemma secure_scan_skip:
  assumes "\<forall>(vc, v)\<in>set xs. canonical_cell vc" "\<not> scan_is_satisfied_by sc (length es)"
  shows "secure_scan_guards enc auths sc (guards xs) es =
    secure_scan_guards enc auths sc (guards (filter (\<lambda>x. selected auths sc (fst x)) xs)) es"
  using assms
proof (induction xs arbitrary: es)
  case (Cons x xs)
  obtain vc v where x: "x = (vc, v)" by (cases x)
  have vis: "is_visible (c_visibility (vc_cell vc)) auths = Inr (visible_to auths vc)"
    using Cons.prems(1) canonical_visible by (simp add: x)
  have IH: "secure_scan_guards enc auths sc (guards xs) es =
      secure_scan_guards enc auths sc (guards (filter (\<lambda>x. selected auths sc (fst x)) xs)) es"
    if "\<not> scan_is_satisfied_by sc (length es)" for es
    using Cons.IH [OF _ that] Cons.prems(1) by simp
  show ?case
  proof (cases "selected auths sc vc")
    case False
    then show ?thesis
      using Cons.prems(2) vis IH by (auto simp: x selected_def Let_def)
  next
    case True
    then show ?thesis
      using IH vis by (cases "maybe_decrypt_entry enc (cell_bytes vc) v") (simp_all add: x selected_def Let_def)
  qed
qed simp

definition decrypted :: "value_encryption option \<Rightarrow> versioned_cell \<Rightarrow> bytes \<Rightarrow> bytes" where
  "decrypted enc vc v = projr (maybe_decrypt_entry enc (cell_bytes vc) v)"

lemma secure_scan_all:
  assumes "max_versions sc \<noteq> Some 0" "\<not> scan_is_satisfied_by sc (length es)"
    and "\<forall>(vc, v)\<in>set xs. canonical_cell vc \<and> selected auths sc vc \<and> is_ok (maybe_decrypt_entry enc (cell_bytes vc) v)"
  shows "secure_scan_guards enc auths sc (guards xs) es =
    Inr (scan_limit sc (es @ map (\<lambda>(vc, v). entry vc (decrypted enc vc v)) xs))"
  using assms(2,3)
proof (induction xs arbitrary: es)
  case Nil
  then show ?case by (auto simp: scan_limit_def scan_is_satisfied_by_def split: option.split)
next
  case (Cons x xs)
  obtain vc v where x: "x = (vc, v)" by (cases x)
  obtain d where d: "maybe_decrypt_entry enc (cell_bytes vc) v = Inr d"
    using Cons.prems(2) by (auto simp: x is_ok_def split: sum.splits)
  have vis: "is_visible (c_visibility (vc_cell vc)) auths = Inr True" "scan_includes sc (vc_timestamp vc)"
    using Cons.prems(2) canonical_visible [of vc] by (auto simp: x selected_def)
  let ?es = "es @ [entry vc d]"
  have step: "secure_scan_guards enc auths sc (guards (x # xs)) es =
      (if scan_is_satisfied_by sc (length ?es) then Inr ?es else secure_scan_guards enc auths sc (guards xs) ?es)"
    using vis d by (simp add: x entry_def Let_def)
  show ?case
  proof (cases "scan_is_satisfied_by sc (length ?es)")
    case True
    then have "max_versions sc = Some (Suc (length es))"
      using Cons.prems(1) by (auto simp: scan_is_satisfied_by_def split: option.splits)
    then show ?thesis using True step d by (simp add: x decrypted_def scan_limit_def)
  next
    case False
    then show ?thesis using Cons.IH [OF False] Cons.prems(2) step d by (simp add: x decrypted_def)
  qed
qed

lemma over_range_fst:
  "fst (over_range E h r f db) = f (tree_scan h (t_range (en_lsm E) r SEQNO_MAX None) db)"
  by (simp add: over_range_def keyspace_range_def with_nonce_def tree_scan_def Let_def split: prod.split)

lemma over_range_snd:
  "db_handles (snd (over_range E h r f db)) = db_handles db" "db_seqno (snd (over_range E h r f db)) = db_seqno db"
  "db_is_poisoned (snd (over_range E h r f db)) = db_is_poisoned db"
  by (simp_all add: over_range_def keyspace_range_def with_nonce_def iter_drop_def Let_def split: prod.split)

definition selects :: "(bytes \<Rightarrow> bool) \<Rightarrow> authorizations \<Rightarrow> version_scan \<Rightarrow> bytes \<Rightarrow> bool" where
  "selects P auths sc k = (P k \<and> (\<exists>vc. k = cell_bytes vc \<and> selected auths sc vc))"

lemma selects_cell [simp]: "selects P auths sc (cell_bytes vc) \<longleftrightarrow> P (cell_bytes vc) \<and> selected auths sc vc"
  by (auto simp: selects_def cell_bytes_inject)

lemma scans_guards:
  assumes "sorted_wrt (<) (map (\<lambda>x. cell_bytes (fst x)) xs)" "cells_only view"
    and "\<forall>vc v. (vc, v) \<in> set xs \<longleftrightarrow> P (cell_bytes vc) \<and> view (cell_bytes vc) = Some v"
  shows "scans P view (guards xs)"
  unfolding scans_def
proof (intro exI conjI allI)
  show "guards xs = map Inr (map (\<lambda>x. (cell_bytes (fst x), snd x)) xs)" by (simp add: case_prod_beta)
  show "sorted_wrt (<) (map fst (map (\<lambda>x. (cell_bytes (fst x), snd x)) xs))" using assms(1) by (simp add: comp_def)
  fix k v
  have "(k, v) \<in> set (map (\<lambda>x. (cell_bytes (fst x), snd x)) xs) \<longleftrightarrow> (\<exists>vc. k = cell_bytes vc \<and> (vc, v) \<in> set xs)"
    by force
  also have "\<dots> \<longleftrightarrow> P k \<and> view k = Some v"
    using assms(2,3) unfolding cells_only_def by metis
  finally show "(k, v) \<in> set (map (\<lambda>x. (cell_bytes (fst x), snd x)) xs) \<longleftrightarrow> P k \<and> view k = Some v" .
qed

lemma scans_cong: "scans P view gs \<Longrightarrow> (\<And>k. P k \<Longrightarrow> view k = view' k) \<Longrightarrow> scans P view' gs"
  unfolding scans_def by metis

text \<open>The scan of a view only depends on the cells it selects.\<close>

lemma secure_scan_view:
  assumes "scans P view gs" "secure_cells view" "max_versions sc \<noteq> Some 0"
  obtains xs where "secure_scan_guards enc auths sc gs [] = secure_scan_guards enc auths sc (guards xs) []"
    "scans (selects P auths sc) view (guards xs)"
    "\<forall>vc v. (vc, v) \<in> set xs \<longleftrightarrow> P (cell_bytes vc) \<and> selected auths sc vc \<and> view (cell_bytes vc) = Some v"
    "sorted_wrt (<) (map (\<lambda>x. cell_bytes (fst x)) xs)"
proof -
  obtain xs where xs: "gs = guards xs" "sorted_wrt (<) (map (\<lambda>x. cell_bytes (fst x)) xs)"
    "\<forall>vc v. (vc, v) \<in> set xs \<longleftrightarrow> P (cell_bytes vc) \<and> view (cell_bytes vc) = Some v"
    by (rule scans_cells [OF assms(1) secure_cells_only [OF assms(2)]])
  let ?ys = "filter (\<lambda>x. selected auths sc (fst x)) xs"
  have can: "\<forall>(vc, v)\<in>set xs. canonical_cell vc" using xs(3) secure_cells_at [OF assms(2)] by blast
  have "\<not> scan_is_satisfied_by sc (length ([] :: versioned_entry list))"
    using assms(3) by (auto simp: scan_is_satisfied_by_def split: option.splits)
  then have eq: "secure_scan_guards enc auths sc gs [] = secure_scan_guards enc auths sc (guards ?ys) []"
    unfolding xs(1) by (rule secure_scan_skip [OF can])
  have sorted: "sorted_wrt (<) (map (\<lambda>x. cell_bytes (fst x)) ?ys)"
    using xs(2) by (simp add: sorted_wrt_map sorted_wrt_filter)
  have mem: "\<forall>vc v. (vc, v) \<in> set ?ys \<longleftrightarrow> P (cell_bytes vc) \<and> selected auths sc vc \<and> view (cell_bytes vc) = Some v"
    using xs(3) by auto
  then have "scans (selects P auths sc) view (guards ?ys)"
    by (intro scans_guards [OF sorted secure_cells_only [OF assms(2)]]) simp
  from that [OF eq this mem sorted] show thesis .
qed

section \<open>A concrete secure keyspace\<close>

text \<open>A keyspace that identity 1 may read and write, with a cipher and a fail-closed sink; one
  session holds the label of the sample cell, the other does not.\<close>

definition sample_handler :: "nat permission_handler" where
  "sample_handler = \<lparr>has_system_permission = (\<lambda>_ _. False),
     has_keyspace_permission = (\<lambda>i ks p. i = 1 \<and> p \<in> {PermRead, PermWrite})\<rparr>"

definition sample_secure :: "nat secure_keyspace" where
  "sample_secure = \<lparr>sk_inner = 1, sk_name = [101],
     sk_security = \<lparr>sp_authenticator = (\<lambda>_. Inr (Some 1)), sp_permission_handler = sample_handler,
       sp_authorizor = (\<lambda>_. Inr {[120]}), sp_audit = Some (audit_config_new (\<lambda>_ _. Inr ()) FailClosed)\<rparr>,
     sk_encryption = Some (value_encryption_new [101] (encryption_config_new (xor_provider 90) ScopeValue))\<rparr>"

definition sample_session :: "rstr set \<Rightarrow> nat session" where
  "sample_session auths = \<lparr>se_identity = 1, se_auths = auths\<rparr>"

lemma sample_cell_vis:
  "canonical_cell (cell_version sample_cell t)" "visible_to auths (cell_version sample_cell t) \<longleftrightarrow> [120] \<in> auths"
proof -
  have "parse_visibility [120] = Inr \<lparr>vis_expr = Label [120], vis_canonical = [120]\<rparr>" by code_simp
  moreover have "vis_as_bytes \<lparr>vis_expr = Label [120], vis_canonical = [120]\<rparr> = [120]" by code_simp
  ultimately show "canonical_cell (cell_version sample_cell t)" "visible_to auths (cell_version sample_cell t) \<longleftrightarrow> [120] \<in> auths"
    by (simp_all add: canonical_cell_def canonicalize_cell_def visible_to_def is_visible_def sample_cell_def cell_version_def
        vis_evaluate_def auths_contains_def)
qed

lemma sample_granted:
  "granted sample_secure (sample_session auths) p \<longleftrightarrow> p \<in> {PermRead, PermWrite}"
  "\<not> audit_refused (sk_security sample_secure) ev tr"
  by (auto simp: granted_def sample_secure_def sample_session_def sample_handler_def audit_refused_def
      audit_config_new_def is_err_def)

lemma sample_encode: "cell_encode (cell_version sample_cell t) = Inr (cell_bytes (cell_version sample_cell t))"
  by (simp add: cell_encode_def cell_bytes_def composite_encode_eq length_key_bytes composite_key_from_def cell_version_def
      sample_cell_def encoded_field_len_def composite_consts)

lemma sample_cipher:
  "\<forall>enc. sk_encryption sample_secure = Some enc \<longrightarrow> cipher_ok (ec_provider (en_config enc))"
  by (simp add: sample_secure_def value_encryption_new_def encryption_config_new_def xor_cipher_ok)

lemma sample_secure_insert:
  obtains db' where "secure_insert_version sample_engine sample_secure (sample_session {}) (cell_version sample_cell 3) [7] ([], sample_db)
    = (Inr (), [KeyspaceAccess 1 [101]], db')"
proof -
  obtain stored where st: "maybe_encrypt_value (sk_encryption sample_secure) (cell_bytes (cell_version sample_cell 3)) [7] = Inr stored"
    by (simp add: maybe_encrypt_value_def encrypt_value_def sample_secure_def value_encryption_new_def
        encryption_config_new_def xor_provider_def)
  have L: "lsm_writes_ok (en_lsm sample_engine) ref_content" using sample_db_ok(1) by (simp add: lsm_ok_def)
  have h: "healthy sample_db 1" by (simp add: healthy_def sample_db_def sample_keyspace_def)
  obtain db' where w: "keyspace_write sample_engine 1 (Insert (cell_bytes (cell_version sample_cell 3)) stored) sample_db = (Inr (), db')"
    by (rule healthy_write [OF L sample_device(1) h])
  have "secure_check sample_secure (sample_session {}) PermWrite [] = (Inr (), [KeyspaceAccess 1 [101]])"
    using sample_granted by (simp add: secure_check_eq check_event_def offered_def sample_session_def [symmetric])
      (simp add: sample_secure_def sample_session_def)
  then show thesis
    using that w st sample_encode sample_cell_vis(1) [of 3]
    by (simp add: secure_insert_version_def canonical_cell_def sample_secure_def)
qed

section \<open>Properties\<close>

text \<open>C14: an operation whose session lacks the permission, or whose access event a fail-closed sink
  refuses, returns an error, leaves the database as it was, and offers one event to the sink.\<close>

theorem secure_denied_no_effect:
  assumes "\<not> granted sk se (secure_permission c) \<or>
    audit_refused (sk_security sk) (check_event sk se (secure_permission c)) tr"
  shows "\<exists>e. run_secure E pr sk se c (tr, db) =
      (Inl e, tr @ offered (sk_security sk) (check_event sk se (secure_permission c)), db) \<and>
    e = (if audit_refused (sk_security sk) (check_event sk se (secure_permission c)) tr then Audit ''audit sink failed''
         else PermissionDenied (permission_as_str (secure_permission c)))"
  by (intro exI conjI refl, rule run_secure_refused) (use assms in \<open>auto simp: secure_check_eq\<close>)

theorem secure_denied_no_effect_witness:
  "run_secure sample_engine sample_prefix_to_range sample_secure (sample_session {}) (SecDelete (cell_version sample_cell 3)) ([], sample_db) =
     (Inl (PermissionDenied ''keyspace:delete''), [AuthorizationDenied 1 [101]], sample_db)"
proof -
  have no: "\<not> granted sample_secure (sample_session {}) (secure_permission (SecDelete (cell_version sample_cell 3))) \<or>
      audit_refused (sk_security sample_secure) (check_event sample_secure (sample_session {}) (secure_permission (SecDelete (cell_version sample_cell 3)))) []"
    by (simp add: sample_granted)
  have ev: "check_event sample_secure (sample_session {}) PermDelete = AuthorizationDenied 1 [101]"
    "sp_audit (sk_security sample_secure) \<noteq> None"
    by (simp_all add: check_event_def sample_granted) (simp_all add: sample_secure_def sample_session_def)
  show ?thesis
    using secure_denied_no_effect [OF no, of sample_engine sample_prefix_to_range sample_db] ev
    by (simp add: sample_granted offered_def)
qed

lemma secure_check_pass:
  "granted sk se p \<Longrightarrow> \<not> audit_refused (sk_security sk) (KeyspaceAccess (se_identity se) (sk_name sk)) tr \<Longrightarrow>
    secure_check sk se p tr = (Inr (), tr @ offered (sk_security sk) (KeyspaceAccess (se_identity se) (sk_name sk)))"
  by (simp add: secure_check_eq check_event_def)


lemma sample_view_secure: "secure_cells sample_view"
  unfolding sample_view_def by (intro secure_cells_upd sample_cell_vis) (simp add: secure_cells_def)




text \<open>C9: a value written through the secure interface is what a permitted session reads back: the
  value itself if the session's labels satisfy the visibility of the cell, nothing otherwise.\<close>

theorem secure_insert_get:
  assumes "lsm_ok (en_lsm E) hc" "db_inv hc db" "db_seqno db < SEQNO_MAX"
    and "\<forall>enc. sk_encryption sk = Some enc \<longrightarrow> cipher_ok (ec_provider (en_config enc))"
    and "secure_insert_version E sk se vc value (tr, db) = (Inr (), tr1, db1)"
    and "granted sk se' PermRead" "\<not> audit_refused (sk_security sk) (KeyspaceAccess (se_identity se') (sk_name sk)) tr1"
  shows "fst (secure_get_version E sk se' vc (tr1, db1)) = Inr (if visible_to (se_auths se') vc then Some value else None)"
proof -
  have L: "lsm_writes_ok (en_lsm E) hc" "lsm_reads_ok (en_lsm E) hc" using assms(1) by (simp_all add: lsm_ok_def)
  obtain key stored where w: "canonical_cell vc" "cell_encode vc = Inr key"
      "maybe_encrypt_value (sk_encryption sk) key value = Inr stored"
      "keyspace_write E (sk_inner sk) (Insert key stored) db = (Inr (), db1)"
    using assms(5)
    by (auto simp: secure_insert_version_def Let_def case_prod_beta result_elims canonicalize_eq prod_eq_iff
        split: prod.splits sum.splits)
  have live: "db_handles db1 (sk_inner sk) \<noteq> None"
    using keyspace_write_effect [OF L(1) w(4)] by (metis fun_upd_same option.distinct(1))
  have "read_at hc SEQNO_MAX db1 (sk_inner sk) key = Some stored"
    using read_at_write(2) [OF L(1) assms(2) w(4) assms(3)] by simp
  then have get: "keyspace_get E (sk_inner sk) key db1 = Inr (Some stored)"
    using live by (simp add: keyspace_get_eq(2) [OF L(2)])
  show ?thesis
    using w(2) get canonical_visible [OF w(1)] maybe_decrypt_encrypt [OF assms(4) w(3)]
    by (simp add: secure_get_version_def secure_check_pass [OF assms(6,7)])
qed

theorem secure_insert_get_witness:
  "\<exists>db. secure_insert_version sample_engine sample_secure (sample_session {}) (cell_version sample_cell 3) [7] ([], sample_db)
       = (Inr (), [KeyspaceAccess 1 [101]], db) \<and>
     fst (secure_get_version sample_engine sample_secure (sample_session {[120]}) (cell_version sample_cell 3)
       ([KeyspaceAccess 1 [101]], db)) = Inr (Some [7]) \<and>
     fst (secure_get_version sample_engine sample_secure (sample_session {}) (cell_version sample_cell 3)
       ([KeyspaceAccess 1 [101]], db)) = Inr None"
proof -
  obtain db where db: "secure_insert_version sample_engine sample_secure (sample_session {}) (cell_version sample_cell 3) [7] ([], sample_db)
    = (Inr (), [KeyspaceAccess 1 [101]], db)" by (rule sample_secure_insert)
  have s: "db_seqno sample_db < SEQNO_MAX" using sample_db_ok(3) by (simp add: SEQNO_MAX_def)
  have "fst (secure_get_version sample_engine sample_secure (sample_session A) (cell_version sample_cell 3)
      ([KeyspaceAccess 1 [101]], db)) = Inr (if [120] \<in> A then Some [7] else None)" for A
    using secure_insert_get [OF sample_db_ok(1,2) s sample_cipher db, of "sample_session A"]
    by (simp add: sample_granted sample_cell_vis) (simp add: sample_session_def)
  with db show ?thesis by auto
qed

lemma over_range_inv: "db_inv hc db \<Longrightarrow> db_inv hc (snd (over_range E h r f db))"
  by (auto simp: over_range_def keyspace_range_def with_nonce_def iter_drop_def Let_def db_inv_def tracker_open_def
      split: prod.split)

text \<open>What one call may change: nothing, or one canonical cell.\<close>

definition secure_step :: "('t \<Rightarrow> content) \<Rightarrow> u64 \<Rightarrow> 't db \<Rightarrow> 't db \<Rightarrow> bool" where
  "secure_step hc h db db' \<longleftrightarrow> db_inv hc db' \<and> (db_seqno db' = db_seqno db \<or> db_seqno db' = db_seqno db + 1) \<and>
     (read_at hc SEQNO_MAX db' = read_at hc SEQNO_MAX db \<or>
      (\<exists>vc x. canonical_cell vc \<and> read_at hc SEQNO_MAX db' = (read_at hc SEQNO_MAX db)(h := (read_at hc SEQNO_MAX db h)(cell_bytes vc := x))))"

lemma secure_step_write:
  assumes L: "lsm_writes_ok (en_lsm E) hc" and inv: "db_inv hc db" and s: "db_seqno db < SEQNO_MAX"
    and vc: "canonical_cell vc" "cell_encode vc = Inr (write_key w)" and run: "keyspace_write E h w db = (r, db')"
  shows "secure_step hc h db db'"
proof (cases r)
  case (Inl e)
  have s': "db_seqno db \<noteq> - 1" using s by (auto simp: SEQNO_MAX_def)
  note frame = write_error_frame [OF run [unfolded Inl]]
  have "db_inv hc db'" by (rule db_inv_frame [OF inv frame(1) _ frame(3) s']) (simp add: frame(2))
  then show ?thesis using frame(3) read_at_cong [OF frame(1), of hc SEQNO_MAX] by (simp add: secure_step_def)
next
  case (Inr u)
  then have ok: "keyspace_write E h w db = (Inr (), db')" using run by simp
  have s': "db_seqno db \<noteq> - 1" using s by (auto simp: SEQNO_MAX_def)
  have "db_seqno db' = db_seqno db + 1" by (rule keyspace_write_effect [OF L ok])
  then show ?thesis
    using read_at_write(2) [OF L inv ok s] read_at_write(3) [OF L inv ok s'] vc(1) cell_encode_bytes [OF vc(2)]
    unfolding secure_step_def by (intro conjI disjI2 exI [of _ vc] exI [of _ "write_value w"]) simp_all
qed

lemma secure_step_refl: "db_inv hc db \<Longrightarrow> secure_step hc h db db"
  by (simp add: secure_step_def)

lemma run_secure_step:
  assumes L: "lsm_writes_ok (en_lsm E) hc" and inv: "db_inv hc db" and s: "db_seqno db < SEQNO_MAX"
  shows "secure_step hc (sk_inner sk) db (snd (snd (run_secure E pr sk se c (tr, db))))"
proof (cases c)
  case (SecInsert vc v)
  have "secure_step hc (sk_inner sk) db (snd (keyspace_insert E (sk_inner sk) key stored db))"
    if "canonicalize_cell vc = Inr vc'" "cell_encode vc' = Inr key" for vc' key stored
    using secure_step_write [OF L inv s, of vc "Insert key stored" "sk_inner sk"] that
    by (simp add: canonicalize_eq) (metis prod.collapse)
  then show ?thesis
    using secure_step_refl [OF inv]
    by (auto simp: SecInsert secure_insert_version_def Let_def case_prod_beta result_elims split: prod.split sum.split)
next
  case (SecDelete vc)
  have "secure_step hc (sk_inner sk) db (snd (keyspace_remove E (sk_inner sk) key db))"
    if "canonicalize_cell vc = Inr vc'" "cell_encode vc' = Inr key" for vc' key
    using secure_step_write [OF L inv s, of vc "Remove key" "sk_inner sk"] that
    by (simp add: canonicalize_eq) (metis prod.collapse)
  then show ?thesis
    using secure_step_refl [OF inv]
    by (auto simp: SecDelete secure_delete_version_def Let_def case_prod_beta result_elims split: prod.split sum.split)
next
  case (SecGet vc)
  then show ?thesis using secure_step_refl [OF inv] by (simp add: secure_get_version_def split: prod.split sum.split)
next
  case (SecScan p sc)
  have "secure_step hc (sk_inner sk) db (snd (over_range E (sk_inner sk) r f db))" for r and f :: "guard list \<Rightarrow> versioned_entry list result"
    unfolding secure_step_def
    by (intro conjI disjI1 over_range_inv inv over_range_snd(2) read_at_cong over_range_snd(1))
  then show ?thesis
    using secure_step_refl [OF inv]
    by (simp add: SecScan secure_scan_versioned_prefix_def Let_def case_prod_beta split: prod.split sum.split)
qed

text \<open>C21: every key of a secure keyspace is, at all times, the encoding of a cell whose visibility
  expression parses and is in canonical form: whatever calls are made through the handle by
  whatever sessions, successful or not, the keyspace stays well typed.\<close>

theorem secure_keyspace_well_typed:
  assumes "lsm_ok (en_lsm E) hc" "db_inv hc db" "secure_cells (read_at hc SEQNO_MAX db (sk_inner sk))"
    and "unat (db_seqno db) + length calls < 2 ^ 64 - 1"
  shows "secure_cells (read_at hc SEQNO_MAX
    (snd (fold (\<lambda>(se, c) st. snd (run_secure E pr sk se c st)) calls (tr, db))) (sk_inner sk))"
  using assms(2-)
proof (induction calls arbitrary: tr db)
  case (Cons x calls)
  obtain se c where x: "x = (se, c)" by (cases x)
  obtain r tr1 db1 where run: "run_secure E pr sk se c (tr, db) = (r, tr1, db1)" by (metis prod_cases3)
  have L: "lsm_writes_ok (en_lsm E) hc" using assms(1) by (simp add: lsm_ok_def)
  have s: "db_seqno db < SEQNO_MAX" "db_seqno db \<noteq> - 1"
    using Cons.prems(3) by (auto simp: SEQNO_MAX_def word_order.not_eq_extremum [symmetric] unat_seqno_max)
  have step: "secure_step hc (sk_inner sk) db db1" using run_secure_step [OF L Cons.prems(1) s(1), of sk pr se c tr] run by simp
  then have "secure_cells (read_at hc SEQNO_MAX db1 (sk_inner sk))"
    using Cons.prems(2) secure_cells_upd by (auto simp: secure_step_def)
  moreover have "unat (db_seqno db1) + length calls < 2 ^ 64 - 1"
    using step Cons.prems(3) unat_Suc_seqno [OF s(2)] by (auto simp: secure_step_def)
  ultimately show ?case using Cons.IH [of db1 tr1] step run by (simp add: x secure_step_def)
qed simp

theorem secure_keyspace_well_typed_witness:
  "secure_cells (read_at ref_content SEQNO_MAX
    (snd (fold (\<lambda>(se, c) st. snd (run_secure sample_engine sample_prefix_to_range sample_secure se c st))
      [(sample_session {}, SecInsert (cell_version sample_cell 3) [7]), (sample_session {}, SecDelete (cell_version sample_cell 3))]
      ([], sample_db))) (sk_inner sample_secure))"
  by (rule secure_keyspace_well_typed [OF sample_db_ok(1,2)])
    (simp_all add: sample_db_empty secure_cells_def, simp add: sample_db_def)

end
