(* ===== verification/ConflictManager.thy ===== *)
theory ConflictManager
  imports Prelude
begin

text \<open>
  \<open>src/tx/optimistic/conflict_manager.rs\<close>: the read and write sets of an optimistic
  transaction and the conflict test.  The abstraction of a manager is its pair of sets of
  (keyspace, key) pairs; the operations refine set operations on them.  Range reads on the
  ordered set keep the panics of \<open>BTreeSet::range\<close> (start above end, or equal excluded bounds).
\<close>

section \<open>Operations\<close>

type_synonym keyspace_id = u64

datatype read = Single bytes | Range "bytes bound" "bytes bound" | All

record conflict_manager =
  cm_reads :: "(keyspace_id \<times> read list) list"
  cm_conflict_keys :: "(keyspace_id \<times> bytes list) list"

definition cm_default :: conflict_manager where
  "cm_default = \<lparr>cm_reads = [], cm_conflict_keys = []\<rparr>"

definition push_read :: "keyspace_id \<Rightarrow> read \<Rightarrow> conflict_manager \<Rightarrow> conflict_manager" where
  "push_read ks r cm =
     (case map_of (cm_reads cm) ks of
        Some tbl \<Rightarrow> cm\<lparr>cm_reads := btree_insert ks (tbl @ [r]) (cm_reads cm)\<rparr>
      | None \<Rightarrow> cm\<lparr>cm_reads := btree_insert ks [r] (cm_reads cm)\<rparr>)"

definition mark_read :: "keyspace_id \<Rightarrow> bytes \<Rightarrow> conflict_manager \<Rightarrow> conflict_manager" where
  "mark_read ks key cm = push_read ks (Single key) cm"

definition mark_conflict :: "keyspace_id \<Rightarrow> bytes \<Rightarrow> conflict_manager \<Rightarrow> conflict_manager" where
  "mark_conflict ks key cm =
     (case map_of (cm_conflict_keys cm) ks of
        Some tbl \<Rightarrow> cm\<lparr>cm_conflict_keys := btree_insert ks (btset_insert key tbl) (cm_conflict_keys cm)\<rparr>
      | None \<Rightarrow> cm\<lparr>cm_conflict_keys := btree_insert ks (btset_insert key []) (cm_conflict_keys cm)\<rparr>)"

definition mark_range :: "keyspace_id \<Rightarrow> bytes bound \<times> bytes bound \<Rightarrow> conflict_manager \<Rightarrow> conflict_manager" where
  "mark_range ks rg cm =
     (let (start, end) = rg;
          r = (if start = Unbounded \<and> end = Unbounded then All else Range start end)
      in push_read ks r cm)"

text \<open>\<open>BTreeSet::range\<close> followed by \<open>next().is_some()\<close>.\<close>

fun range_panics :: "bytes bound \<Rightarrow> bytes bound \<Rightarrow> bool" where
  "range_panics (Included s) (Included e) = (e < s)"
| "range_panics (Included s) (Excluded e) = (e < s)"
| "range_panics (Excluded s) (Included e) = (e < s)"
| "range_panics (Excluded s) (Excluded e) = (e \<le> s)"
| "range_panics _ _ = False"

definition btset_range_nonempty :: "bytes list \<Rightarrow> bytes bound \<Rightarrow> bytes bound \<Rightarrow> bool result" where
  "btset_range_nonempty keys start end =
     (if range_panics start end then Inl (Panic ''range start is greater than range end in BTreeSet'')
      else Inr (list_ex (in_range (start, end)) keys))"

fun read_conflicts :: "read \<Rightarrow> bytes list \<Rightarrow> bool result" where
  "read_conflicts (Single k) keys = Inr (k \<in> set keys)"
| "read_conflicts (Range Unbounded (Included e)) keys = Inr (list_ex (\<lambda>w. w \<le> e) keys)"
| "read_conflicts (Range Unbounded (Excluded e)) keys = Inr (list_ex (\<lambda>w. w < e) keys)"
| "read_conflicts (Range Unbounded Unbounded) keys = Inl (Panic ''entered unreachable code'')"
| "read_conflicts (Range start end) keys = btset_range_nonempty keys start end"
| "read_conflicts All keys = Inr (keys \<noteq> [])"

text \<open>The nested loops of \<open>has_conflict\<close>, with their early return.\<close>

fun any_read_conflicts :: "read list \<Rightarrow> bytes list \<Rightarrow> bool result" where
  "any_read_conflicts [] keys = Inr False"
| "any_read_conflicts (r # rs) keys =
     bind_r (read_conflicts r keys) (\<lambda>b. if b then Inr True else any_read_conflicts rs keys)"

fun any_keyspace_conflicts ::
    "(keyspace_id \<times> read list) list \<Rightarrow> (keyspace_id \<times> bytes list) list \<Rightarrow> bool result" where
  "any_keyspace_conflicts [] conflict_keys = Inr False"
| "any_keyspace_conflicts ((ks, rs) # reads) conflict_keys =
     bind_r (case map_of conflict_keys ks of
               None \<Rightarrow> Inr False
             | Some other_keys \<Rightarrow> any_read_conflicts rs other_keys)
       (\<lambda>b. if b then Inr True else any_keyspace_conflicts reads conflict_keys)"

definition has_conflict :: "conflict_manager \<Rightarrow> conflict_manager \<Rightarrow> bool result" where
  "has_conflict cm other =
     (if cm_reads cm = [] then Inr False
      else any_keyspace_conflicts (cm_reads cm) (cm_conflict_keys other))"

section \<open>Abstraction\<close>

fun read_covers :: "read \<Rightarrow> bytes \<Rightarrow> bool" where
  "read_covers (Single k) key = (key = k)"
| "read_covers (Range start end) key = in_range (start, end) key"
| "read_covers All key = True"

fun read_ok :: "read \<Rightarrow> bool" where
  "read_ok (Range start end) =
     (\<not> (start = Unbounded \<and> end = Unbounded) \<and> \<not> range_panics start end)"
| "read_ok _ = True"

definition read_set :: "conflict_manager \<Rightarrow> (keyspace_id \<times> bytes) set" where
  "read_set cm = {(ks, key). \<exists>rs. map_of (cm_reads cm) ks = Some rs \<and> (\<exists>r\<in>set rs. read_covers r key)}"

definition write_set :: "conflict_manager \<Rightarrow> (keyspace_id \<times> bytes) set" where
  "write_set cm = {(ks, key). \<exists>keys. map_of (cm_conflict_keys cm) ks = Some keys \<and> key \<in> set keys}"

definition cm_ok :: "conflict_manager \<Rightarrow> bool" where
  "cm_ok cm = (btree_ok (cm_reads cm) \<and> btree_ok (cm_conflict_keys cm) \<and>
     (\<forall>(ks, rs)\<in>set (cm_reads cm). \<forall>r\<in>set rs. read_ok r))"

section \<open>Refinement\<close>

lemma cm_default_sets: "read_set cm_default = {}" "write_set cm_default = {}" "cm_ok cm_default"
  by (simp_all add: read_set_def write_set_def cm_default_def cm_ok_def)

lemma read_set_push:
  "read_set (push_read ks r cm) = read_set cm \<union> {(ks, k) |k. read_covers r k}"
  by (fastforce simp: read_set_def push_read_def split: option.splits if_splits)

lemma write_set_push [simp]: "write_set (push_read ks r cm) = write_set cm"
  by (simp add: write_set_def push_read_def split: option.splits)

lemma read_set_mark_conflict [simp]: "read_set (mark_conflict ks k cm) = read_set cm"
  by (simp add: read_set_def mark_conflict_def split: option.splits)

lemma write_set_mark_conflict: "write_set (mark_conflict ks k cm) = insert (ks, k) (write_set cm)"
  by (auto simp: write_set_def mark_conflict_def split: option.splits if_splits)

lemma read_set_mark_read: "read_set (mark_read ks k cm) = insert (ks, k) (read_set cm)"
  by (auto simp: mark_read_def read_set_push)

lemma write_set_mark_read [simp]: "write_set (mark_read ks k cm) = write_set cm"
  by (simp add: mark_read_def)

lemma read_set_mark_range:
  "read_set (mark_range ks rg cm) = read_set cm \<union> {(ks, k) |k. in_range rg k}"
  by (cases rg) (auto simp: mark_range_def read_set_push in_range_def)

lemma write_set_mark_range [simp]: "write_set (mark_range ks rg cm) = write_set cm"
  by (cases rg) (simp add: mark_range_def Let_def)

lemma set_btree_insert_subset: "set (btree_insert k v m) \<subseteq> insert (k, v) (set m)"
  using in_btree_insert(1) by fastforce

lemma cm_ok_push:
  assumes "cm_ok cm" "read_ok r"
  shows "cm_ok (push_read ks r cm)"
proof -
  have ok: "btree_ok (cm_reads cm)" and all: "\<And>k rs x. (k, rs) \<in> set (cm_reads cm) \<Longrightarrow> x \<in> set rs \<Longrightarrow> read_ok x"
    using assms(1) by (auto simp: cm_ok_def)
  show ?thesis
  proof (cases "map_of (cm_reads cm) ks")
    case None
    then show ?thesis
      using assms set_btree_insert_subset [of ks "[r]" "cm_reads cm"]
      by (fastforce simp: cm_ok_def push_read_def)
  next
    case (Some tbl)
    then have "\<forall>x\<in>set (tbl @ [r]). read_ok x"
      using all assms(2) map_of_SomeD [OF Some] by auto
    with Some show ?thesis
      using assms set_btree_insert_subset [of ks "tbl @ [r]" "cm_reads cm"]
      by (fastforce simp: cm_ok_def push_read_def)
  qed
qed

lemma cm_ok_mark_conflict: "cm_ok cm \<Longrightarrow> cm_ok (mark_conflict ks k cm)"
  by (simp add: cm_ok_def mark_conflict_def split: option.splits)

lemma cm_ok_mark_read: "cm_ok cm \<Longrightarrow> cm_ok (mark_read ks k cm)"
  by (simp add: mark_read_def cm_ok_push)

lemma cm_ok_mark_range:
  "cm_ok cm \<Longrightarrow> \<not> range_panics (fst rg) (snd rg) \<Longrightarrow> cm_ok (mark_range ks rg cm)"
  by (cases rg) (auto simp: mark_range_def intro!: cm_ok_push)

lemma read_conflicts_ok:
  "read_ok r \<Longrightarrow> read_conflicts r keys = Inr (\<exists>k\<in>set keys. read_covers r k)"
  by (cases "(r, keys)" rule: read_conflicts.cases)
    (auto simp: btset_range_nonempty_def list_ex_iff in_range_def simp flip: ex_in_conv set_empty)

lemma any_read_conflicts_ok:
  "\<forall>r\<in>set rs. read_ok r \<Longrightarrow>
    any_read_conflicts rs keys = Inr (\<exists>k\<in>set keys. \<exists>r\<in>set rs. read_covers r k)"
  by (induction rs) (auto simp: read_conflicts_ok)

lemma any_keyspace_conflicts_ok:
  "\<forall>(ks, rs)\<in>set reads. \<forall>r\<in>set rs. read_ok r \<Longrightarrow>
    any_keyspace_conflicts reads conflict_keys =
      Inr (\<exists>(ks, rs)\<in>set reads. \<exists>keys. map_of conflict_keys ks = Some keys \<and>
             (\<exists>k\<in>set keys. \<exists>r\<in>set rs. read_covers r k))"
  by (induction reads) (auto simp: any_read_conflicts_ok split: option.splits)

lemma has_conflict_eq:
  assumes "cm_ok cm"
  shows "has_conflict cm other = Inr (read_set cm \<inter> write_set other \<noteq> {})"
proof -
  have *: "\<forall>(ks, rs)\<in>set (cm_reads cm). \<forall>r\<in>set rs. read_ok r"
    using assms by (simp add: cm_ok_def)
  have "has_conflict cm other = Inr (\<exists>(ks, rs)\<in>set (cm_reads cm). \<exists>keys.
      map_of (cm_conflict_keys other) ks = Some keys \<and> (\<exists>k\<in>set keys. \<exists>r\<in>set rs. read_covers r k))"
    by (auto simp: has_conflict_def any_keyspace_conflicts_ok [OF *])
  moreover have "(ks, rs) \<in> set (cm_reads cm) \<longleftrightarrow> map_of (cm_reads cm) ks = Some rs" for ks rs
    using assms btree_ok_map_of [of "cm_reads cm"] by (simp add: cm_ok_def)
  ultimately show ?thesis
    by (fastforce simp: read_set_def write_set_def)
qed

section \<open>Properties\<close>

text \<open>C27: the conflict test is exact.  For a manager whose range reads are well formed,
  \<open>has_conflict\<close> returns whether some key the transaction read, directly or through a range,
  is a key the other transaction wrote in the same keyspace.\<close>

theorem has_conflict_exact:
  assumes "cm_ok cm"
  shows "has_conflict cm other = Inr (read_set cm \<inter> write_set other \<noteq> {})"
  using assms by (rule has_conflict_eq)

theorem has_conflict_exact_witness:
  "has_conflict (mark_range 1 (Included [2], Excluded [5]) cm_default) (mark_conflict 1 [3] cm_default) =
     Inr (read_set (mark_range 1 (Included [2], Excluded [5]) cm_default) \<inter>
          write_set (mark_conflict 1 [3] cm_default) \<noteq> {})"
  by (rule has_conflict_exact, rule cm_ok_mark_range) (simp_all add: cm_default_sets)

text \<open>The marking operations record exactly what they are given: a point read adds one key
  to the read set, a range read adds the keys in the range, a write adds one key to the write
  set, and neither touches the other set; well-formedness is kept by every mark whose range is
  not inverted.\<close>

lemma marks_refine_sets:
  "read_set (mark_read ks k cm) = insert (ks, k) (read_set cm) \<and>
   read_set (mark_range ks rg cm) = read_set cm \<union> {ks} \<times> {x. in_range rg x} \<and>
   read_set (mark_conflict ks k cm) = read_set cm \<and>
   write_set (mark_read ks k cm) = write_set cm \<and>
   write_set (mark_range ks rg cm) = write_set cm \<and>
   write_set (mark_conflict ks k cm) = insert (ks, k) (write_set cm)"
  by (auto simp: read_set_mark_read read_set_mark_range write_set_mark_conflict)

end
