(* ===== verification/Oracle.thy ===== *)
theory Oracle
  imports SnapshotTracker ConflictManager
begin

text \<open>
  \<open>src/tx/optimistic/oracle.rs\<close>: validation and commit of optimistic transactions under the
  write-serialize lock.  The closure \<open>f\<close> that \<open>with_commit\<close> runs is a parameter: it acts on the
  rest of the database and on the tracker.  A panic while the lock is held poisons it, and
  every later \<open>with_commit\<close> returns \<open>Poisoned\<close>.
\<close>

section \<open>Operations\<close>

datatype commit_outcome = CommitOk | Aborted error | Conflicted

record commit_oracle =
  or_committed :: "(seqno \<times> conflict_manager) list"
  or_poisoned :: bool
  or_tracker :: tracker

type_synonym 'w commit_body = "'w \<Rightarrow> tracker \<Rightarrow> 'w \<times> tracker \<times> unit result"

fun any_has_conflict :: "conflict_manager \<Rightarrow> (seqno \<times> conflict_manager) list \<Rightarrow> bool result" where
  "any_has_conflict cc [] = Inr False"
| "any_has_conflict cc ((ts, other) # rest) =
     bind_r (has_conflict cc other) (\<lambda>b. if b then Inr True else any_has_conflict cc rest)"

definition is_panic :: "error \<Rightarrow> bool" where
  "is_panic e = (case e of Panic _ \<Rightarrow> True | _ \<Rightarrow> False)"

definition with_commit ::
    "seqno \<Rightarrow> conflict_manager \<Rightarrow> 'w commit_body \<Rightarrow> 'w \<times> commit_oracle \<Rightarrow> ('w \<times> commit_oracle) \<times> commit_outcome result" where
  "with_commit instant cc f state =
     (let (w, orc) = state in
      if or_poisoned orc then (state, Inl Poisoned)
      else case any_has_conflict cc (filter (\<lambda>(ts, _). instant + 1 \<le> ts) (or_committed orc)) of
        Inl e \<Rightarrow> ((w, orc\<lparr>or_poisoned := True\<rparr>), Inl e)
      | Inr conflicted \<Rightarrow>
          (let t = close_raw instant (or_tracker orc);
               safe_to_gc = get_seqno_safe_to_gc t;
               retained = filter (\<lambda>(ts, _). safe_to_gc < ts) (or_committed orc);
               orc' = orc\<lparr>or_committed := retained, or_tracker := t\<rparr>
           in if conflicted then ((w, orc'), Inr Conflicted)
              else case f w t of (w', t', r) \<Rightarrow>
                (case r of
                   Inl e \<Rightarrow>
                     if is_panic e then ((w', orc'\<lparr>or_poisoned := True, or_tracker := t'\<rparr>), Inl e)
                     else ((w', orc'\<lparr>or_tracker := t'\<rparr>), Inr (Aborted e))
                 | Inr _ \<Rightarrow>
                     ((w', orc'\<lparr>or_committed := btree_insert (tracker_get t') cc retained,
                               or_tracker := t'\<rparr>), Inr CommitOk))))"

section \<open>Commit history\<close>

text \<open>The ghost history lists every transaction that committed, with its commit sequence number.
  The oracle is complete for a history when it still holds every record above the watermark,
  and sound when it holds no other record.\<close>

type_synonym history = "(seqno \<times> conflict_manager) list"

definition oracle_complete :: "history \<Rightarrow> commit_oracle \<Rightarrow> bool" where
  "oracle_complete h orc =
     (\<forall>ts cm. (ts, cm) \<in> set h \<and> get_seqno_safe_to_gc (or_tracker orc) < ts \<longrightarrow>
        (ts, cm) \<in> set (or_committed orc))"

definition oracle_sound :: "history \<Rightarrow> commit_oracle \<Rightarrow> bool" where
  "oracle_sound h orc = (set (or_committed orc) \<subseteq> set h)"

lemma any_has_conflict_eq:
  "cm_ok cc \<Longrightarrow> any_has_conflict cc cs = Inr (\<exists>(ts, other)\<in>set cs. read_set cc \<inter> write_set other \<noteq> {})"
  by (induction cs) (auto simp: has_conflict_eq)

text \<open>Under an exact tracker the validation sees every commit after the snapshot: the live nonce
  keeps the watermark below its instant.\<close>

lemma validation_eq:
  assumes "cm_ok cc" "instant \<noteq> - 1" "oracle_complete h orc" "oracle_sound h orc"
    and "get_seqno_safe_to_gc (or_tracker orc) < instant"
  shows "any_has_conflict cc (filter (\<lambda>(ts, _). instant + 1 \<le> ts) (or_committed orc)) =
    Inr (\<exists>(ts, other)\<in>set h. instant < ts \<and> read_set cc \<inter> write_set other \<noteq> {})"
proof -
  have "(ts, other) \<in> set (or_committed orc) \<longleftrightarrow> (ts, other) \<in> set h" if "instant < ts" for ts other
  proof -
    have "get_seqno_safe_to_gc (or_tracker orc) < ts"
      using assms(5) that by (rule less_trans)
    then show ?thesis
      using assms(3,4) unfolding oracle_complete_def oracle_sound_def by blast
  qed
  then show ?thesis
    using any_has_conflict_eq [OF assms(1)] plus_one_le_seqno [OF assms(2)] by fastforce
qed

lemma live_above_watermark:
  "tracker_inv (t, L) \<Longrightarrow> i \<in># L \<Longrightarrow> get_seqno_safe_to_gc t < i"
  by (simp add: tracker_inv_def get_seqno_safe_to_gc_def)

lemma with_commit_cases:
  assumes "\<not> or_poisoned orc"
    and "any_has_conflict cc (filter (\<lambda>(ts, _). instant + 1 \<le> ts) (or_committed orc)) = Inr b"
    and "with_commit instant cc f (w, orc) = ((w', orc'), Inr out)"
  shows "out = Conflicted \<longleftrightarrow> b"
  using assms by (auto simp: with_commit_def Let_def split: sum.splits if_splits prod.splits)

lemma with_commit_returns:
  assumes "\<not> or_poisoned orc" "cm_ok cc" "\<And>v t. snd (snd (f v t)) = Inr ()"
  shows "\<exists>w' orc' out. with_commit instant cc f (w, orc) = ((w', orc'), Inr out)"
proof -
  obtain v t' where "f w (close_raw instant (or_tracker orc)) = (v, t', Inr ())"
    using assms(3) [of w "close_raw instant (or_tracker orc)"] by (metis prod.collapse)
  then show ?thesis
    using assms(1) by (simp add: with_commit_def any_has_conflict_eq [OF assms(2)] Let_def)
qed

lemma watermark_close_raw: "get_seqno_safe_to_gc t \<le> get_seqno_safe_to_gc (close_raw i t)"
  by (simp add: close_raw_def tracker_gc_def get_seqno_safe_to_gc_def Let_def split: prod.splits)

text \<open>The ways \<open>with_commit\<close> can end, for a checker whose ranges are well formed.\<close>

definition retained :: "seqno \<Rightarrow> commit_oracle \<Rightarrow> (seqno \<times> conflict_manager) list" where
  "retained instant orc =
     filter (\<lambda>(ts, _). get_seqno_safe_to_gc (close_raw instant (or_tracker orc)) < ts) (or_committed orc)"

lemma with_commit_ends:
  assumes "cm_ok cc" "with_commit instant cc f (w, orc) = ((w', orc'), res)"
  obtains (locked) "or_poisoned orc" "w' = w" "orc' = orc" "res = Inl Poisoned"
  | (conflicted) "any_has_conflict cc (filter (\<lambda>(ts, _). instant + 1 \<le> ts) (or_committed orc)) = Inr True"
      "res = Inr Conflicted" "w' = w"
      "or_committed orc' = retained instant orc" "or_tracker orc' = close_raw instant (or_tracker orc)"
  | (failed) t' e where "f w (close_raw instant (or_tracker orc)) = (w', t', Inl e)" "\<not> or_poisoned orc"
      "res = Inl e \<or> res = Inr (Aborted e)" "or_committed orc' = retained instant orc" "or_tracker orc' = t'"
  | (committed) t' where "f w (close_raw instant (or_tracker orc)) = (w', t', Inr ())" "\<not> or_poisoned orc"
      "res = Inr CommitOk" "or_committed orc' = btree_insert (tracker_get t') cc (retained instant orc)"
      "or_tracker orc' = t'" "\<not> or_poisoned orc'"
      "any_has_conflict cc (filter (\<lambda>(ts, _). instant + 1 \<le> ts) (or_committed orc)) = Inr False"
proof -
  obtain b where b: "any_has_conflict cc (filter (\<lambda>(ts, _). instant + 1 \<le> ts) (or_committed orc)) = Inr b"
    using any_has_conflict_eq [OF assms(1)] by blast
  obtain v t' r where f: "f w (close_raw instant (or_tracker orc)) = (v, t', r)" by (metis prod_cases3)
  note run = assms(2) [unfolded with_commit_def Let_def prod.case b sum.case f, folded retained_def]
  show thesis
  proof (cases "or_poisoned orc \<or> b")
    case True
    then show thesis using locked conflicted run b by (auto split: if_splits)
  next
    case False
    then show thesis
      using failed [of t'] committed [of t'] run f b
      by (cases r) (auto split: if_splits)
  qed
qed

text \<open>Whatever the outcome, the oracle still holds every history record above the watermark and no
  other, with the transaction added under its commit sequence number when it succeeded.\<close>

lemma with_commit_history:
  assumes "oracle_complete h orc" "oracle_sound h orc" "cm_ok cc"
    and "with_commit instant cc f (w, orc) = ((w', orc'), res)"
    and body: "\<And>v t' r. f w (close_raw instant (or_tracker orc)) = (v, t', r) \<Longrightarrow>
      get_seqno_safe_to_gc (close_raw instant (or_tracker orc)) \<le> get_seqno_safe_to_gc t' \<and>
      (r = Inr () \<longrightarrow> tracker_get t' \<notin> fst ` set h)"
  shows "let h' = (if res = Inr CommitOk then (tracker_get (or_tracker orc'), cc) # h else h)
    in oracle_complete h' orc' \<and> oracle_sound h' orc'"
proof -
  let ?t = "close_raw instant (or_tracker orc)" and ?ret = "retained instant orc"
  have kept: "(ts, cm) \<in> set ?ret"
    if "(ts, cm) \<in> set h" "get_seqno_safe_to_gc t' < ts" "get_seqno_safe_to_gc ?t \<le> get_seqno_safe_to_gc t'" for ts cm t'
  proof -
    have "get_seqno_safe_to_gc ?t < ts" using that(2,3) by simp
    moreover from this have "get_seqno_safe_to_gc (or_tracker orc) < ts"
      using watermark_close_raw [of "or_tracker orc" instant] by simp
    ultimately show ?thesis using that(1) assms(1) unfolding oracle_complete_def retained_def by auto
  qed
  have sub: "set ?ret \<subseteq> set h" using assms(2) unfolding oracle_sound_def retained_def by auto
  from assms(3,4) show ?thesis
  proof (cases rule: with_commit_ends)
    case locked
    then show ?thesis using assms(1,2) by simp
  next
    case conflicted
    then show ?thesis using kept [of _ _ ?t] sub by (simp add: oracle_complete_def oracle_sound_def)
  next
    case (failed t' e)
    then show ?thesis using kept [of _ _ t'] sub body [OF failed(1)] by (auto simp: oracle_complete_def oracle_sound_def)
  next
    case (committed t')
    note t' = body [OF committed(1)]
    have "(ts, cm) \<in> set (or_committed orc')"
      if "(ts, cm) \<in> set ((tracker_get t', cc) # h)" "get_seqno_safe_to_gc t' < ts" for ts cm
    proof (cases "(ts, cm) = (tracker_get t', cc)")
      case True
      then show ?thesis by (simp add: committed(4) in_btree_insert(2))
    next
      case False
      with that have "(ts, cm) \<in> set h" by auto
      moreover from this have "ts \<noteq> tracker_get t'" using t' by force
      ultimately show ?thesis
        using kept [OF _ that(2)] t' by (simp only: committed(4)) (intro in_btree_insert(3), auto)
    qed
    moreover have "set (or_committed orc') \<subseteq> insert (tracker_get t', cc) (set h)"
      using sub in_btree_insert(1) [of _ "tracker_get t'" cc ?ret] by (auto simp only: committed(4))
    ultimately show ?thesis using committed by (simp add: oracle_complete_def oracle_sound_def)
  qed
qed

section \<open>Properties\<close>



text \<open>A transaction's commit as \<open>WriteTransaction::commit\<close> runs it, reduced to the tracker: the
  closure publishes the batch and drops the transaction's nonce; when the closure does not
  run, the nonce is dropped with it.\<close>

definition tx_commit ::
    "seqno \<Rightarrow> conflict_manager \<Rightarrow> seqno \<Rightarrow> commit_oracle \<Rightarrow> commit_oracle \<times> commit_outcome result" where
  "tx_commit instant cm batch_seqno orc =
     (case with_commit instant cm (\<lambda>w t. (w, close_raw instant (publish batch_seqno t), Inr ())) ((), orc) of
        ((_, orc'), Inr CommitOk) \<Rightarrow> (orc', Inr CommitOk)
      | ((_, orc'), r) \<Rightarrow> (orc'\<lparr>or_tracker := close_raw instant (or_tracker orc')\<rparr>, r))"


end
