(* ===== verification/OptimisticTx.thy ===== *)
theory OptimisticTx
  imports BaseTxCalls Oracle Composite
begin

text \<open>
  \<open>src/tx/optimistic/write_tx.rs\<close>, \<open>src/tx/optimistic/mod.rs\<close> and \<open>src/tx/optimistic/keyspace.rs\<close>:
  optimistic transactions, which record what they read and write and are validated by the oracle
  when they commit.

  The database and the oracle share one snapshot tracker, the one of the database.  A
  transaction owns a nonce, which is dropped with it: by the commit closure when it runs, and
  with the closure or the transaction otherwise.  \<open>prefix_to_range\<close> of the engine is the
  parameter \<open>pr\<close>.
\<close>

section \<open>State\<close>

record 'm opt_tx =
  ot_inner :: "'m base_tx"
  ot_cm :: conflict_manager

record 't optimistic_db =
  ob_inner :: "'t db"
  ob_committed :: "(seqno \<times> conflict_manager) list"
  ob_lock_poisoned :: bool

datatype conflict = Conflict

definition optimistic_open :: "'t db \<Rightarrow> 't optimistic_db" where
  "optimistic_open inner = \<lparr>ob_inner = inner, ob_committed = [], ob_lock_poisoned = False\<rparr>"

definition ob_oracle :: "'t optimistic_db \<Rightarrow> commit_oracle" where
  "ob_oracle ob =
     \<lparr>or_committed = ob_committed ob, or_poisoned = ob_lock_poisoned ob, or_tracker = db_tracker (ob_inner ob)\<rparr>"

definition ob_drop_nonce :: "seqno \<Rightarrow> 't optimistic_db \<Rightarrow> 't optimistic_db" where
  "ob_drop_nonce instant ob = ob\<lparr>ob_inner := iter_drop instant (ob_inner ob)\<rparr>"

definition handle_id :: "'t db \<Rightarrow> u64 \<Rightarrow> u64" where
  "handle_id db h = (case db_handles db h of None \<Rightarrow> h | Some ks \<Rightarrow> ks_id ks)"

section \<open>Operations of a transaction\<close>

definition opt_new :: "seqno \<Rightarrow> 'm opt_tx" where
  "opt_new instant = \<lparr>ot_inner = base_new instant, ot_cm = cm_default\<rparr>"

definition opt_durability :: "persist_mode option \<Rightarrow> 'm opt_tx \<Rightarrow> 'm opt_tx" where
  "opt_durability mode tx = tx\<lparr>ot_inner := base_durability mode (ot_inner tx)\<rparr>"

definition optimistic_write_tx :: "'t optimistic_db \<Rightarrow> 'm opt_tx result \<times> 't optimistic_db" where
  "optimistic_write_tx ob =
     (if ob_lock_poisoned ob then (Inl Poisoned, ob)
      else
        let (tr, instant) = tracker_open (db_tracker (ob_inner ob));
            write_tx = opt_new instant
        in (Inr (if db_manual_journal_persist (ob_inner ob) then write_tx
                 else opt_durability (Some Buffer) write_tx),
            ob\<lparr>ob_inner := (ob_inner ob)\<lparr>db_tracker := tr\<rparr>\<rparr>))"

definition opt_get ::
    "('t, 'm) engine \<Rightarrow> u64 \<Rightarrow> bytes \<Rightarrow> 't db \<Rightarrow> 'm opt_tx \<Rightarrow> bytes option result \<times> 'm opt_tx" where
  "opt_get E h key db tx =
     (case base_get E (ot_inner tx) h key db of
        Inl e \<Rightarrow> (Inl e, tx)
      | Inr res \<Rightarrow> (Inr res, tx\<lparr>ot_cm := mark_read (handle_id db h) key (ot_cm tx)\<rparr>))"

definition opt_contains_key ::
    "('t, 'm) engine \<Rightarrow> u64 \<Rightarrow> bytes \<Rightarrow> 't db \<Rightarrow> 'm opt_tx \<Rightarrow> bool result \<times> 'm opt_tx" where
  "opt_contains_key E h key db tx =
     (case base_contains_key E (ot_inner tx) h key db of
        Inl e \<Rightarrow> (Inl e, tx)
      | Inr contains \<Rightarrow> (Inr contains, tx\<lparr>ot_cm := mark_read (handle_id db h) key (ot_cm tx)\<rparr>))"

text \<open>\<open>size_of\<close> marks nothing, as in the source.\<close>

definition opt_size_of ::
    "('t, 'm) engine \<Rightarrow> u64 \<Rightarrow> bytes \<Rightarrow> 't db \<Rightarrow> 'm opt_tx \<Rightarrow> u32 option result \<times> 'm opt_tx" where
  "opt_size_of E h key db tx = (base_size_of E (ot_inner tx) h key db, tx)"

definition opt_iter :: "('t, 'm) engine \<Rightarrow> u64 \<Rightarrow> 't db \<Rightarrow> 'm opt_tx \<Rightarrow> guard list \<times> 'm opt_tx" where
  "opt_iter E h db tx =
     (base_iter E (ot_inner tx) h db,
      tx\<lparr>ot_cm := mark_range (handle_id db h) (Unbounded, Unbounded) (ot_cm tx)\<rparr>)"

definition opt_range ::
    "('t, 'm) engine \<Rightarrow> u64 \<Rightarrow> key_range \<Rightarrow> 't db \<Rightarrow> 'm opt_tx \<Rightarrow> guard list \<times> 'm opt_tx" where
  "opt_range E h rg db tx =
     (base_range E (ot_inner tx) h rg db, tx\<lparr>ot_cm := mark_range (handle_id db h) rg (ot_cm tx)\<rparr>)"

definition opt_prefix ::
    "('t, 'm) engine \<Rightarrow> (bytes \<Rightarrow> key_range) \<Rightarrow> u64 \<Rightarrow> bytes \<Rightarrow> 't db \<Rightarrow> 'm opt_tx \<Rightarrow> guard list \<times> 'm opt_tx" where
  "opt_prefix E pr h p db tx = opt_range E h (pr p) db tx"

definition opt_first_key_value ::
    "('t, 'm) engine \<Rightarrow> u64 \<Rightarrow> 't db \<Rightarrow> 'm opt_tx \<Rightarrow> guard option \<times> 'm opt_tx" where
  "opt_first_key_value E h db tx =
     (let (gs, tx') = opt_iter E h db tx in (case gs of [] \<Rightarrow> None | g # _ \<Rightarrow> Some g, tx'))"

definition opt_last_key_value ::
    "('t, 'm) engine \<Rightarrow> u64 \<Rightarrow> 't db \<Rightarrow> 'm opt_tx \<Rightarrow> guard option \<times> 'm opt_tx" where
  "opt_last_key_value E h db tx =
     (let (gs, tx') = opt_iter E h db tx in (case rev gs of [] \<Rightarrow> None | g # _ \<Rightarrow> Some g, tx'))"

definition mark_update :: "'t db \<Rightarrow> u64 \<Rightarrow> bytes \<Rightarrow> conflict_manager \<Rightarrow> conflict_manager" where
  "mark_update db h key cm = mark_conflict (handle_id db h) key (mark_read (handle_id db h) key cm)"

definition opt_update_fetch ::
    "('t, 'm) engine \<Rightarrow> u64 \<Rightarrow> bytes \<Rightarrow> (bytes option \<Rightarrow> bytes option) \<Rightarrow> 't db \<Rightarrow> 'm opt_tx
     \<Rightarrow> bytes option result \<times> 'm opt_tx" where
  "opt_update_fetch E h key f db tx =
     (case base_update_fetch E db h key f (ot_inner tx) of
        (Inl e, inner) \<Rightarrow> (Inl e, tx\<lparr>ot_inner := inner\<rparr>)
      | (Inr updated, inner) \<Rightarrow>
          (Inr updated, tx\<lparr>ot_inner := inner, ot_cm := mark_update db h key (ot_cm tx)\<rparr>))"

definition opt_fetch_update ::
    "('t, 'm) engine \<Rightarrow> u64 \<Rightarrow> bytes \<Rightarrow> (bytes option \<Rightarrow> bytes option) \<Rightarrow> 't db \<Rightarrow> 'm opt_tx
     \<Rightarrow> bytes option result \<times> 'm opt_tx" where
  "opt_fetch_update E h key f db tx =
     (case base_fetch_update E db h key f (ot_inner tx) of
        (Inl e, inner) \<Rightarrow> (Inl e, tx\<lparr>ot_inner := inner\<rparr>)
      | (Inr prev, inner) \<Rightarrow>
          (Inr prev, tx\<lparr>ot_inner := inner, ot_cm := mark_update db h key (ot_cm tx)\<rparr>))"

definition opt_take ::
    "('t, 'm) engine \<Rightarrow> u64 \<Rightarrow> bytes \<Rightarrow> 't db \<Rightarrow> 'm opt_tx \<Rightarrow> bytes option result \<times> 'm opt_tx" where
  "opt_take E h key db tx = opt_fetch_update E h key (\<lambda>_. None) db tx"

definition opt_insert ::
    "('t, 'm) engine \<Rightarrow> u64 \<Rightarrow> bytes \<Rightarrow> bytes \<Rightarrow> 't db \<Rightarrow> 'm opt_tx \<Rightarrow> 'm opt_tx" where
  "opt_insert E h key value db tx =
     tx\<lparr>ot_inner := base_insert E db h key value (ot_inner tx),
        ot_cm := mark_conflict (handle_id db h) key (ot_cm tx)\<rparr>"

definition opt_remove :: "('t, 'm) engine \<Rightarrow> u64 \<Rightarrow> bytes \<Rightarrow> 't db \<Rightarrow> 'm opt_tx \<Rightarrow> 'm opt_tx" where
  "opt_remove E h key db tx =
     tx\<lparr>ot_inner := base_remove E db h key (ot_inner tx),
        ot_cm := mark_conflict (handle_id db h) key (ot_cm tx)\<rparr>"

definition opt_remove_weak :: "('t, 'm) engine \<Rightarrow> u64 \<Rightarrow> bytes \<Rightarrow> 't db \<Rightarrow> 'm opt_tx \<Rightarrow> 'm opt_tx" where
  "opt_remove_weak E h key db tx =
     tx\<lparr>ot_inner := base_remove_weak E db h key (ot_inner tx),
        ot_cm := mark_conflict (handle_id db h) key (ot_cm tx)\<rparr>"

section \<open>Commit\<close>

text \<open>The closure handed to \<open>with_commit\<close>, on the database and a flag that says whether the
  transaction still holds its nonce.\<close>

definition commit_body :: "('t, 'm) engine \<Rightarrow> 'm base_tx \<Rightarrow> ('t db \<times> bool) commit_body" where
  "commit_body E inner w t =
     (let (r, db1) = base_commit E inner ((fst w)\<lparr>db_tracker := t\<rparr>);
          db2 = iter_drop (tx_instant inner) db1
      in ((db2, False), db_tracker db2, r))"

definition opt_commit ::
    "('t, 'm) engine \<Rightarrow> 'm opt_tx \<Rightarrow> 't optimistic_db \<Rightarrow> (conflict + unit) result \<times> 't optimistic_db" where
  "opt_commit E tx ob =
     (let inner = ot_inner tx; instant = tx_instant inner in
      if tx_memtables inner = [] then (Inr (Inr ()), ob_drop_nonce instant ob)
      else
        let (((db, held), orc), outcome) =
              with_commit instant (ot_cm tx) (commit_body E inner) ((ob_inner ob, True), ob_oracle ob);
            ob1 = \<lparr>ob_inner = db\<lparr>db_tracker := or_tracker orc\<rparr>, ob_committed = or_committed orc,
                   ob_lock_poisoned = or_poisoned orc\<rparr>
        in (case outcome of
              Inl e \<Rightarrow> Inl e
            | Inr CommitOk \<Rightarrow> Inr (Inr ())
            | Inr (Aborted e) \<Rightarrow> Inl e
            | Inr Conflicted \<Rightarrow> Inr (Inl Conflict),
            if held then ob_drop_nonce instant ob1 else ob1))"

definition opt_rollback :: "'m opt_tx \<Rightarrow> 't optimistic_db \<Rightarrow> 't optimistic_db" where
  "opt_rollback tx ob = ob_drop_nonce (tx_instant (ot_inner tx)) ob"

section \<open>Keyspace calls\<close>

text \<open>\<open>OptimisticTxKeyspace\<close>: one transaction per attempt.  What other threads do to the database
  between the step of the transaction and its commit is the argument \<open>env\<close>; an error of the step
  drops the transaction.\<close>

definition with_opt_tx ::
    "('t, 'm) engine \<Rightarrow> ('t db \<Rightarrow> 'm opt_tx \<Rightarrow> 'a result \<times> 'm opt_tx) \<Rightarrow> ('t optimistic_db \<Rightarrow> 't optimistic_db)
     \<Rightarrow> 't optimistic_db \<Rightarrow> (conflict + 'a) result \<times> 't optimistic_db" where
  "with_opt_tx E step env ob =
     (case optimistic_write_tx ob of
        (Inl e, ob1) \<Rightarrow> (Inl e, ob1)
      | (Inr tx, ob1) \<Rightarrow>
          (case step (ob_inner ob1) tx of
             (Inl e, tx1) \<Rightarrow> (Inl e, opt_rollback tx1 ob1)
           | (Inr x, tx1) \<Rightarrow>
               (case opt_commit E tx1 (env ob1) of
                  (Inl e, ob2) \<Rightarrow> (Inl e, ob2)
                | (Inr (Inl c), ob2) \<Rightarrow> (Inr (Inl c), ob2)
                | (Inr (Inr _), ob2) \<Rightarrow> (Inr (Inr x), ob2))))"

text \<open>The retry loop, over the interference met by each attempt; \<open>None\<close> when the attempts given are
  used up and the loop would go on.\<close>

fun update_loop ::
    "('t, 'm) engine \<Rightarrow> ('t db \<Rightarrow> 'm opt_tx \<Rightarrow> 'a result \<times> 'm opt_tx) \<Rightarrow> ('t optimistic_db \<Rightarrow> 't optimistic_db) list
     \<Rightarrow> 't optimistic_db \<Rightarrow> 'a result option \<times> 't optimistic_db" where
  "update_loop E step [] ob = (None, ob)"
| "update_loop E step (env # envs) ob =
     (case with_opt_tx E step env ob of
        (Inl e, ob1) \<Rightarrow> (Some (Inl e), ob1)
      | (Inr (Inr x), ob1) \<Rightarrow> (Some (Inr x), ob1)
      | (Inr (Inl _), ob1) \<Rightarrow> update_loop E step envs ob1)"

definition otk_fetch_update ::
    "('t, 'm) engine \<Rightarrow> u64 \<Rightarrow> bytes \<Rightarrow> (bytes option \<Rightarrow> bytes option) \<Rightarrow> ('t optimistic_db \<Rightarrow> 't optimistic_db) list
     \<Rightarrow> 't optimistic_db \<Rightarrow> bytes option result option \<times> 't optimistic_db" where
  "otk_fetch_update E h key f envs ob = update_loop E (opt_fetch_update E h key f) envs ob"

definition otk_update_fetch ::
    "('t, 'm) engine \<Rightarrow> u64 \<Rightarrow> bytes \<Rightarrow> (bytes option \<Rightarrow> bytes option) \<Rightarrow> ('t optimistic_db \<Rightarrow> 't optimistic_db) list
     \<Rightarrow> 't optimistic_db \<Rightarrow> bytes option result option \<times> 't optimistic_db" where
  "otk_update_fetch E h key f envs ob = update_loop E (opt_update_fetch E h key f) envs ob"

definition otk_take ::
    "('t, 'm) engine \<Rightarrow> u64 \<Rightarrow> bytes \<Rightarrow> ('t optimistic_db \<Rightarrow> 't optimistic_db) list
     \<Rightarrow> 't optimistic_db \<Rightarrow> bytes option result option \<times> 't optimistic_db" where
  "otk_take E h key envs ob = otk_fetch_update E h key (\<lambda>_. None) envs ob"

text \<open>The blind writes: a conflict would be a panic.\<close>

definition expect_no_conflict ::
    "string \<Rightarrow> (conflict + unit) result \<times> 't optimistic_db \<Rightarrow> unit result \<times> 't optimistic_db" where
  "expect_no_conflict msg p =
     (case p of
        (Inl e, ob) \<Rightarrow> (Inl e, ob)
      | (Inr (Inl _), ob) \<Rightarrow> (Inl (Panic msg), ob)
      | (Inr (Inr _), ob) \<Rightarrow> (Inr (), ob))"

definition otk_insert ::
    "('t, 'm) engine \<Rightarrow> u64 \<Rightarrow> bytes \<Rightarrow> bytes \<Rightarrow> ('t optimistic_db \<Rightarrow> 't optimistic_db) \<Rightarrow> 't optimistic_db
     \<Rightarrow> unit result \<times> 't optimistic_db" where
  "otk_insert E h key value env ob =
     expect_no_conflict ''blind insert should not conflict ever''
       (with_opt_tx E (\<lambda>db tx. (Inr (), opt_insert E h key value db tx)) env ob)"

definition otk_remove ::
    "('t, 'm) engine \<Rightarrow> u64 \<Rightarrow> bytes \<Rightarrow> ('t optimistic_db \<Rightarrow> 't optimistic_db) \<Rightarrow> 't optimistic_db
     \<Rightarrow> unit result \<times> 't optimistic_db" where
  "otk_remove E h key env ob =
     expect_no_conflict ''blind remove should not conflict ever''
       (with_opt_tx E (\<lambda>db tx. (Inr (), opt_remove E h key db tx)) env ob)"

definition otk_remove_weak ::
    "('t, 'm) engine \<Rightarrow> u64 \<Rightarrow> bytes \<Rightarrow> ('t optimistic_db \<Rightarrow> 't optimistic_db) \<Rightarrow> 't optimistic_db
     \<Rightarrow> unit result \<times> 't optimistic_db" where
  "otk_remove_weak E h key env ob =
     expect_no_conflict ''blind remove should not conflict ever''
       (with_opt_tx E (\<lambda>db tx. (Inr (), opt_remove_weak E h key db tx)) env ob)"

definition otk_get :: "('t, 'm) engine \<Rightarrow> u64 \<Rightarrow> bytes \<Rightarrow> 't optimistic_db \<Rightarrow> bytes option result" where
  "otk_get E h key ob = keyspace_get E h key (ob_inner ob)"

definition otk_size_of :: "('t, 'm) engine \<Rightarrow> u64 \<Rightarrow> bytes \<Rightarrow> 't optimistic_db \<Rightarrow> u32 option result" where
  "otk_size_of E h key ob = keyspace_size_of E h key (ob_inner ob)"

definition otk_contains_key :: "('t, 'm) engine \<Rightarrow> u64 \<Rightarrow> bytes \<Rightarrow> 't optimistic_db \<Rightarrow> bool result" where
  "otk_contains_key E h key ob = keyspace_contains_key E h key (ob_inner ob)"

definition otk_first_key_value :: "('t, 'm) engine \<Rightarrow> u64 \<Rightarrow> 't optimistic_db \<Rightarrow> guard option \<times> 't optimistic_db" where
  "otk_first_key_value E h ob =
     (let (instant, db) = database_snapshot (ob_inner ob)
      in (snapshot_first_key_value E instant h db, ob\<lparr>ob_inner := iter_drop instant db\<rparr>))"

definition otk_last_key_value :: "('t, 'm) engine \<Rightarrow> u64 \<Rightarrow> 't optimistic_db \<Rightarrow> guard option \<times> 't optimistic_db" where
  "otk_last_key_value E h ob =
     (let (instant, db) = database_snapshot (ob_inner ob)
      in (snapshot_last_key_value E instant h db, ob\<lparr>ob_inner := iter_drop instant db\<rparr>))"

section \<open>Blind writes\<close>

lemma any_has_conflict_blind: "cm_reads cc = [] \<Longrightarrow> any_has_conflict cc cs = Inr False"
  by (induction cs) (auto simp: has_conflict_def)

lemma commit_blind:
  assumes "cm_reads (ot_cm tx) = []" "opt_commit E tx ob = (r, ob')"
  shows "r \<noteq> Inr (Inl Conflict)"
  using assms any_has_conflict_blind [OF assms(1)]
  by (auto simp: opt_commit_def with_commit_def ob_oracle_def Let_def split: if_splits prod.splits sum.splits)

lemma mark_conflict_reads [simp]: "cm_reads (mark_conflict ks k cm) = cm_reads cm"
  by (simp add: mark_conflict_def split: option.split)

lemma write_tx_blind: "optimistic_write_tx ob = (Inr tx, ob') \<Longrightarrow> cm_reads (ot_cm tx) = []"
  by (auto simp: optimistic_write_tx_def opt_durability_def opt_new_def cm_default_def Let_def split: if_splits prod.splits)

end
