(* ===== verification/OptimisticRuns.thy ===== *)
theory OptimisticRuns
  imports OptimisticTx
begin

text \<open>
  Runs of an optimistic database: any number of transactions, their operations and commits
  interleaved in any order with snapshots, persists and collections.  The committed transactions
  form one serial history.
\<close>

section \<open>Operations and their results\<close>

datatype tx_op =
    OpGet u64 bytes
  | OpContainsKey u64 bytes
  | OpSizeOf u64 bytes
  | OpIter u64
  | OpRange u64 key_range
  | OpPrefix u64 bytes
  | OpFirst u64
  | OpLast u64
  | OpInsert u64 bytes bytes
  | OpRemove u64 bytes
  | OpRemoveWeak u64 bytes
  | OpUpdateFetch u64 bytes "bytes option \<Rightarrow> bytes option"
  | OpFetchUpdate u64 bytes "bytes option \<Rightarrow> bytes option"
  | OpTake u64 bytes

datatype op_result =
    ResUnit
  | ResValue "bytes option result"
  | ResBool "bool result"
  | ResSize "u32 option result"
  | ResScan "guard list"
  | ResGuard "guard option"

fun run_op ::
    "('t, 'm) engine \<Rightarrow> (bytes \<Rightarrow> key_range) \<Rightarrow> tx_op \<Rightarrow> 't db \<Rightarrow> 'm opt_tx \<Rightarrow> op_result \<times> 'm opt_tx" where
  "run_op E pr (OpGet h k) db tx = apfst ResValue (opt_get E h k db tx)"
| "run_op E pr (OpContainsKey h k) db tx = apfst ResBool (opt_contains_key E h k db tx)"
| "run_op E pr (OpSizeOf h k) db tx = apfst ResSize (opt_size_of E h k db tx)"
| "run_op E pr (OpIter h) db tx = apfst ResScan (opt_iter E h db tx)"
| "run_op E pr (OpRange h rg) db tx = apfst ResScan (opt_range E h rg db tx)"
| "run_op E pr (OpPrefix h p) db tx = apfst ResScan (opt_prefix E pr h p db tx)"
| "run_op E pr (OpFirst h) db tx = apfst ResGuard (opt_first_key_value E h db tx)"
| "run_op E pr (OpLast h) db tx = apfst ResGuard (opt_last_key_value E h db tx)"
| "run_op E pr (OpInsert h k v) db tx = (ResUnit, opt_insert E h k v db tx)"
| "run_op E pr (OpRemove h k) db tx = (ResUnit, opt_remove E h k db tx)"
| "run_op E pr (OpRemoveWeak h k) db tx = (ResUnit, opt_remove_weak E h k db tx)"
| "run_op E pr (OpUpdateFetch h k f) db tx = apfst ResValue (opt_update_fetch E h k f db tx)"
| "run_op E pr (OpFetchUpdate h k f) db tx = apfst ResValue (opt_fetch_update E h k f db tx)"
| "run_op E pr (OpTake h k) db tx = apfst ResValue (opt_take E h k db tx)"

fun op_handle :: "tx_op \<Rightarrow> u64" where
  "op_handle (OpGet h k) = h" | "op_handle (OpContainsKey h k) = h" | "op_handle (OpSizeOf h k) = h"
| "op_handle (OpIter h) = h" | "op_handle (OpRange h rg) = h" | "op_handle (OpPrefix h p) = h"
| "op_handle (OpFirst h) = h" | "op_handle (OpLast h) = h" | "op_handle (OpInsert h k v) = h"
| "op_handle (OpRemove h k) = h" | "op_handle (OpRemoveWeak h k) = h"
| "op_handle (OpUpdateFetch h k f) = h" | "op_handle (OpFetchUpdate h k f) = h" | "op_handle (OpTake h k) = h"

text \<open>The operations whose reads the transaction records: all but \<open>size_of\<close>.  A range with its
  start above its end panics in validation.\<close>

fun op_tracked :: "tx_op \<Rightarrow> bool" where
  "op_tracked (OpSizeOf h k) = False"
| "op_tracked (OpRange h rg) = (\<not> range_panics (fst rg) (snd rg))"
| "op_tracked _ = True"

section \<open>Serial execution\<close>

text \<open>What an operation returns on a view, what it writes, and the part of the view it depends on.\<close>

fun op_returns :: "tx_op \<Rightarrow> view \<Rightarrow> op_result \<Rightarrow> bool" where
  "op_returns (OpGet h k) v r = (r = ResValue (Inr (v h k)))"
| "op_returns (OpContainsKey h k) v r = (r = ResBool (Inr (v h k \<noteq> None)))"
| "op_returns (OpSizeOf h k) v r = (r = ResSize (Inr (map_option (\<lambda>x. of_nat (length x)) (v h k))))"
| "op_returns (OpIter h) v r = (\<exists>gs. scans (\<lambda>_. True) (v h) gs \<and> r = ResScan gs)"
| "op_returns (OpRange h rg) v r = (\<exists>gs. scans (in_range rg) (v h) gs \<and> r = ResScan gs)"
| "op_returns (OpPrefix h p) v r = (\<exists>gs. scans (prefix p) (v h) gs \<and> r = ResScan gs)"
| "op_returns (OpFirst h) v r =
     (\<exists>gs. scans (\<lambda>_. True) (v h) gs \<and> r = ResGuard (case gs of [] \<Rightarrow> None | g # _ \<Rightarrow> Some g))"
| "op_returns (OpLast h) v r =
     (\<exists>gs. scans (\<lambda>_. True) (v h) gs \<and> r = ResGuard (case rev gs of [] \<Rightarrow> None | g # _ \<Rightarrow> Some g))"
| "op_returns (OpUpdateFetch h k f) v r = (r = ResValue (Inr (f (v h k))))"
| "op_returns (OpFetchUpdate h k f) v r = (r = ResValue (Inr (v h k)))"
| "op_returns (OpTake h k) v r = (r = ResValue (Inr (v h k)))"
| "op_returns _ v r = (r = ResUnit)"

definition update_writes :: "u64 \<Rightarrow> bytes \<Rightarrow> bytes option \<Rightarrow> bytes option \<Rightarrow> tx_write list" where
  "update_writes h k prev updated =
     (case updated of
        Some x \<Rightarrow> if prev \<noteq> Some x then [(h, Insert k x)] else []
      | None \<Rightarrow> if prev \<noteq> None then [(h, Remove k)] else [])"

fun op_writes :: "tx_op \<Rightarrow> view \<Rightarrow> tx_write list" where
  "op_writes (OpInsert h k x) v = [(h, Insert k x)]"
| "op_writes (OpRemove h k) v = [(h, Remove k)]"
| "op_writes (OpRemoveWeak h k) v = [(h, RemoveWeak k)]"
| "op_writes (OpUpdateFetch h k f) v = update_writes h k (v h k) (f (v h k))"
| "op_writes (OpFetchUpdate h k f) v = update_writes h k (v h k) (f (v h k))"
| "op_writes (OpTake h k) v = update_writes h k (v h k) None"
| "op_writes _ v = []"

fun op_reads :: "tx_op \<Rightarrow> (u64 \<times> bytes) set" where
  "op_reads (OpGet h k) = {(h, k)}"
| "op_reads (OpContainsKey h k) = {(h, k)}"
| "op_reads (OpSizeOf h k) = {(h, k)}"
| "op_reads (OpIter h) = {h} \<times> UNIV"
| "op_reads (OpRange h rg) = {h} \<times> Collect (in_range rg)"
| "op_reads (OpPrefix h p) = {h} \<times> Collect (prefix p)"
| "op_reads (OpFirst h) = {h} \<times> UNIV"
| "op_reads (OpLast h) = {h} \<times> UNIV"
| "op_reads (OpUpdateFetch h k f) = {(h, k)}"
| "op_reads (OpFetchUpdate h k f) = {(h, k)}"
| "op_reads (OpTake h k) = {(h, k)}"
| "op_reads _ = {}"

type_synonym op_log = "(tx_op \<times> op_result) list"

text \<open>Running a log one operation after another: the results are those of the views met on the
  way, and the writes are collected.\<close>

fun log_returns :: "view \<Rightarrow> op_log \<Rightarrow> bool" where
  "log_returns v [] = True"
| "log_returns v ((op, r) # l) = (op_returns op v r \<and> log_returns (fold view_write (op_writes op v) v) l)"

fun log_writes :: "view \<Rightarrow> op_log \<Rightarrow> tx_write list" where
  "log_writes v [] = []"
| "log_writes v ((op, r) # l) = op_writes op v @ log_writes (fold view_write (op_writes op v) v) l"

definition serial_view :: "view \<Rightarrow> op_log \<Rightarrow> view" where
  "serial_view v l = fold view_write (log_writes v l) v"

lemma log_append:
  "log_returns v (l @ l') \<longleftrightarrow> log_returns v l \<and> log_returns (serial_view v l) l'"
  "log_writes v (l @ l') = log_writes v l @ log_writes (serial_view v l) l'"
  "serial_view v (l @ l') = serial_view (serial_view v l) l'"
proof -
  show "log_returns v (l @ l') \<longleftrightarrow> log_returns v l \<and> log_returns (serial_view v l) l'"
    by (induction l arbitrary: v) (auto simp: serial_view_def)
  show w: "log_writes v (l @ l') = log_writes v l @ log_writes (serial_view v l) l'"
    by (induction l arbitrary: v) (auto simp: serial_view_def)
  show "serial_view v (l @ l') = serial_view (serial_view v l) l'"
    unfolding serial_view_def [of v "l @ l'"] w by (simp add: serial_view_def)
qed

definition agree :: "(u64 \<times> bytes) set \<Rightarrow> view \<Rightarrow> view \<Rightarrow> bool" where
  "agree R v v' = (\<forall>h k. (h, k) \<in> R \<longrightarrow> v h k = v' h k)"

lemma agree_view_write: "agree R v v' \<Longrightarrow> agree R (fold view_write ws v) (fold view_write ws v')"
  by (induction ws arbitrary: v v') (auto simp: agree_def view_write_def)

lemma scans_agree: "(\<And>k. P k \<Longrightarrow> v k = v' k) \<Longrightarrow> scans P v gs \<Longrightarrow> scans P v' gs"
  unfolding scans_def by metis

lemma op_agree:
  assumes "agree (op_reads op) v v'"
  shows "op_returns op v r \<Longrightarrow> op_returns op v' r" and "op_writes op v = op_writes op v'"
proof -
  show "op_writes op v = op_writes op v'" using assms by (cases op) (simp_all add: agree_def)
  assume "op_returns op v r"
  then show "op_returns op v' r"
    using assms scans_agree [of "\<lambda>_. True" "v (op_handle op)" "v' (op_handle op)"]
      scans_agree [of "in_range _" "v (op_handle op)" "v' (op_handle op)"]
      scans_agree [of "prefix _" "v (op_handle op)" "v' (op_handle op)"]
    by (cases op) (auto simp: agree_def)
qed

lemma log_agree:
  assumes "agree R v v'" "\<Union> (op_reads ` fst ` set l) \<subseteq> R"
  shows "log_returns v l \<Longrightarrow> log_returns v' l" and "log_writes v l = log_writes v' l"
proof -
  have "(log_returns v l \<longrightarrow> log_returns v' l) \<and> log_writes v l = log_writes v' l"
    using assms
  proof (induction l arbitrary: v v')
    case (Cons e l)
    obtain op r where e: "e = (op, r)" by (cases e)
    have "agree (op_reads op) v v'" using Cons.prems by (auto simp: agree_def e)
    note op = op_agree [OF this]
    have "agree R (fold view_write (op_writes op v) v) (fold view_write (op_writes op v) v')"
      by (rule agree_view_write [OF Cons.prems(1)])
    from Cons.IH [OF this] show ?case using Cons.prems(2) op(1) [of r] op(2) by (auto simp: e)
  qed simp
  then show "log_returns v l \<Longrightarrow> log_returns v' l" "log_writes v l = log_writes v' l" by blast+
qed

section \<open>One transaction\<close>

text \<open>The state of a transaction that has run a log on its snapshot.\<close>

definition opt_inv :: "('t, 'm) engine \<Rightarrow> ('t \<Rightarrow> content) \<Rightarrow> 't db \<Rightarrow> op_log \<Rightarrow> 'm opt_tx \<Rightarrow> bool" where
  "opt_inv E hc db l tx \<longleftrightarrow>
     (let v = read_at hc (tx_instant (ot_inner tx)) db; ws = log_writes v l in
      tx_inv E db ws (ot_inner tx) \<and> log_returns v l \<and> cm_ok (ot_cm tx) \<and>
      \<Union> (op_reads ` fst ` set l) \<subseteq> read_set (ot_cm tx) \<and>
      (\<lambda>(h, w). (h, write_key w)) ` set ws \<subseteq> write_set (ot_cm tx) \<and>
      tx_instant (ot_inner tx) \<le> db_seqno db)"

lemma base_insert_instant [simp]:
  "tx_instant (base_insert E db h k v tx) = tx_instant tx" "tx_instant (base_remove E db h k tx) = tx_instant tx"
  "tx_instant (base_remove_weak E db h k tx) = tx_instant tx"
  "tx_instant (store_updated E db h k p u tx) = tx_instant tx"
  by (simp_all add: base_insert_def base_remove_def base_remove_weak_def store_updated_def split: option.split)

lemma tx_inv_room:
  assumes "tx_inv E db ws tx" "tx_seqno tx \<noteq> - 1"
  shows "length ws < 2 ^ 63 - 1"
proof -
  have "unat (tx_seqno tx) \<noteq> 2 ^ 64 - 1"
    using assms(2) unat_seqno_max by (metis word_unat_eq_iff)
  moreover have "unat (tx_seqno tx) < 2 ^ 64" by (rule order_less_le_trans [OF unsigned_less]) simp
  ultimately show ?thesis using assms(1) by (simp add: tx_inv_def)
qed

lemma tx_inv_updated:
  assumes "memtable_ok (en_lsm E)" "names_distinct db" "db_handles db h \<noteq> None"
    and "tx_inv E db ws tx" "tx_seqno tx \<noteq> - 1"
  shows "tx_inv E db (ws @ update_writes h k prev updated) (store_updated E db h k prev updated tx)"
  using tx_inv_write [OF assms(1-4) tx_inv_room [OF assms(4,5)], of "Insert k _"]
    tx_inv_write [OF assms(1-4) tx_inv_room [OF assms(4,5)], of "Remove k"] assms(4)
  by (auto simp: update_writes_def store_updated_def split: option.split)

lemma handle_id_eq: "db_inv hc db \<Longrightarrow> handle_id db h = h"
  by (auto simp: handle_id_def db_inv_def split: option.split)

lemma in_range_not_panics: "in_range rg k \<Longrightarrow> \<not> range_panics (fst rg) (snd rg)"
  by (cases "(fst rg, snd rg)" rule: range_panics.cases) (auto simp: in_range_def)

lemma opt_inv_step:
  assumes "opt_inv E hc db l tx" "tx_instant (ot_inner tx') = tx_instant (ot_inner tx)"
    and "tx_inv E db (log_writes (read_at hc (tx_instant (ot_inner tx)) db) l @
      op_writes op (serial_view (read_at hc (tx_instant (ot_inner tx)) db) l)) (ot_inner tx')"
    and "op_returns op (serial_view (read_at hc (tx_instant (ot_inner tx)) db) l) r"
    and "cm_ok (ot_cm tx')" "read_set (ot_cm tx') = read_set (ot_cm tx) \<union> op_reads op"
    and "write_set (ot_cm tx) \<subseteq> write_set (ot_cm tx')"
    and "(\<lambda>(h, w). (h, write_key w)) ` set (op_writes op (serial_view (read_at hc (tx_instant (ot_inner tx)) db) l))
      \<subseteq> write_set (ot_cm tx')"
  shows "opt_inv E hc db (l @ [(op, r)]) tx'"
  using assms unfolding opt_inv_def Let_def by (auto simp: log_append image_Un)

lemma update_writes_keys:
  "(\<lambda>(h, w). (h, write_key w)) ` set (update_writes h k prev updated) \<subseteq> {(h, k)}"
  by (auto simp: update_writes_def split: option.split)

lemmas marks = write_set_mark_conflict read_set_mark_read cm_ok_mark_conflict cm_ok_mark_read

lemma run_op_inv:
  assumes L: "lsm_ok (en_lsm E) hc" and "prefix_range_law pr" "names_distinct db" and inv: "db_inv hc db"
    and live: "db_handles db (op_handle op) \<noteq> None" and op: "op_tracked op"
    and tx: "opt_inv E hc db l tx" "tx_seqno (ot_inner tx) \<noteq> - 1" and run: "run_op E pr op db tx = (r, tx')"
  shows "opt_inv E hc db (l @ [(op, r)]) tx'"
proof -
  define ws where "ws = log_writes (read_at hc (tx_instant (ot_inner tx)) db) l"
  define v where "v = fold view_write ws (read_at hc (tx_instant (ot_inner tx)) db)"
  have v: "serial_view (read_at hc (tx_instant (ot_inner tx)) db) l = v" by (simp add: serial_view_def v_def ws_def)
  have t: "tx_inv E db ws (ot_inner tx)" "cm_ok (ot_cm tx)" using tx(1) by (simp_all add: opt_inv_def Let_def ws_def)
  have mem: "memtable_ok (en_lsm E)" using L by (simp add: lsm_ok_def)
  have id: "handle_id db h = h" for h by (rule handle_id_eq [OF inv])
  note step = opt_inv_step [OF tx(1), unfolded v, folded ws_def]
  have get: "base_get E (ot_inner tx) (op_handle op) k db = Inr (v (op_handle op) k)" for k
    unfolding v_def by (rule base_get_eq [OF L assms(3) live t(1)])
  have contains: "base_contains_key E (ot_inner tx) (op_handle op) k db = Inr (v (op_handle op) k \<noteq> None)" for k
    unfolding v_def by (rule base_probe_eq(1) [OF L assms(3) live t(1)])
  obtain ks where ks: "db_handles db (op_handle op) = Some ks" using live by blast
  note scan = scans_tx [OF L assms(3) ks t(1), folded v_def]
  note wr = tx_inv_write [OF mem assms(3) live t(1) tx_inv_room [OF t(1) tx(2)]]
  note upd = tx_inv_updated [OF mem assms(3) live t(1) tx(2)]
  have pref: "in_range (pr p) k \<longleftrightarrow> prefix p k" for p k using assms(2) by (simp add: prefix_range_law_def)
  have "\<not> range_panics (fst (pr p)) (snd (pr p))" for p
    by (rule in_range_not_panics [of _ p]) (simp add: pref)
  then have ok: "cm_ok (mark_range h (pr p) (ot_cm tx))" for h p using t(2) by (intro cm_ok_mark_range) auto
  have update: ?thesis
    if "op_handle op = h" "op_reads op = {(h, k)}" "op_writes op v = update_writes h k (v h k) u"
      "op_returns op v r"
      and "tx' = tx\<lparr>ot_inner := store_updated E db h k (v h k) u (ot_inner tx), ot_cm := mark_update db h k (ot_cm tx)\<rparr>"
    for h k u
    using upd [of k "v h k" u] update_writes_keys [of h k "v h k" u] t(2) that
    by (intro step) (auto simp: mark_update_def id marks)
  show ?thesis
  proof (cases op)
    case (OpGet h k)
    then show ?thesis using run get t
      by (intro step) (auto simp: opt_get_def id read_set_mark_read cm_ok_mark_read)
  next
    case (OpContainsKey h k)
    then show ?thesis using run contains t
      by (intro step) (auto simp: opt_contains_key_def id read_set_mark_read cm_ok_mark_read)
  next
    case (OpSizeOf h k)
    then show ?thesis using op by simp
  next
    case (OpIter h)
    then show ?thesis using run scan(2) t
      by (intro step) (auto simp: opt_iter_def id read_set_mark_range cm_ok_mark_range in_range_def)
  next
    case (OpRange h rg)
    then show ?thesis using run scan(1) [of rg] t op
      by (intro step) (auto simp: opt_range_def id read_set_mark_range cm_ok_mark_range)
  next
    case (OpPrefix h p)
    have "scans (prefix p) (v h) (base_range E (ot_inner tx) h (pr p) db)"
      using scan(1) [of "pr p"] OpPrefix by (simp add: pref scans_def)
    with OpPrefix show ?thesis using run t ok
      by (intro step) (auto simp: opt_prefix_def opt_range_def id read_set_mark_range pref)
  next
    case (OpFirst h)
    then show ?thesis using run scan(2) t
      by (intro step) (auto simp: opt_first_key_value_def opt_iter_def id read_set_mark_range cm_ok_mark_range in_range_def)
  next
    case (OpLast h)
    then show ?thesis using run scan(2) t
      by (intro step) (auto simp: opt_last_key_value_def opt_iter_def id read_set_mark_range cm_ok_mark_range in_range_def)
  next
    case (OpInsert h k x)
    then show ?thesis using run wr [of "Insert k x"] t
      by (intro step) (auto simp: opt_insert_def id write_set_mark_conflict cm_ok_mark_conflict)
  next
    case (OpRemove h k)
    then show ?thesis using run wr [of "Remove k"] t
      by (intro step) (auto simp: opt_remove_def id write_set_mark_conflict cm_ok_mark_conflict)
  next
    case (OpRemoveWeak h k)
    then show ?thesis using run wr [of "RemoveWeak k"] t
      by (intro step) (auto simp: opt_remove_weak_def id write_set_mark_conflict cm_ok_mark_conflict)
  next
    case (OpUpdateFetch h k f)
    then show ?thesis using run get [of k]
      by (intro update [of h k "f (v h k)"]) (auto simp: opt_update_fetch_def base_update_fetch_def Let_def)
  next
    case (OpFetchUpdate h k f)
    then show ?thesis using run get [of k]
      by (intro update [of h k "f (v h k)"]) (auto simp: opt_fetch_update_def base_fetch_update_def Let_def)
  next
    case (OpTake h k)
    then show ?thesis using run get [of k]
      by (intro update [of h k "None"]) (auto simp: opt_take_def opt_fetch_update_def base_fetch_update_def Let_def)
  qed
qed

end
