(* ===== verification/SingleWriter.thy ===== *)
theory SingleWriter
  imports OptimisticRuns
begin

text \<open>
  \<open>src/tx/single_writer\<close>: transactions under one writer lock, and the keyspace calls that run one
  transaction each.

  A transaction owns the lock from \<open>write_tx\<close> to its end, so whole transactions follow each
  other and each keyspace call is one step.  A panic while the lock is held poisons it, and the
  next \<open>write_tx\<close> panics.  The transaction drops its nonce when it ends.
\<close>

section \<open>State\<close>

record 't sw_db =
  sw_inner :: "'t db"
  sw_lock_poisoned :: bool

record 'm sw_tx =
  st_inner :: "'m base_tx"

definition sw_open :: "'t db \<Rightarrow> 't sw_db" where
  "sw_open inner = \<lparr>sw_inner = inner, sw_lock_poisoned = False\<rparr>"

section \<open>Operations of a transaction\<close>

definition st_new :: "seqno \<Rightarrow> 'm sw_tx" where
  "st_new instant = \<lparr>st_inner = base_new instant\<rparr>"

definition st_durability :: "persist_mode option \<Rightarrow> 'm sw_tx \<Rightarrow> 'm sw_tx" where
  "st_durability mode tx = tx\<lparr>st_inner := base_durability mode (st_inner tx)\<rparr>"

definition sw_write_tx :: "'t sw_db \<Rightarrow> 'm sw_tx result \<times> 't sw_db" where
  "sw_write_tx sd =
     (if sw_lock_poisoned sd then (Inl (Panic ''poisoned tx lock''), sd)
      else
        let (tr, instant) = tracker_open (db_tracker (sw_inner sd));
            write_tx = st_new instant
        in (Inr (if db_manual_journal_persist (sw_inner sd) then write_tx
                 else st_durability (Some Buffer) write_tx),
            sd\<lparr>sw_inner := (sw_inner sd)\<lparr>db_tracker := tr\<rparr>\<rparr>))"

definition st_get :: "('t, 'm) engine \<Rightarrow> u64 \<Rightarrow> bytes \<Rightarrow> 't db \<Rightarrow> 'm sw_tx \<Rightarrow> bytes option result" where
  "st_get E h key db tx = base_get E (st_inner tx) h key db"

definition st_contains_key :: "('t, 'm) engine \<Rightarrow> u64 \<Rightarrow> bytes \<Rightarrow> 't db \<Rightarrow> 'm sw_tx \<Rightarrow> bool result" where
  "st_contains_key E h key db tx = base_contains_key E (st_inner tx) h key db"

definition st_first_key_value :: "('t, 'm) engine \<Rightarrow> u64 \<Rightarrow> 't db \<Rightarrow> 'm sw_tx \<Rightarrow> guard option" where
  "st_first_key_value E h db tx = base_first_key_value E (st_inner tx) h db"

definition st_last_key_value :: "('t, 'm) engine \<Rightarrow> u64 \<Rightarrow> 't db \<Rightarrow> 'm sw_tx \<Rightarrow> guard option" where
  "st_last_key_value E h db tx = base_last_key_value E (st_inner tx) h db"

definition st_size_of :: "('t, 'm) engine \<Rightarrow> u64 \<Rightarrow> bytes \<Rightarrow> 't db \<Rightarrow> 'm sw_tx \<Rightarrow> u32 option result" where
  "st_size_of E h key db tx = base_size_of E (st_inner tx) h key db"

definition st_iter :: "('t, 'm) engine \<Rightarrow> u64 \<Rightarrow> 't db \<Rightarrow> 'm sw_tx \<Rightarrow> guard list" where
  "st_iter E h db tx = base_iter E (st_inner tx) h db"

definition st_range :: "('t, 'm) engine \<Rightarrow> u64 \<Rightarrow> key_range \<Rightarrow> 't db \<Rightarrow> 'm sw_tx \<Rightarrow> guard list" where
  "st_range E h rg db tx = base_range E (st_inner tx) h rg db"

definition st_prefix :: "('t, 'm) engine \<Rightarrow> u64 \<Rightarrow> bytes \<Rightarrow> 't db \<Rightarrow> 'm sw_tx \<Rightarrow> guard list" where
  "st_prefix E h p db tx = base_prefix E (st_inner tx) h p db"

definition st_take ::
    "('t, 'm) engine \<Rightarrow> u64 \<Rightarrow> bytes \<Rightarrow> 't db \<Rightarrow> 'm sw_tx \<Rightarrow> bytes option result \<times> 'm sw_tx" where
  "st_take E h key db tx =
     (let (r, inner) = base_take E db h key (st_inner tx) in (r, tx\<lparr>st_inner := inner\<rparr>))"

definition st_update_fetch ::
    "('t, 'm) engine \<Rightarrow> u64 \<Rightarrow> bytes \<Rightarrow> (bytes option \<Rightarrow> bytes option) \<Rightarrow> 't db \<Rightarrow> 'm sw_tx
     \<Rightarrow> bytes option result \<times> 'm sw_tx" where
  "st_update_fetch E h key f db tx =
     (let (r, inner) = base_update_fetch E db h key f (st_inner tx) in (r, tx\<lparr>st_inner := inner\<rparr>))"

definition st_fetch_update ::
    "('t, 'm) engine \<Rightarrow> u64 \<Rightarrow> bytes \<Rightarrow> (bytes option \<Rightarrow> bytes option) \<Rightarrow> 't db \<Rightarrow> 'm sw_tx
     \<Rightarrow> bytes option result \<times> 'm sw_tx" where
  "st_fetch_update E h key f db tx =
     (let (r, inner) = base_fetch_update E db h key f (st_inner tx) in (r, tx\<lparr>st_inner := inner\<rparr>))"

definition st_insert :: "('t, 'm) engine \<Rightarrow> u64 \<Rightarrow> bytes \<Rightarrow> bytes \<Rightarrow> 't db \<Rightarrow> 'm sw_tx \<Rightarrow> 'm sw_tx" where
  "st_insert E h key value db tx = tx\<lparr>st_inner := base_insert E db h key value (st_inner tx)\<rparr>"

definition st_remove :: "('t, 'm) engine \<Rightarrow> u64 \<Rightarrow> bytes \<Rightarrow> 't db \<Rightarrow> 'm sw_tx \<Rightarrow> 'm sw_tx" where
  "st_remove E h key db tx = tx\<lparr>st_inner := base_remove E db h key (st_inner tx)\<rparr>"

definition st_remove_weak :: "('t, 'm) engine \<Rightarrow> u64 \<Rightarrow> bytes \<Rightarrow> 't db \<Rightarrow> 'm sw_tx \<Rightarrow> 'm sw_tx" where
  "st_remove_weak E h key db tx = tx\<lparr>st_inner := base_remove_weak E db h key (st_inner tx)\<rparr>"

text \<open>The end of a transaction: the nonce goes, and with a panic the lock is poisoned.\<close>

definition st_end :: "'m sw_tx \<Rightarrow> 'a result \<Rightarrow> 't sw_db \<Rightarrow> 't sw_db" where
  "st_end tx r sd =
     sd\<lparr>sw_inner := iter_drop (tx_instant (st_inner tx)) (sw_inner sd),
        sw_lock_poisoned := (case r of Inl e \<Rightarrow> is_panic e | Inr _ \<Rightarrow> False)\<rparr>"

definition st_commit :: "('t, 'm) engine \<Rightarrow> 'm sw_tx \<Rightarrow> 't sw_db \<Rightarrow> unit result \<times> 't sw_db" where
  "st_commit E tx sd =
     (let (r, db) = base_commit E (st_inner tx) (sw_inner sd)
      in (r, st_end tx r (sd\<lparr>sw_inner := db\<rparr>)))"

definition st_rollback :: "'m sw_tx \<Rightarrow> 't sw_db \<Rightarrow> 't sw_db" where
  "st_rollback tx sd = st_end tx (Inr ()) sd"

section \<open>Keyspace calls\<close>

text \<open>A call whose transaction step may fail: an error of the step drops the transaction.\<close>

definition with_sw_tx ::
    "('t, 'm) engine \<Rightarrow> ('t db \<Rightarrow> 'm sw_tx \<Rightarrow> 'a result \<times> 'm sw_tx) \<Rightarrow> 't sw_db \<Rightarrow> 'a result \<times> 't sw_db" where
  "with_sw_tx E step sd =
     (case sw_write_tx sd of
        (Inl e, sd1) \<Rightarrow> (Inl e, sd1)
      | (Inr tx, sd1) \<Rightarrow>
          (case step (sw_inner sd1) tx of
             (Inl e, tx1) \<Rightarrow> (Inl e, st_end tx1 (Inl e :: unit result) sd1)
           | (Inr x, tx1) \<Rightarrow>
               (case st_commit E tx1 sd1 of
                  (Inl e, sd2) \<Rightarrow> (Inl e, sd2)
                | (Inr _, sd2) \<Rightarrow> (Inr x, sd2))))"

definition swk_fetch_update ::
    "('t, 'm) engine \<Rightarrow> u64 \<Rightarrow> bytes \<Rightarrow> (bytes option \<Rightarrow> bytes option) \<Rightarrow> 't sw_db \<Rightarrow> bytes option result \<times> 't sw_db" where
  "swk_fetch_update E h key f sd = with_sw_tx E (st_fetch_update E h key f) sd"

definition swk_update_fetch ::
    "('t, 'm) engine \<Rightarrow> u64 \<Rightarrow> bytes \<Rightarrow> (bytes option \<Rightarrow> bytes option) \<Rightarrow> 't sw_db \<Rightarrow> bytes option result \<times> 't sw_db" where
  "swk_update_fetch E h key f sd = with_sw_tx E (st_update_fetch E h key f) sd"

definition swk_take :: "('t, 'm) engine \<Rightarrow> u64 \<Rightarrow> bytes \<Rightarrow> 't sw_db \<Rightarrow> bytes option result \<times> 't sw_db" where
  "swk_take E h key sd = swk_fetch_update E h key (\<lambda>_. None) sd"

definition swk_insert :: "('t, 'm) engine \<Rightarrow> u64 \<Rightarrow> bytes \<Rightarrow> bytes \<Rightarrow> 't sw_db \<Rightarrow> unit result \<times> 't sw_db" where
  "swk_insert E h key value sd = with_sw_tx E (\<lambda>db tx. (Inr (), st_insert E h key value db tx)) sd"

definition swk_remove :: "('t, 'm) engine \<Rightarrow> u64 \<Rightarrow> bytes \<Rightarrow> 't sw_db \<Rightarrow> unit result \<times> 't sw_db" where
  "swk_remove E h key sd = with_sw_tx E (\<lambda>db tx. (Inr (), st_remove E h key db tx)) sd"

definition swk_remove_weak :: "('t, 'm) engine \<Rightarrow> u64 \<Rightarrow> bytes \<Rightarrow> 't sw_db \<Rightarrow> unit result \<times> 't sw_db" where
  "swk_remove_weak E h key sd = with_sw_tx E (\<lambda>db tx. (Inr (), st_remove_weak E h key db tx)) sd"

definition swk_get :: "('t, 'm) engine \<Rightarrow> u64 \<Rightarrow> bytes \<Rightarrow> 't sw_db \<Rightarrow> bytes option result" where
  "swk_get E h key sd = keyspace_get E h key (sw_inner sd)"

definition swk_size_of :: "('t, 'm) engine \<Rightarrow> u64 \<Rightarrow> bytes \<Rightarrow> 't sw_db \<Rightarrow> u32 option result" where
  "swk_size_of E h key sd = keyspace_size_of E h key (sw_inner sd)"

definition swk_contains_key :: "('t, 'm) engine \<Rightarrow> u64 \<Rightarrow> bytes \<Rightarrow> 't sw_db \<Rightarrow> bool result" where
  "swk_contains_key E h key sd = keyspace_contains_key E h key (sw_inner sd)"

text \<open>The end reads open a snapshot for the call and drop it; the guard that is returned has read.\<close>

definition swk_first_key_value :: "('t, 'm) engine \<Rightarrow> u64 \<Rightarrow> 't sw_db \<Rightarrow> guard option \<times> 't sw_db" where
  "swk_first_key_value E h sd =
     (let (instant, db) = database_snapshot (sw_inner sd)
      in (snapshot_first_key_value E instant h db, sd\<lparr>sw_inner := iter_drop instant db\<rparr>))"

definition swk_last_key_value :: "('t, 'm) engine \<Rightarrow> u64 \<Rightarrow> 't sw_db \<Rightarrow> guard option \<times> 't sw_db" where
  "swk_last_key_value E h sd =
     (let (instant, db) = database_snapshot (sw_inner sd)
      in (snapshot_last_key_value E instant h db, sd\<lparr>sw_inner := iter_drop instant db\<rparr>))"

end
