(* ===== verification/Serializability.thy ===== *)
theory Serializability
  imports OptimisticRuns
begin

text \<open>
  The optimistic database as a transition system: transactions begin, run their operations,
  commit or roll back in any interleaving, between snapshots, persists and collections.  The
  invariant ties the oracle's records to the history of commits, and the contents to the serial
  execution of the committed transactions.
\<close>

section \<open>The tracker under collection\<close>

text \<open>What stays true of the tracker even when an instant is closed more often than it was opened.\<close>

definition tracker_low :: "tracker \<Rightarrow> bool" where
  "tracker_low t \<longleftrightarrow> (\<forall>k\<in>table_keys (tr_data t). k \<le> tr_seqno t) \<and>
     tr_lowest_freed_instant t \<le> sat_sub (tr_seqno t) 1"

definition tracker_later :: "tracker \<Rightarrow> tracker \<Rightarrow> bool" where
  "tracker_later t t' \<longleftrightarrow> tr_seqno t \<le> tr_seqno t' \<and>
     (tracker_low t \<longrightarrow> tracker_low t' \<and> get_seqno_safe_to_gc t \<le> get_seqno_safe_to_gc t')"

lemma tracker_later_refl [simp]: "tracker_later t t"
  by (simp add: tracker_later_def)

lemma tracker_later_trans: "tracker_later a b \<Longrightarrow> tracker_later b c \<Longrightarrow> tracker_later a c"
  unfolding tracker_later_def by (meson order_trans)

lemma gc_scan_le:
  "\<forall>e\<in>set d. fst e \<le> m \<Longrightarrow> lo \<le> m \<Longrightarrow> fst (gc_scan th d (lo, n)) \<le> m"
  by (induction th d "(lo, n)" arbitrary: lo n rule: gc_scan.induct) (auto simp: min_def)

lemma later_gc: "tracker_later t (tracker_gc t)"
proof -
  obtain lo n where scan: "gc_scan (tr_seqno t) (tr_data t) (0, True) = (lo, n)" by fastforce
  have "sat_sub (if n then tr_seqno t else lo) 1 \<le> sat_sub (tr_seqno t) 1"
    if "\<forall>k\<in>table_keys (tr_data t). k \<le> tr_seqno t"
  proof (rule sat_sub_one_mono)
    have "\<forall>e\<in>set (tr_data t). fst e \<le> tr_seqno t" using that by (auto simp: table_keys_def)
    from gc_scan_le [OF this, of 0 "tr_seqno t" True] scan
    show "(if n then tr_seqno t else lo) \<le> tr_seqno t" by simp
  qed
  then show ?thesis
    using keys_filter [of "gc_retained (tr_seqno t)" "tr_data t"]
    by (auto simp: tracker_later_def tracker_low_def tracker_gc_def Let_def scan get_seqno_safe_to_gc_def)
qed

lemma later_close_raw: "tracker_later t (close_raw i t)"
proof -
  have "tracker_later t (t\<lparr>tr_data := entry_decrement i (tr_data t), tr_freed_count := tr_freed_count t + 1\<rparr>)"
    by (simp add: tracker_later_def tracker_low_def get_seqno_safe_to_gc_def)
  then show ?thesis using tracker_later_trans [OF _ later_gc] by (simp add: close_raw_def Let_def)
qed

lemma later_open: "tracker_open t = (t', i) \<Longrightarrow> tracker_later t t'"
  by (auto simp: tracker_open_def Let_def tracker_later_def tracker_low_def keys_entry_increment get_seqno_safe_to_gc_def)

lemma later_publish: "tracker_later t (publish s t)"
proof -
  have "sat_sub (tr_seqno t) 1 \<le> sat_sub (max (tr_seqno t) (s + 1)) 1" by (rule sat_sub_one_mono) simp
  then show ?thesis by (auto simp: tracker_later_def tracker_low_def publish_def get_seqno_safe_to_gc_def le_max_iff_disj)
qed

lemma later_pullup: "tracker_later t (pullup t)"
  by (auto simp: tracker_later_def tracker_low_def pullup_def get_seqno_safe_to_gc_def)

lemma collect_seqno [simp]: "tr_seqno (tracker_gc t) = tr_seqno t" "tr_seqno (pullup t) = tr_seqno t"
  by (simp_all add: tracker_gc_def pullup_def Let_def split: prod.split)

section \<open>Steps\<close>

record ('t, 'm) opt_sys =
  sys_db :: "'t optimistic_db"
  sys_active :: "nat \<Rightarrow> ('m opt_tx \<times> op_log) option"
  sys_log :: op_log
  sys_history :: history

definition sys_open :: "'t db \<Rightarrow> ('t, 'm) opt_sys" where
  "sys_open db = \<lparr>sys_db = optimistic_open db, sys_active = Map.empty, sys_log = [], sys_history = []\<rparr>"

abbreviation sys_inner :: "('t, 'm) opt_sys \<Rightarrow> 't db" where "sys_inner s \<equiv> ob_inner (sys_db s)"

text \<open>A commit that wrote something appends the transaction's log to the serial log.\<close>

definition sys_commit ::
    "nat \<Rightarrow> 'm opt_tx \<Rightarrow> op_log \<Rightarrow> (conflict + unit) result \<Rightarrow> 't optimistic_db \<Rightarrow> ('t, 'm) opt_sys \<Rightarrow> ('t, 'm) opt_sys" where
  "sys_commit n tx l r ob s =
     (let s' = s\<lparr>sys_db := ob, sys_active := (sys_active s)(n := None)\<rparr> in
      if r = Inr (Inr ()) \<and> tx_memtables (ot_inner tx) \<noteq> []
      then s'\<lparr>sys_log := sys_log s @ l, sys_history := (tracker_get (db_tracker (ob_inner ob)), ot_cm tx) # sys_history s\<rparr>
      else s')"

text \<open>One step.  A commit is only taken while the transaction's snapshot is above the watermark
  of the collection, and while sequence numbers last.\<close>

inductive opt_step ::
    "('t, 'm) engine \<Rightarrow> (bytes \<Rightarrow> key_range) \<Rightarrow> ('t, 'm) opt_sys \<Rightarrow> ('t, 'm) opt_sys \<Rightarrow> bool" for E pr where
  step_begin: "optimistic_write_tx (sys_db s) = (Inr tx, ob) \<Longrightarrow> sys_active s n = None \<Longrightarrow>
    opt_step E pr s (s\<lparr>sys_db := ob, sys_active := (sys_active s)(n \<mapsto> (tx, []))\<rparr>)"
| step_op: "sys_active s n = Some (tx, l) \<Longrightarrow> db_handles (sys_inner s) (op_handle op) \<noteq> None \<Longrightarrow> op_tracked op \<Longrightarrow>
    tx_seqno (ot_inner tx) \<noteq> SEQNO_MAX \<Longrightarrow> run_op E pr op (sys_inner s) tx = (r, tx') \<Longrightarrow>
    opt_step E pr s (s\<lparr>sys_active := (sys_active s)(n \<mapsto> (tx', l @ [(op, r)]))\<rparr>)"
| step_durability: "sys_active s n = Some (tx, l) \<Longrightarrow>
    opt_step E pr s (s\<lparr>sys_active := (sys_active s)(n \<mapsto> (opt_durability mode tx, l))\<rparr>)"
| step_commit: "sys_active s n = Some (tx, l) \<Longrightarrow> opt_commit E tx (sys_db s) = (r, ob) \<Longrightarrow>
    get_seqno_safe_to_gc (db_tracker (sys_inner s)) < tx_instant (ot_inner tx) \<Longrightarrow>
    db_seqno (sys_inner s) \<noteq> SEQNO_MAX \<Longrightarrow> opt_step E pr s (sys_commit n tx l r ob s)"
| step_rollback: "sys_active s n = Some (tx, l) \<Longrightarrow>
    opt_step E pr s (s\<lparr>sys_db := opt_rollback tx (sys_db s), sys_active := (sys_active s)(n := None)\<rparr>)"
| step_persist: "database_persist E mode (sys_inner s) = (r, db) \<Longrightarrow>
    opt_step E pr s (s\<lparr>sys_db := (sys_db s)\<lparr>ob_inner := db\<rparr>\<rparr>)"
| step_snapshot: "database_snapshot (sys_inner s) = (i, db) \<Longrightarrow>
    opt_step E pr s (s\<lparr>sys_db := (sys_db s)\<lparr>ob_inner := db\<rparr>\<rparr>)"
| step_drop: "opt_step E pr s (s\<lparr>sys_db := ob_drop_nonce i (sys_db s)\<rparr>)"
| step_collect: "t \<in> {tracker_gc (db_tracker (sys_inner s)), pullup (db_tracker (sys_inner s))} \<Longrightarrow>
    opt_step E pr s (s\<lparr>sys_db := (sys_db s)\<lparr>ob_inner := (sys_inner s)\<lparr>db_tracker := t\<rparr>\<rparr>\<rparr>)"

inductive opt_reachable ::
    "('t, 'm) engine \<Rightarrow> (bytes \<Rightarrow> key_range) \<Rightarrow> 't db \<Rightarrow> ('t, 'm) opt_sys \<Rightarrow> bool" for E pr db where
  reach_open: "opt_reachable E pr db (sys_open db)"
| reach_opt: "opt_reachable E pr db s \<Longrightarrow> opt_step E pr s s' \<Longrightarrow> opt_reachable E pr db s'"

section \<open>The invariant\<close>

definition sys_store :: "('t \<Rightarrow> content) \<Rightarrow> seqno \<Rightarrow> 't db \<Rightarrow> bool" where
  "sys_store hc b db \<longleftrightarrow> db_inv hc db \<and> names_distinct db \<and> tracker_low (db_tracker db) \<and> b \<le> tr_seqno (db_tracker db)"

text \<open>Every change since an instant was made by a recorded commit after it.\<close>

definition changes_recorded :: "('t \<Rightarrow> content) \<Rightarrow> seqno \<Rightarrow> history \<Rightarrow> 't db \<Rightarrow> bool" where
  "changes_recorded hc b H db \<longleftrightarrow>
     (\<forall>i h k. b \<le> i \<longrightarrow> read_at hc i db h k \<noteq> read_at hc (db_seqno db) db h k \<longrightarrow>
        (\<exists>(ts, cm)\<in>set H. i < ts \<and> (h, k) \<in> write_set cm)) \<and>
     (\<forall>(ts, cm)\<in>set H. ts \<le> db_seqno db)"

definition sys_oracle :: "history \<Rightarrow> 't optimistic_db \<Rightarrow> bool" where
  "sys_oracle H ob \<longleftrightarrow> oracle_complete H (ob_oracle ob) \<and> oracle_sound H (ob_oracle ob)"

definition sys_serial :: "('t \<Rightarrow> content) \<Rightarrow> view \<Rightarrow> op_log \<Rightarrow> 't db \<Rightarrow> bool" where
  "sys_serial hc v0 l db \<longleftrightarrow> log_returns v0 l \<and> read_at hc (db_seqno db) db = serial_view v0 l"

definition sys_txs :: "('t, 'm) engine \<Rightarrow> ('t \<Rightarrow> content) \<Rightarrow> seqno \<Rightarrow> 't db \<Rightarrow> (nat \<Rightarrow> ('m opt_tx \<times> op_log) option) \<Rightarrow> bool" where
  "sys_txs E hc b db act \<longleftrightarrow>
     (\<forall>n tx l. act n = Some (tx, l) \<longrightarrow> opt_inv E hc db l tx \<and> b \<le> tx_instant (ot_inner tx))"

definition sys_inv :: "('t, 'm) engine \<Rightarrow> ('t \<Rightarrow> content) \<Rightarrow> seqno \<Rightarrow> view \<Rightarrow> ('t, 'm) opt_sys \<Rightarrow> bool" where
  "sys_inv E hc b v0 s \<longleftrightarrow>
     sys_store hc b (sys_inner s) \<and> changes_recorded hc b (sys_history s) (sys_inner s) \<and>
     sys_oracle (sys_history s) (sys_db s) \<and> sys_serial hc v0 (sys_log s) (sys_inner s) \<and>
     sys_txs E hc b (sys_inner s) (sys_active s)"

section \<open>Steps that write nothing\<close>

lemma tx_inv_handles: "(\<And>h. db_handles db' h = None \<longleftrightarrow> db_handles db h = None) \<Longrightarrow> tx_inv E db' ws tx = tx_inv E db ws tx"
  by (simp add: tx_inv_def)

lemma read_at_top:
  assumes "db_inv hc db" "db_seqno db \<le> i"
  shows "read_at hc i db = read_at hc (db_seqno db) db"
proof
  fix h
  show "read_at hc i db h = read_at hc (db_seqno db) db h"
    using assms seen_at_top [of i _ "db_seqno db"] below_mono [of "db_seqno db" _ i]
    by (auto simp: read_at_def db_inv_def split: option.split)
qed

definition quiet :: "'t db \<Rightarrow> 't db \<Rightarrow> bool" where
  "quiet db db' \<longleftrightarrow> db_handles db' = db_handles db \<and> db_seqno db \<le> db_seqno db' \<and>
     tracker_later (db_tracker db) (db_tracker db') \<and> tr_seqno (db_tracker db') = tr_seqno (db_tracker db)"

lemma quiet_refl [simp]: "quiet db db"
  by (simp add: quiet_def)

lemma quiet_trans: "quiet a b \<Longrightarrow> quiet b c \<Longrightarrow> quiet a c"
  by (auto simp: quiet_def intro: tracker_later_trans)

lemma quiet_tracker:
  "tracker_later (db_tracker db) t \<Longrightarrow> tr_seqno t = tr_seqno (db_tracker db) \<Longrightarrow> quiet db (db\<lparr>db_tracker := t\<rparr>)"
  by (simp add: quiet_def)

lemma quiet_drop: "quiet db (iter_drop i db)"
  unfolding iter_drop_def by (rule quiet_tracker) (simp_all add: later_close_raw)

lemma quiet_inv:
  assumes "quiet db db'" "db_inv hc db"
  shows "db_inv hc db'" "read_at hc i db' = read_at hc i db"
    "read_at hc (db_seqno db') db' = read_at hc (db_seqno db) db"
proof -
  show reads: "read_at hc i db' = read_at hc i db" for i using assms(1) by (intro read_at_cong) (simp add: quiet_def)
  show "db_inv hc db'"
    using assms by (auto simp: quiet_def db_inv_def intro: below_mono order_trans)
  show "read_at hc (db_seqno db') db' = read_at hc (db_seqno db) db"
    unfolding reads using assms by (intro read_at_top) (simp_all add: quiet_def)
qed

lemma quiet_store: "quiet db db' \<Longrightarrow> sys_store hc b db \<Longrightarrow> sys_store hc b db'"
  using quiet_inv(1) [of db db' hc]
  by (simp add: sys_store_def quiet_def tracker_later_def names_distinct_def same_name_def)

lemma quiet_txs:
  assumes "quiet db db'" "db_inv hc db" "sys_txs E hc b db act"
  shows "sys_txs E hc b db' act"
proof -
  have "opt_inv E hc db' l tx" if "opt_inv E hc db l tx" for l tx
    using that assms(1) quiet_inv(2) [OF assms(1,2)] tx_inv_handles [of db' db]
    by (auto simp: opt_inv_def Let_def quiet_def intro: order_trans)
  then show ?thesis using assms(3) by (auto simp: sys_txs_def)
qed

lemma oracle_kept:
  assumes "sys_oracle H ob" "sys_store hc b (ob_inner ob)"
    and "tracker_later (db_tracker (ob_inner ob)) t" "tracker_later t (db_tracker (ob_inner ob'))"
    and "ob_committed ob' = ob_committed ob \<or>
      ob_committed ob' = filter (\<lambda>(ts, _). get_seqno_safe_to_gc t < ts) (ob_committed ob)"
  shows "sys_oracle H ob'"
proof -
  have "get_seqno_safe_to_gc (db_tracker (ob_inner ob)) \<le> get_seqno_safe_to_gc t"
    "get_seqno_safe_to_gc t \<le> get_seqno_safe_to_gc (db_tracker (ob_inner ob'))"
    using assms(2-4) by (simp_all add: sys_store_def tracker_later_def)
  then have "(ts, cm) \<in> set (ob_committed ob')"
    if "(ts, cm) \<in> set H" "get_seqno_safe_to_gc (db_tracker (ob_inner ob')) < ts" for ts cm
    using that assms(1,5) by (auto simp: sys_oracle_def oracle_complete_def ob_oracle_def)
  moreover have "set (ob_committed ob') \<subseteq> set H"
    using assms(1,5) by (auto simp: sys_oracle_def oracle_sound_def ob_oracle_def)
  ultimately show ?thesis by (simp add: sys_oracle_def oracle_complete_def oracle_sound_def ob_oracle_def)
qed

lemma quiet_step:
  assumes "sys_inv E hc b v0 s" "quiet (sys_inner s) (ob_inner ob)" "sys_oracle (sys_history s) ob"
  shows "sys_inv E hc b v0 (s\<lparr>sys_db := ob\<rparr>)"
proof -
  have inv: "db_inv hc (sys_inner s)" using assms(1) by (simp add: sys_inv_def sys_store_def)
  have "changes_recorded hc b (sys_history s) (ob_inner ob)"
  proof -
    have "db_seqno (sys_inner s) \<le> db_seqno (ob_inner ob)" using assms(2) by (simp add: quiet_def)
    then show ?thesis
      using assms(1) unfolding sys_inv_def changes_recorded_def quiet_inv(3) [OF assms(2) inv]
      unfolding quiet_inv(2) [OF assms(2) inv] by (auto intro: order_trans)
  qed
  moreover have "sys_serial hc v0 (sys_log s) (ob_inner ob)"
    using assms(1) unfolding sys_inv_def sys_serial_def quiet_inv(3) [OF assms(2) inv] by simp
  ultimately show ?thesis
    using assms(1,3) quiet_store [OF assms(2)] quiet_txs [OF assms(2) inv, of E] by (simp add: sys_inv_def)
qed

lemma quiet_step_same:
  assumes "sys_inv E hc b v0 s" "quiet (sys_inner s) (ob_inner ob)" "ob_committed ob = ob_committed (sys_db s)"
  shows "sys_inv E hc b v0 (s\<lparr>sys_db := ob\<rparr>)"
proof (rule quiet_step [OF assms(1,2)])
  show "sys_oracle (sys_history s) ob"
    by (rule oracle_kept [of _ "sys_db s" hc b "db_tracker (sys_inner s)"])
      (use assms in \<open>simp_all add: sys_inv_def quiet_def\<close>)
qed

lemma drop_tx:
  assumes "sys_inv E hc b v0 s"
  shows "sys_inv E hc b v0 (s\<lparr>sys_active := (sys_active s)(n := None)\<rparr>)"
  using assms by (auto simp: sys_inv_def sys_txs_def)

section \<open>Commits\<close>

text \<open>A commit that passed validation has read nothing that changed since its snapshot.\<close>

lemma validated_reads:
  assumes "sys_store hc b db" "changes_recorded hc b H db" "oracle_complete H orc" "oracle_sound H orc"
    and "cm_ok cc" "instant \<noteq> - 1" "get_seqno_safe_to_gc (or_tracker orc) < instant" "b \<le> instant"
    and "any_has_conflict cc (filter (\<lambda>(ts, _). instant + 1 \<le> ts) (or_committed orc)) = Inr False"
  shows "agree (read_set cc) (read_at hc instant db) (read_at hc (db_seqno db) db)"
proof -
  have "\<not> (\<exists>(ts, other)\<in>set H. instant < ts \<and> read_set cc \<inter> write_set other \<noteq> {})"
    using validation_eq [OF assms(5,6,3,4,7)] assms(9) by simp
  then show ?thesis using assms(2,8) unfolding agree_def changes_recorded_def by fastforce
qed

text \<open>The state the commit closure starts from.\<close>

lemma commit_base:
  assumes L: "lsm_ok (en_lsm E) hc" and db: "sys_store hc b db" and s: "db_seqno db \<noteq> - 1"
    and tx: "opt_inv E hc db l tx" "tx_memtables (ot_inner tx) \<noteq> []"
    and run: "base_commit E (ot_inner tx) (db\<lparr>db_tracker := close_raw i (db_tracker db)\<rparr>) = (r, db1)"
  obtains (failed) e where "r = Inl e" "quiet db db1" "db_tracker db1 = close_raw i (db_tracker db)"
  | (committed) "r = Inr ()" "same_handles db db1" "db_inv hc db1" "db_seqno db1 = db_seqno db + 1"
      "db_tracker db1 = publish (db_seqno db) (close_raw i (db_tracker db))"
      "\<forall>j. j \<le> db_seqno db \<longrightarrow> read_at hc j db1 = read_at hc j db"
      "read_at hc (db_seqno db + 1) db1 =
        fold view_write (log_writes (read_at hc (tx_instant (ot_inner tx)) db) l) (read_at hc (db_seqno db) db)"
proof -
  let ?db = "db\<lparr>db_tracker := close_raw i (db_tracker db)\<rparr>"
  let ?ws = "log_writes (read_at hc (tx_instant (ot_inner tx)) db) l"
  have q: "quiet db ?db" by (rule quiet_tracker) (simp_all add: later_close_raw)
  have inv: "db_inv hc db" using db by (simp add: sys_store_def)
  have txi: "tx_inv E db ?ws (ot_inner tx)" using tx(1) by (simp add: opt_inv_def Let_def)
  then have txi': "tx_inv E ?db ?ws (ot_inner tx)" by (simp add: tx_inv_def)
  have ws: "?ws \<noteq> []" using txi tx(2) by (simp add: tx_inv_def)
  have s': "db_seqno ?db \<noteq> - 1" using s by simp
  from L quiet_inv(1) [OF q inv] s' txi' ws run show thesis
  proof (cases rule: base_commit_cases)
    case (rejected e)
    then show thesis using that(1) q by simp
  next
    case poisoned
    then show thesis
      using that(1) q less_imp_le [OF seqno_less_Suc [OF s]] by (intro that(1)) (auto simp: quiet_def)
  next
    case committed
    have "read_at hc (db_seqno db + 1) ?db = read_at hc (db_seqno db) db"
      using read_at_top [OF inv less_imp_le [OF seqno_less_Suc [OF s]]] by (simp add: read_at_def fun_eq_iff)
    moreover have "read_at hc j ?db = read_at hc j db" for j by (rule quiet_inv(2) [OF q inv])
    ultimately show thesis
      using committed seqno_less_Suc [OF s] by (intro that(2)) (auto simp: same_handles_def)
  qed
qed

text \<open>How \<open>commit\<close> ends, in terms of the commit closure.\<close>

lemma opt_commit_ends:
  assumes "tx_memtables (ot_inner tx) \<noteq> []" "cm_ok (ot_cm tx)" "opt_commit E tx ob = (r, ob')"
    and i: "i = tx_instant (ot_inner tx)"
  obtains (stopped) "ob_lock_poisoned ob" "r = Inl Poisoned" "ob_committed ob' = ob_committed ob" "ob_inner ob' = iter_drop i (ob_inner ob)"
  | (conflicted) "any_has_conflict (ot_cm tx) (filter (\<lambda>(ts, _). i + 1 \<le> ts) (ob_committed ob)) = Inr True"
      "r = Inr (Inl Conflict)" "ob_committed ob' = retained i (ob_oracle ob)"
      "ob_inner ob' = iter_drop i (iter_drop i (ob_inner ob))"
  | (failed) db1 e where
      "base_commit E (ot_inner tx) ((ob_inner ob)\<lparr>db_tracker := close_raw i (db_tracker (ob_inner ob))\<rparr>) = (Inl e, db1)"
      "r = Inl e" "ob_committed ob' = retained i (ob_oracle ob)" "ob_inner ob' = iter_drop i db1"
  | (committed) db1 where
      "base_commit E (ot_inner tx) ((ob_inner ob)\<lparr>db_tracker := close_raw i (db_tracker (ob_inner ob))\<rparr>) = (Inr (), db1)"
      "r = Inr (Inr ())" "ob_inner ob' = iter_drop i db1"
      "ob_committed ob' = btree_insert (tr_seqno (db_tracker db1)) (ot_cm tx) (retained i (ob_oracle ob))"
      "any_has_conflict (ot_cm tx) (filter (\<lambda>(ts, _). i + 1 \<le> ts) (ob_committed ob)) = Inr False"
proof -
  obtain db' held orc res where W: "with_commit i (ot_cm tx) (commit_body E (ot_inner tx)) ((ob_inner ob, True), ob_oracle ob) =
      (((db', held), orc), res)" by (metis prod_cases3 surj_pair)
  note run = assms(3) [unfolded opt_commit_def Let_def i [symmetric] W prod.case]
  obtain q db1 where B: "base_commit E (ot_inner tx)
      ((ob_inner ob)\<lparr>db_tracker := close_raw i (db_tracker (ob_inner ob))\<rparr>) = (q, db1)" by fastforce
  have f: "commit_body E (ot_inner tx) (ob_inner ob, True) (close_raw i (or_tracker (ob_oracle ob))) =
      ((iter_drop i db1, False), db_tracker (iter_drop i db1), q)"
    using B by (simp add: commit_body_def ob_oracle_def i Let_def)
  from assms(2) W show thesis
  proof (cases rule: with_commit_ends)
    case locked
    then show thesis using run assms(1) by (intro stopped) (auto simp: ob_oracle_def ob_drop_nonce_def)
  next
    case conflicted
    then show thesis
      using run assms(1) by (intro that(2)) (auto simp: ob_oracle_def ob_drop_nonce_def iter_drop_def)
  next
    case (failed t' e)
    with f have eqs: "q = Inl e" "db' = iter_drop i db1" "\<not> held" "t' = db_tracker (iter_drop i db1)" by auto
    with failed run assms(1) B show thesis by (intro that(3) [of e db1]) auto
  next
    case (committed t')
    with f have eqs: "q = Inr ()" "db' = iter_drop i db1" "\<not> held" "t' = db_tracker (iter_drop i db1)" by auto
    with committed run assms(1) B show thesis
      by (intro that(4) [of db1]) (auto simp: ob_oracle_def tracker_get_def iter_drop_def)
  qed
qed

lemma same_handles_names:
  assumes "same_handles db db'" "names_distinct db"
  shows "names_distinct db'"
proof -
  have "map_option ks_name (db_handles db' h) = map_option ks_name (db_handles db h)" for h
    using same_handles_None [OF assms(1), of h]
    by (cases "db_handles db' h") (auto elim: same_handles_ids [OF assms(1)])
  then show ?thesis
    using assms(2) same_handles_None [OF assms(1)] unfolding names_distinct_def same_name_def by metis
qed

text \<open>A commit that went through: the store, the other transactions, the records.\<close>

lemma committed_store:
  assumes "sys_store hc b db" "same_handles db db1" "db_inv hc db1"
    and "db_tracker db1 = publish (db_seqno db) (close_raw i (db_tracker db))"
  shows "sys_store hc b (iter_drop i db1)"
proof -
  have "tracker_later (db_tracker db) (db_tracker db1)"
    unfolding assms(4) by (rule tracker_later_trans [OF later_close_raw later_publish])
  then have "sys_store hc b db1"
    using assms(1,3) same_handles_names [OF assms(2)] by (auto simp: sys_store_def tracker_later_def)
  then show ?thesis by (rule quiet_store [OF quiet_drop])
qed

lemma committed_txs:
  assumes "sys_txs E hc b db act" "same_handles db db1" "db_seqno db \<le> db_seqno db1"
    and "\<forall>j. j \<le> db_seqno db \<longrightarrow> read_at hc j db1 = read_at hc j db"
  shows "sys_txs E hc b db1 act"
proof -
  have "opt_inv E hc db1 l tx" if "opt_inv E hc db l tx" for l tx
    using that assms(3,4) tx_inv_handles [OF same_handles_None [OF assms(2)]]
    by (auto simp: opt_inv_def Let_def intro: order_trans)
  then show ?thesis using assms(1) by (auto simp: sys_txs_def)
qed

lemma view_write_other: "(h, k) \<notin> (\<lambda>(h, w). (h, write_key w)) ` set ws \<Longrightarrow> fold view_write ws v h k = v h k"
  by (induction ws arbitrary: v) (auto simp: view_write_def)

lemma committed_changes:
  assumes "changes_recorded hc b H db" "db_inv hc db1" "db_seqno db \<noteq> - 1" "db_seqno db1 = db_seqno db + 1"
    and "\<forall>j. j \<le> db_seqno db \<longrightarrow> read_at hc j db1 = read_at hc j db"
    and "read_at hc (db_seqno db + 1) db1 = fold view_write ws (read_at hc (db_seqno db) db)"
    and "(\<lambda>(h, w). (h, write_key w)) ` set ws \<subseteq> write_set cm"
  shows "changes_recorded hc b ((db_seqno db + 1, cm) # H) db1"
proof -
  have lt: "db_seqno db < db_seqno db + 1" by (rule seqno_less_Suc [OF assms(3)])
  have "\<exists>(ts, c)\<in>set ((db_seqno db + 1, cm) # H). j < ts \<and> (h, k) \<in> write_set c"
    if "b \<le> j" "read_at hc j db1 h k \<noteq> read_at hc (db_seqno db1) db1 h k" for j h k
  proof (cases "db_seqno db < j")
    case True
    then have "db_seqno db1 \<le> j" using assms(3,4) plus_one_le_seqno by metis
    from read_at_top [OF assms(2) this] that(2) show ?thesis by simp
  next
    case False
    then have le: "j \<le> db_seqno db" by simp
    show ?thesis
    proof (cases "(h, k) \<in> write_set cm")
      case True
      then show ?thesis using le lt by auto
    next
      case F: False
      then have "(h, k) \<notin> (\<lambda>(h, w). (h, write_key w)) ` set ws" using assms(7) by blast
      then have "read_at hc (db_seqno db1) db1 h k = read_at hc (db_seqno db) db h k"
        using view_write_other by (simp add: assms(4,6))
      with that le assms(5) have "read_at hc j db h k \<noteq> read_at hc (db_seqno db) db h k" by simp
      then have "\<exists>(ts, c)\<in>set H. j < ts \<and> (h, k) \<in> write_set c"
        using assms(1) that(1) unfolding changes_recorded_def by blast
      then show ?thesis by auto
    qed
  qed
  moreover have "\<forall>(ts, c)\<in>set ((db_seqno db + 1, cm) # H). ts \<le> db_seqno db1"
    using assms(1,4) lt unfolding changes_recorded_def by fastforce
  ultimately show ?thesis unfolding changes_recorded_def by blast
qed

lemma committed_oracle:
  assumes "sys_oracle H ob" "sys_store hc b (ob_inner ob)" "ts \<notin> fst ` set H"
    and "ob_committed ob' = btree_insert ts cm (retained i (ob_oracle ob))"
    and "tracker_later (close_raw i (db_tracker (ob_inner ob))) (db_tracker (ob_inner ob'))"
  shows "sys_oracle ((ts, cm) # H) ob'"
proof -
  let ?ret = "retained i (ob_oracle ob)"
  have "sys_oracle H (ob'\<lparr>ob_committed := ?ret\<rparr>)"
    by (rule oracle_kept [OF assms(1,2) later_close_raw [of _ i]]) (use assms(5) in \<open>simp_all add: retained_def ob_oracle_def\<close>)
  then have ret: "set ?ret \<subseteq> set H"
    "\<And>q c. (q, c) \<in> set H \<Longrightarrow> get_seqno_safe_to_gc (db_tracker (ob_inner ob')) < q \<Longrightarrow> (q, c) \<in> set ?ret"
    by (auto simp: sys_oracle_def oracle_complete_def oracle_sound_def ob_oracle_def)
  have "(q, c) \<in> set (ob_committed ob')"
    if "(q, c) \<in> set ((ts, cm) # H)" "get_seqno_safe_to_gc (db_tracker (ob_inner ob')) < q" for q c
  proof (cases "(q, c) = (ts, cm)")
    case True
    then show ?thesis by (simp add: assms(4) in_btree_insert(2))
  next
    case False
    with that have "(q, c) \<in> set H" by auto
    moreover from this have "q \<noteq> ts" using assms(3) by force
    ultimately show ?thesis
      using ret(2) that(2) unfolding assms(4) by (intro in_btree_insert(3)) auto
  qed
  moreover have "set (ob_committed ob') \<subseteq> set ((ts, cm) # H)"
    using ret(1) in_btree_insert(1) [of _ ts cm ?ret] unfolding assms(4) by auto
  ultimately show ?thesis
    by (simp add: sys_oracle_def oracle_complete_def oracle_sound_def ob_oracle_def)
qed

lemma commit_step_ok:
  assumes L: "lsm_ok (en_lsm E) hc" and inv: "sys_inv E hc b v0 s" and act: "sys_active s n = Some (tx, l)"
    and ms: "tx_memtables (ot_inner tx) \<noteq> []" and s: "db_seqno (sys_inner s) \<noteq> - 1"
    and low: "get_seqno_safe_to_gc (db_tracker (sys_inner s)) < tx_instant (ot_inner tx)"
    and i: "i = tx_instant (ot_inner tx)"
    and base: "base_commit E (ot_inner tx)
        ((sys_inner s)\<lparr>db_tracker := close_raw i (db_tracker (sys_inner s))\<rparr>) = (Inr (), db1)"
    and ob: "ob_inner ob = iter_drop i db1"
      "ob_committed ob = btree_insert (tr_seqno (db_tracker db1)) (ot_cm tx) (retained i (ob_oracle (sys_db s)))"
    and ok: "any_has_conflict (ot_cm tx) (filter (\<lambda>(ts, _). i + 1 \<le> ts) (ob_committed (sys_db s))) = Inr False"
  shows "sys_inv E hc b v0 (sys_commit n tx l (Inr (Inr ())) ob s)"
proof -
  let ?db = "sys_inner s" and ?v = "read_at hc i (sys_inner s)"
  have S: "sys_store hc b ?db" "changes_recorded hc b (sys_history s) ?db" "sys_oracle (sys_history s) (sys_db s)"
    "sys_serial hc v0 (sys_log s) ?db" "sys_txs E hc b ?db (sys_active s)"
    using inv by (simp_all add: sys_inv_def)
  have tx: "opt_inv E hc ?db l tx" "b \<le> i" using S(5) act by (simp_all add: sys_txs_def i)
  have t: "cm_ok (ot_cm tx)" "log_returns ?v l" "\<Union> (op_reads ` fst ` set l) \<subseteq> read_set (ot_cm tx)"
    "(\<lambda>(h, w). (h, write_key w)) ` set (log_writes ?v l) \<subseteq> write_set (ot_cm tx)" "i \<le> db_seqno ?db"
    using tx(1) by (simp_all add: opt_inv_def Let_def i)
  from L S(1) s tx(1) ms base show ?thesis
  proof (cases rule: commit_base)
    case (failed e)
    then show ?thesis by simp
  next
    case committed
    note c = committed(2-6) and view = committed(7) [folded i]
    have "i \<noteq> - 1" using t(5) s by (metis word_order.extremum_unique)
    then have agr: "agree (read_set (ot_cm tx)) ?v (read_at hc (db_seqno ?db) ?db)"
      using S(1-3) t(1) low tx(2) ok
      by (intro validated_reads [where orc = "ob_oracle (sys_db s)"]) (auto simp: sys_oracle_def ob_oracle_def i)
    note log = log_agree [OF agr t(3)]
    have inv1: "db_inv hc db1" and q: "quiet db1 (ob_inner ob)" using c(2) ob(1) quiet_drop by simp_all
    have ts: "tr_seqno (db_tracker db1) = db_seqno ?db + 1"
      using S(1) c(4) seqno_less_Suc [OF s] by (auto simp: publish_def sys_store_def db_inv_def max_def)
    have "sys_store hc b (ob_inner ob)" unfolding ob(1) by (rule committed_store [OF S(1) c(1,2,4)])
    moreover have "changes_recorded hc b ((db_seqno ?db + 1, ot_cm tx) # sys_history s) (ob_inner ob)"
      using committed_changes [OF S(2) c(2) s c(3,5) view t(4)]
      by (simp add: ob(1) iter_drop_def changes_recorded_def read_at_def)
    moreover have "sys_oracle ((db_seqno ?db + 1, ot_cm tx) # sys_history s) ob"
    proof (rule committed_oracle [OF S(3,1)])
      show "db_seqno ?db + 1 \<notin> fst ` set (sys_history s)"
        using S(2) seqno_less_Suc [OF s] unfolding changes_recorded_def by fastforce
      show "tracker_later (close_raw i (db_tracker ?db)) (db_tracker (ob_inner ob))"
        using tracker_later_trans [OF later_publish later_close_raw] by (simp add: ob(1) iter_drop_def c(4))
    qed (simp add: ob(2) ts)
    moreover have "sys_serial hc v0 (sys_log s @ l) (ob_inner ob)"
      using S(4) log t(2) view quiet_inv(3) [OF q inv1] c(3)
      by (simp add: sys_serial_def log_append serial_view_def [of _ l])
    moreover have "sys_txs E hc b (ob_inner ob) ((sys_active s)(n := None))"
      using quiet_txs [OF q inv1 committed_txs [OF S(5) c(1) _ c(5)]] c(3) less_imp_le [OF seqno_less_Suc [OF s]]
      by (auto simp: sys_txs_def)
    moreover have "tracker_get (db_tracker (ob_inner ob)) = db_seqno ?db + 1"
      by (simp add: ob(1) iter_drop_def tracker_get_def ts)
    ultimately show ?thesis using ms by (simp add: sys_inv_def sys_commit_def Let_def)
  qed
qed

lemma commit_step_quiet:
  assumes "sys_inv E hc b v0 s" "quiet (sys_inner s) (ob_inner ob)" "sys_oracle (sys_history s) ob"
    and "\<not> (r = Inr (Inr ()) \<and> tx_memtables (ot_inner tx) \<noteq> [])"
  shows "sys_inv E hc b v0 (sys_commit n tx l r ob s)"
  using drop_tx [OF quiet_step [OF assms(1-3)], of n] assms(4) by (auto simp: sys_commit_def Let_def)

lemma commit_step_inv:
  assumes L: "lsm_ok (en_lsm E) hc" and inv: "sys_inv E hc b v0 s" and act: "sys_active s n = Some (tx, l)"
    and run: "opt_commit E tx (sys_db s) = (r, ob)" and s: "db_seqno (sys_inner s) \<noteq> - 1"
    and low: "get_seqno_safe_to_gc (db_tracker (sys_inner s)) < tx_instant (ot_inner tx)"
  shows "sys_inv E hc b v0 (sys_commit n tx l r ob s)"
proof -
  define i where "i = tx_instant (ot_inner tx)"
  let ?db = "sys_inner s"
  have S: "sys_store hc b ?db" "sys_oracle (sys_history s) (sys_db s)" "opt_inv E hc ?db l tx" "cm_ok (ot_cm tx)"
    using inv act by (auto simp: sys_inv_def sys_txs_def opt_inv_def Let_def)
  have kept: "sys_oracle (sys_history s) ob"
    if "ob_committed ob = retained i (ob_oracle (sys_db s))" "tracker_later (close_raw i (db_tracker ?db)) (db_tracker (ob_inner ob))"
    by (rule oracle_kept [OF S(2,1) later_close_raw [of _ i] that(2)]) (simp add: that(1) retained_def ob_oracle_def)
  have same: "sys_oracle (sys_history s) ob"
    if "ob_committed ob = ob_committed (sys_db s)" "ob_inner ob = iter_drop i ?db"
    by (rule oracle_kept [OF S(2,1) later_close_raw [of _ i]]) (simp_all add: that iter_drop_def)
  show ?thesis
  proof (cases "tx_memtables (ot_inner tx) = []")
    case True
    with run have "ob = ob_drop_nonce i (sys_db s)" by (simp add: opt_commit_def i_def Let_def)
    then show ?thesis using True same quiet_drop
      by (intro commit_step_quiet [OF inv]) (auto simp: ob_drop_nonce_def)
  next
    case False
    from False S(4) run i_def show ?thesis
    proof (cases rule: opt_commit_ends)
      case stopped
      then show ?thesis using same quiet_drop by (intro commit_step_quiet [OF inv]) auto
    next
      case conflicted
      then show ?thesis using kept quiet_trans [OF quiet_drop quiet_drop] later_close_raw
        by (intro commit_step_quiet [OF inv]) (auto simp: iter_drop_def)
    next
      case (failed db1 e)
      from L S(1) s S(3) False failed(1) have q: "quiet ?db db1" "db_tracker db1 = close_raw i (db_tracker ?db)"
        by (auto elim: commit_base)
      then show ?thesis using failed kept quiet_trans [OF q(1) quiet_drop] later_close_raw
        by (intro commit_step_quiet [OF inv]) (auto simp: iter_drop_def)
    next
      case (committed db1)
      show ?thesis
        unfolding committed(2)
        by (rule commit_step_ok [OF L inv act False s low i_def committed(1,3,4,5)])
    qed
  qed
qed

lemma base_durability_simps [simp]:
  "tx_inv E db ws (base_durability mode tx) = tx_inv E db ws tx"
  "tx_instant (base_durability mode tx) = tx_instant tx" "tx_instant (base_new i) = i"
  by (simp_all add: tx_inv_def base_durability_def base_new_def)

lemma opt_inv_begin:
  assumes "sys_store hc b db" "optimistic_write_tx ob = (Inr tx, ob')" "ob_inner ob = db"
  shows "quiet db (ob_inner ob')" "ob_committed ob' = ob_committed ob" "opt_inv E hc db [] tx" "b \<le> tx_instant (ot_inner tx)"
proof -
  obtain t i where t: "tracker_open (db_tracker db) = (t, i)" by fastforce
  have i: "i = tr_seqno (db_tracker db)" "tr_seqno t = tr_seqno (db_tracker db)"
    using t by (auto simp: tracker_open_def Let_def)
  have tx: "tx = opt_new i \<or> tx = opt_durability (Some Buffer) (opt_new i)" "ob' = ob\<lparr>ob_inner := db\<lparr>db_tracker := t\<rparr>\<rparr>"
    using assms(2,3) t by (auto simp: optimistic_write_tx_def Let_def split: if_splits)
  show "quiet db (ob_inner ob')" "ob_committed ob' = ob_committed ob"
    using tx(2) quiet_tracker [OF later_open [OF t] i(2)] by simp_all
  have "ot_cm tx = cm_default" "tx_inv E db [] (ot_inner tx)" "tx_instant (ot_inner tx) = tr_seqno (db_tracker db)"
    using tx(1) tx_inv_new [of E db i] by (auto simp: opt_new_def opt_durability_def i(1))
  then show "opt_inv E hc db [] tx" "b \<le> tx_instant (ot_inner tx)"
    using assms(1) by (simp_all add: opt_inv_def cm_default_sets sys_store_def db_inv_def)
qed

lemma set_tx:
  assumes "sys_inv E hc b v0 s" "opt_inv E hc (sys_inner s) l tx" "b \<le> tx_instant (ot_inner tx)"
  shows "sys_inv E hc b v0 (s\<lparr>sys_active := (sys_active s)(n \<mapsto> (tx, l))\<rparr>)"
  using assms by (auto simp: sys_inv_def sys_txs_def)

lemma run_op_instant:
  "run_op E pr op db tx = (r, tx') \<Longrightarrow> tx_instant (ot_inner tx') = tx_instant (ot_inner tx)"
  by (cases op) (auto simp: opt_get_def opt_contains_key_def opt_size_of_def opt_iter_def opt_range_def opt_prefix_def
      opt_first_key_value_def opt_last_key_value_def opt_insert_def opt_remove_def opt_remove_weak_def opt_take_def
      opt_update_fetch_def opt_fetch_update_def base_update_fetch_def base_fetch_update_def Let_def split: sum.splits)

lemma opt_step_inv:
  assumes L: "lsm_ok (en_lsm E) hc" "prefix_range_law pr" and step: "opt_step E pr s s'" and inv: "sys_inv E hc b v0 s"
  shows "sys_inv E hc b v0 s'"
proof -
  have S: "sys_store hc b (sys_inner s)" "sys_txs E hc b (sys_inner s) (sys_active s)"
    using inv by (simp_all add: sys_inv_def)
  from step show ?thesis
  proof cases
    case (step_begin tx ob n)
    note B = opt_inv_begin [OF S(1) step_begin(2) refl]
    have "sys_inv E hc b v0 (s\<lparr>sys_db := ob\<rparr>)" by (rule quiet_step_same [OF inv B(1,2)])
    moreover have "opt_inv E hc (ob_inner ob) [] tx"
      using quiet_txs [OF B(1), of hc E b "[n \<mapsto> (tx, [])]"] S(1) B(3,4) by (simp add: sys_txs_def sys_store_def)
    ultimately have "sys_inv E hc b v0 (s\<lparr>sys_db := ob, sys_active := (sys_active (s\<lparr>sys_db := ob\<rparr>))(n \<mapsto> (tx, []))\<rparr>)"
      using B(4) by (intro set_tx) simp_all
    then show ?thesis unfolding step_begin(1) by simp
  next
    case (step_op n tx l op r tx')
    have tx: "opt_inv E hc (sys_inner s) l tx" "b \<le> tx_instant (ot_inner tx)"
      using S(2) step_op(2) unfolding sys_txs_def by blast+
    have "opt_inv E hc (sys_inner s) (l @ [(op, r)]) tx'"
      by (rule run_op_inv [OF L _ _ step_op(3,4) tx(1) _ step_op(6)])
        (use S(1) step_op(5) in \<open>simp_all add: sys_store_def SEQNO_MAX_def\<close>)
    moreover have "b \<le> tx_instant (ot_inner tx')" using tx(2) run_op_instant [OF step_op(6)] by simp
    ultimately show ?thesis unfolding step_op(1) by (rule set_tx [OF inv])
  next
    case (step_durability n tx l mode)
    have "opt_inv E hc (sys_inner s) l tx" "b \<le> tx_instant (ot_inner tx)"
      using S(2) step_durability(2) unfolding sys_txs_def by blast+
    then show ?thesis
      unfolding step_durability(1) by (intro set_tx [OF inv]) (simp_all add: opt_inv_def opt_durability_def Let_def)
  next
    case (step_commit n tx l r ob)
    have "db_seqno (sys_inner s) \<noteq> - 1" using step_commit(5) by (simp add: SEQNO_MAX_def)
    then show ?thesis unfolding step_commit(1) by (rule commit_step_inv [OF L(1) inv step_commit(2,3) _ step_commit(4)])
  next
    case (step_rollback n tx l)
    have "sys_inv E hc b v0 (s\<lparr>sys_db := opt_rollback tx (sys_db s)\<rparr>)"
      by (rule quiet_step_same [OF inv]) (simp_all add: opt_rollback_def ob_drop_nonce_def quiet_drop)
    from drop_tx [OF this, of n] show ?thesis unfolding step_rollback(1) by simp
  next
    case (step_persist mode r db)
    have "quiet (sys_inner s) db"
      using step_persist(2) by (auto simp: database_persist_def quiet_def split: if_splits prod.splits sum.splits)
    then show ?thesis unfolding step_persist(1) by (intro quiet_step_same [OF inv]) simp_all
  next
    case (step_snapshot i db)
    obtain t where t: "tracker_open (db_tracker (sys_inner s)) = (t, i)" "db = (sys_inner s)\<lparr>db_tracker := t\<rparr>"
      using step_snapshot(2) by (auto simp: database_snapshot_def Let_def split: prod.splits)
    have "quiet (sys_inner s) db"
      unfolding t(2) by (rule quiet_tracker [OF later_open [OF t(1)]]) (use t(1) in \<open>auto simp: tracker_open_def Let_def\<close>)
    then show ?thesis unfolding step_snapshot(1) by (intro quiet_step_same [OF inv]) simp_all
  next
    case (step_drop i)
    show ?thesis unfolding step_drop by (intro quiet_step_same [OF inv]) (simp_all add: ob_drop_nonce_def quiet_drop)
  next
    case (step_collect t)
    have "quiet (sys_inner s) ((sys_inner s)\<lparr>db_tracker := t\<rparr>)"
      using step_collect(2) later_gc later_pullup by (intro quiet_tracker) auto
    then show ?thesis unfolding step_collect(1) by (intro quiet_step_same [OF inv]) simp_all
  qed
qed

lemma changes_recorded_open:
  assumes "db_inv hc db"
  shows "changes_recorded hc (db_seqno db) [] db"
  unfolding changes_recorded_def
proof (intro conjI allI impI)
  fix i h k assume "db_seqno db \<le> i" and diff: "read_at hc i db h k \<noteq> read_at hc (db_seqno db) db h k"
  from read_at_top [OF assms this(1)] diff
  show "\<exists>(ts, cm)\<in>set []. i < ts \<and> (h, k) \<in> write_set cm" by simp
qed simp

lemma sys_open_inv:
  assumes "db_inv hc db" "names_distinct db" "tracker_low (db_tracker db)" "tr_seqno (db_tracker db) = db_seqno db"
  shows "sys_inv E hc (db_seqno db) (read_at hc (db_seqno db) db) (sys_open db)"
proof -
  have "sys_store hc (db_seqno db) db" using assms by (simp add: sys_store_def)
  then show ?thesis
    using changes_recorded_open [OF assms(1)]
    by (simp add: sys_inv_def sys_open_def optimistic_open_def sys_oracle_def ob_oracle_def
        oracle_complete_def oracle_sound_def sys_serial_def serial_view_def sys_txs_def)
qed

text \<open>A commit whose validation finds no conflict goes through when nothing fails around it.\<close>

lemma opt_commit_succeeds:
  assumes "lsm_ok (en_lsm E) hc" "sys_store hc b (ob_inner ob)" "db_seqno (ob_inner ob) \<noteq> - 1"
    and tx: "opt_inv E hc (ob_inner ob) l tx" "tx_memtables (ot_inner tx) \<noteq> []"
    and "\<forall>(h, w)\<in>set (log_writes (read_at hc (tx_instant (ot_inner tx)) (ob_inner ob)) l). write_fits w"
    and "device_ok E" "\<not> db_is_poisoned (ob_inner ob)" "\<not> ob_lock_poisoned ob"
    and "any_has_conflict (ot_cm tx) (filter (\<lambda>(ts, _). tx_instant (ot_inner tx) + 1 \<le> ts) (ob_committed ob)) = Inr False"
  shows "\<exists>ob'. opt_commit E tx ob = (Inr (Inr ()), ob')"
proof -
  obtain r ob' where run: "opt_commit E tx ob = (r, ob')" by fastforce
  have "cm_ok (ot_cm tx)" using tx(1) by (simp add: opt_inv_def Let_def)
  from tx(2) this run refl show ?thesis
  proof (cases rule: opt_commit_ends)
    case (failed db1 e)
    let ?db = "(ob_inner ob)\<lparr>db_tracker := close_raw (tx_instant (ot_inner tx)) (db_tracker (ob_inner ob))\<rparr>"
    let ?ws = "log_writes (read_at hc (tx_instant (ot_inner tx)) (ob_inner ob)) l"
    have "tx_inv E ?db ?ws (ot_inner tx)" using tx(1) by (simp add: opt_inv_def Let_def tx_inv_def)
    moreover have "db_inv hc ?db" using assms(2) by (simp add: sys_store_def db_inv_def)
    ultimately have "db_is_poisoned db1" using base_commit_fits [OF assms(1) _ _ _ assms(6) failed(1)] assms(3) by simp
    then show ?thesis using base_commit_healthy [OF assms(7) _ failed(1)] assms(8) by simp
  qed (use assms(9,10) run in auto)
qed

text \<open>A run with one transaction that reads a key and then writes it.\<close>

definition sample_ops :: "op_log" where
  "sample_ops = [(OpGet 1 [9], ResValue (Inr None)), (OpInsert 1 [9] [3], ResUnit)]"

lemma sample_start:
  "tracker_low (db_tracker sample_db)" "tr_seqno (db_tracker sample_db) = db_seqno sample_db"
  by (simp_all add: tracker_low_def sample_db_def tracker_new_def table_keys_def sat_sub_def)

lemma sample_begin:
  obtains tx t where "optimistic_write_tx (optimistic_open sample_db) =
      (Inr tx, optimistic_open (sample_db\<lparr>db_tracker := t\<rparr>))"
    "tx_instant (ot_inner tx) = 5" "tx_memtables (ot_inner tx) = []" "tx_seqno (ot_inner tx) \<noteq> SEQNO_MAX"
    "get_seqno_safe_to_gc t = 0" "ot_cm tx = cm_default"
  using that
  by (auto simp: optimistic_write_tx_def optimistic_open_def tracker_open_def sample_db_def tracker_new_def Let_def
      opt_durability_def opt_new_def base_durability_def base_new_def get_seqno_safe_to_gc_def SEQNO_MAX_def)

lemma sample_run:
  "\<exists>s. opt_reachable sample_engine sample_prefix_to_range sample_db s \<and> sys_log s = sample_ops"
proof -
  let ?E = "sample_engine" and ?pr = "sample_prefix_to_range" and ?reach = "opt_reachable sample_engine sample_prefix_to_range sample_db"
  obtain tx :: "internal_value list opt_tx" and t where b: "optimistic_write_tx (optimistic_open sample_db) = (Inr tx, optimistic_open (sample_db\<lparr>db_tracker := t\<rparr>))"
    "tx_instant (ot_inner tx) = 5" "tx_memtables (ot_inner tx) = []" "tx_seqno (ot_inner tx) \<noteq> SEQNO_MAX"
    "get_seqno_safe_to_gc t = 0" "ot_cm tx = cm_default" by (rule sample_begin)
  let ?db = "sample_db\<lparr>db_tracker := t\<rparr>"
  define s1 where "s1 = \<lparr>sys_db = optimistic_open ?db, sys_active = [0 \<mapsto> (tx, [])], sys_log = [], sys_history = []\<rparr>"
  have r1: "?reach s1"
    using reach_opt [OF reach_open step_begin [where tx = tx and ob = "optimistic_open ?db" and n = 0]] b(1)
    by (simp add: s1_def sys_open_def)
  have inv: "sys_inv ?E ref_content 5 (read_at ref_content 5 sample_db) s" if "?reach s" for s
    using that
  proof (induction rule: opt_reachable.induct)
    case reach_open
    then show ?case using sys_open_inv [OF sample_db_ok(2) sample_names sample_start] by (simp add: sample_db_def)
  next
    case (reach_opt s s')
    then show ?case using opt_step_inv [OF sample_db_ok(1) sample_prefix_range_law] by blast
  qed
  have live: "db_handles ?db 1 \<noteq> None" by (simp add: sample_db_def)
  obtain g tx1 where g: "run_op ?E ?pr (OpGet 1 [9]) ?db tx = (g, tx1)" by fastforce
  have tx1: "ot_inner tx1 = ot_inner tx" using g by (auto simp: opt_get_def split: sum.splits)
  define s2 where "s2 = s1\<lparr>sys_active := [0 \<mapsto> (tx1, [(OpGet 1 [9], g)])]\<rparr>"
  have r2: "?reach s2"
    using reach_opt [OF r1 step_op [where n = 0 and tx = tx and l = "[]" and op = "OpGet 1 [9]"]] g live b(4)
    by (simp add: s2_def s1_def optimistic_open_def)
  obtain u tx2 where u: "run_op ?E ?pr (OpInsert 1 [9] [3]) ?db tx1 = (u, tx2)" by fastforce
  let ?l = "[(OpGet 1 [9], g), (OpInsert 1 [9] [3], u)]"
  define s3 where "s3 = s1\<lparr>sys_active := [0 \<mapsto> (tx2, ?l)]\<rparr>"
  have r3: "?reach s3"
    using reach_opt [OF r2 step_op [where n = 0 and tx = tx1 and l = "[(OpGet 1 [9], g)]" and op = "OpInsert 1 [9] [3]"]]
      u live b(4) tx1 by (simp add: s3_def s2_def s1_def optimistic_open_def)
  have S: "sys_store ref_content 5 ?db" "opt_inv ?E ref_content ?db ?l tx2"
    using inv [OF r3] by (simp_all add: sys_inv_def sys_txs_def s3_def s1_def optimistic_open_def)
  have i2: "tx_instant (ot_inner tx2) = 5" using run_op_instant [OF u] tx1 b(2) by simp
  have ms: "tx_memtables (ot_inner tx2) \<noteq> []" using S(2) by (simp add: opt_inv_def tx_inv_def Let_def)
  have "\<exists>ob. opt_commit ?E tx2 (optimistic_open ?db) = (Inr (Inr ()), ob)"
    by (rule opt_commit_succeeds [OF sample_db_ok(1), where b = 5 and l = ?l])
      (use S ms sample_device in \<open>simp_all add: optimistic_open_def sample_db_def write_fits_def write_bytes_def\<close>)
  then obtain ob where c: "opt_commit ?E tx2 (optimistic_open ?db) = (Inr (Inr ()), ob)" by blast
  have r4: "?reach (sys_commit 0 tx2 ?l (Inr (Inr ())) ob s3)"
  proof (rule reach_opt [OF r3 step_commit])
    show "opt_commit ?E tx2 (sys_db s3) = (Inr (Inr ()), ob)" using c by (simp add: s3_def s1_def)
  qed (simp_all add: s3_def s1_def optimistic_open_def b(5) i2 sample_db_def SEQNO_MAX_def)
  have "read_at ref_content 5 ?db 1 [9] = None"
    by (simp add: read_at_def sample_db_def sample_keyspace_def seen_def newest_def ref_content_def dom_def)
  then have "g = ResValue (Inr None)" "u = ResUnit" using S(2) by (simp_all add: opt_inv_def Let_def i2)
  then have "sys_log (sys_commit 0 tx2 ?l (Inr (Inr ())) ob s3) = sample_ops"
    using ms by (simp add: sys_commit_def sample_ops_def s3_def s1_def Let_def)
  with r4 show ?thesis by blast
qed

section \<open>Properties\<close>



end
