(* ===== verification/TxKeyspaces.thy ===== *)
theory TxKeyspaces
  imports SingleWriter Serializability
begin

text \<open>
  The keyspace calls of both transactional databases: each runs one transaction.  The locale
  states what one call promises, and shows that a sequence of calls is the serial execution of
  the calls that succeeded.
\<close>

section \<open>Calls\<close>

fun is_update :: "tx_op \<Rightarrow> bool" where
  "is_update (OpInsert h k v) = True" | "is_update (OpRemove h k) = True" | "is_update (OpRemoveWeak h k) = True"
| "is_update (OpUpdateFetch h k f) = True" | "is_update (OpFetchUpdate h k f) = True" | "is_update (OpTake h k) = True"
| "is_update _ = False"

definition res_unit :: "unit result \<Rightarrow> op_result" where
  "res_unit r = (case r of Inl e \<Rightarrow> ResValue (Inl e) | Inr _ \<Rightarrow> ResUnit)"

definition succeeded :: "op_result \<Rightarrow> bool" where
  "succeeded r = (case r of ResValue (Inl e) \<Rightarrow> False | _ \<Rightarrow> True)"

definition successes :: "op_log \<Rightarrow> op_log" where
  "successes l = filter (\<lambda>e. succeeded (snd e)) l"

fun sw_call :: "('t, 'm) engine \<Rightarrow> tx_op \<Rightarrow> 't sw_db \<Rightarrow> op_result \<times> 't sw_db" where
  "sw_call E (OpInsert h k v) sd = apfst res_unit (swk_insert E h k v sd)"
| "sw_call E (OpRemove h k) sd = apfst res_unit (swk_remove E h k sd)"
| "sw_call E (OpRemoveWeak h k) sd = apfst res_unit (swk_remove_weak E h k sd)"
| "sw_call E (OpUpdateFetch h k f) sd = apfst ResValue (swk_update_fetch E h k f sd)"
| "sw_call E (OpFetchUpdate h k f) sd = apfst ResValue (swk_fetch_update E h k f sd)"
| "sw_call E (OpTake h k) sd = apfst ResValue (swk_take E h k sd)"
| "sw_call E _ sd = (ResUnit, sd)"

text \<open>An optimistic call that meets no interference.  A retry loop that did not return in its first
  attempt would give \<open>ResScan\<close>, which no update returns.\<close>

definition loop_result :: "bytes option result option \<Rightarrow> op_result" where
  "loop_result r = (case r of None \<Rightarrow> ResScan [] | Some x \<Rightarrow> ResValue x)"

fun opt_call :: "('t, 'm) engine \<Rightarrow> tx_op \<Rightarrow> 't optimistic_db \<Rightarrow> op_result \<times> 't optimistic_db" where
  "opt_call E (OpInsert h k v) ob = apfst res_unit (otk_insert E h k v id ob)"
| "opt_call E (OpRemove h k) ob = apfst res_unit (otk_remove E h k id ob)"
| "opt_call E (OpRemoveWeak h k) ob = apfst res_unit (otk_remove_weak E h k id ob)"
| "opt_call E (OpUpdateFetch h k f) ob = apfst loop_result (otk_update_fetch E h k f [id] ob)"
| "opt_call E (OpFetchUpdate h k f) ob = apfst loop_result (otk_fetch_update E h k f [id] ob)"
| "opt_call E (OpTake h k) ob = apfst loop_result (otk_take E h k [id] ob)"
| "opt_call E _ ob = (ResUnit, ob)"

fun run_calls :: "(tx_op \<Rightarrow> 's \<Rightarrow> op_result \<times> 's) \<Rightarrow> tx_op list \<Rightarrow> 's \<Rightarrow> op_log \<times> 's" where
  "run_calls call [] s = ([], s)"
| "run_calls call (op # ops) s =
     (let (r, s1) = call op s; (l, s2) = run_calls call ops s1 in ((op, r) # l, s2))"

section \<open>What a call promises\<close>

text \<open>\<open>room n s\<close>: the invariant holds and \<open>n\<close> more calls can be numbered.\<close>

locale atomic_calls =
  fixes view :: "'s \<Rightarrow> view"
    and room :: "nat \<Rightarrow> 's \<Rightarrow> bool"
    and allowed :: "'s \<Rightarrow> tx_op \<Rightarrow> bool"
    and call :: "tx_op \<Rightarrow> 's \<Rightarrow> op_result \<times> 's"
  assumes call_keeps: "room (Suc n) s \<Longrightarrow> allowed s op \<Longrightarrow> call op s = (r, s') \<Longrightarrow> room n s' \<and> allowed s' = allowed s"
    and call_ok: "room (Suc n) s \<Longrightarrow> allowed s op \<Longrightarrow> call op s = (r, s') \<Longrightarrow> succeeded r \<Longrightarrow>
      op_returns op (view s) r \<and> view s' = fold view_write (op_writes op (view s)) (view s)"
    and call_failed: "room (Suc n) s \<Longrightarrow> allowed s op \<Longrightarrow> call op s = (r, s') \<Longrightarrow> \<not> succeeded r \<Longrightarrow> view s' = view s"
begin

lemma calls_serial:
  assumes "room (length ops) s" "\<forall>op\<in>set ops. allowed s op" "run_calls call ops s = (l, s')"
  shows "map fst l = ops \<and> log_returns (view s) (successes l) \<and>
    view s' = serial_view (view s) (successes l)"
  using assms
proof (induction ops arbitrary: s l)
  case Nil
  then show ?case by (simp add: serial_view_def successes_def)
next
  case (Cons op ops)
  obtain r s1 where c: "call op s = (r, s1)" by fastforce
  obtain l1 where l1: "run_calls call ops s1 = (l1, s')" "l = (op, r) # l1"
    using Cons.prems(3) c by (auto split: prod.splits)
  have room: "room (Suc (length ops)) s" and al: "allowed s op" using Cons.prems(1,2) by simp_all
  note keep = call_keeps [OF room al c]
  have IH: "map fst l1 = ops \<and> log_returns (view s1) (successes l1) \<and>
      view s' = serial_view (view s1) (successes l1)"
    by (rule Cons.IH [OF _ _ l1(1)]) (use keep Cons.prems(2) in simp_all)
  show ?case
  proof (cases "succeeded r")
    case True
    then show ?thesis using call_ok [OF room al c True] IH by (simp add: l1(2) serial_view_def successes_def)
  next
    case False
    then show ?thesis using call_failed [OF room al c False] IH by (simp add: l1(2) successes_def)
  qed
qed

end

section \<open>Single-writer calls\<close>

definition wrap :: "'m base_tx \<Rightarrow> 'm opt_tx" where
  "wrap b = \<lparr>ot_inner = b, ot_cm = cm_default\<rparr>"

text \<open>A step that does what the operation does.\<close>

definition step_runs ::
    "('t, 'm) engine \<Rightarrow> tx_op \<Rightarrow> ('a result \<Rightarrow> op_result) \<Rightarrow> ('t db \<Rightarrow> 'm sw_tx \<Rightarrow> 'a result \<times> 'm sw_tx) \<Rightarrow> bool" where
  "step_runs E op conv step \<longleftrightarrow>
     (\<forall>pr db tx. (case run_op E pr op db (wrap (st_inner tx)) of (r, otx) \<Rightarrow>
        (case step db tx of (x, tx1) \<Rightarrow> r = conv x \<and> st_inner tx1 = ot_inner otx)))"

lemma step_runs_calls:
  "step_runs E (OpInsert h k v) res_unit (\<lambda>db tx. (Inr (), st_insert E h k v db tx))"
  "step_runs E (OpRemove h k) res_unit (\<lambda>db tx. (Inr (), st_remove E h k db tx))"
  "step_runs E (OpRemoveWeak h k) res_unit (\<lambda>db tx. (Inr (), st_remove_weak E h k db tx))"
  "step_runs E (OpUpdateFetch h k f) ResValue (st_update_fetch E h k f)"
  "step_runs E (OpFetchUpdate h k f) ResValue (st_fetch_update E h k f)"
  by (auto simp: step_runs_def res_unit_def wrap_def opt_insert_def opt_remove_def opt_remove_weak_def
      opt_update_fetch_def opt_fetch_update_def st_insert_def st_remove_def st_remove_weak_def st_update_fetch_def
      st_fetch_update_def split: prod.splits sum.splits)

text \<open>The state between calls: everything written is published, and \<open>n\<close> numbers are left.\<close>

definition settled :: "('t \<Rightarrow> content) \<Rightarrow> nat \<Rightarrow> 't db \<Rightarrow> bool" where
  "settled hc n db \<longleftrightarrow> db_inv hc db \<and> names_distinct db \<and> unat (db_seqno db) + n < 2 ^ 64 \<and>
     read_at hc (tr_seqno (db_tracker db)) db = read_at hc (db_seqno db) db"

definition current :: "('t \<Rightarrow> content) \<Rightarrow> 't db \<Rightarrow> view" where
  "current hc db = read_at hc (db_seqno db) db"

lemma settled_room: "settled hc (Suc n) db \<Longrightarrow> db_seqno db \<noteq> - 1"
  by (auto simp: settled_def unat_seqno_max)

lemma settled_quiet:
  assumes "settled hc n db" "db_handles db' = db_handles db" "tr_seqno (db_tracker db') = tr_seqno (db_tracker db)"
    and "db_seqno db \<le> db_seqno db'" "unat (db_seqno db') + m < 2 ^ 64"
  shows "settled hc m db'" "current hc db' = current hc db"
proof -
  have inv: "db_inv hc db" using assms(1) by (simp add: settled_def)
  have "db_inv hc db'" using inv assms(2-4) by (auto simp: db_inv_def intro: below_mono order_trans)
  have reads: "read_at hc i db' = read_at hc i db" for i by (rule read_at_cong [OF assms(2)])
  have top: "read_at hc (db_seqno db') db = read_at hc (db_seqno db) db" by (rule read_at_top [OF inv assms(4)])
  show "settled hc m db'"
    using assms \<open>db_inv hc db'\<close> by (simp add: settled_def reads top names_distinct_def same_name_def)
  show "current hc db' = current hc db" by (simp add: current_def reads top)
qed

lemma settled_tracker:
  assumes "settled hc n db" "tr_seqno t = tr_seqno (db_tracker db)"
  shows "settled hc n (db\<lparr>db_tracker := t\<rparr>)" "current hc (db\<lparr>db_tracker := t\<rparr>) = current hc db"
  using settled_quiet [OF assms(1), of "db\<lparr>db_tracker := t\<rparr>" n] assms by (simp_all add: settled_def)

lemma settled_drop:
  assumes "settled hc n db"
  shows "settled hc n (iter_drop i db)" "current hc (iter_drop i db) = current hc db"
  unfolding iter_drop_def by (rule settled_tracker [OF assms], simp)+

lemma settled_mono: "settled hc n db \<Longrightarrow> m \<le> n \<Longrightarrow> settled hc m db"
  by (simp add: settled_def)

text \<open>A commit of a transaction whose snapshot is the current state.\<close>

lemma settled_commit:
  assumes "lsm_ok (en_lsm E) hc" "settled hc (Suc n) db" "tx_inv E db ws tx" "base_commit E tx db = (r, db')"
  shows "settled hc n db'" "same_handles db db'"
    "r = Inr () \<Longrightarrow> current hc db' = fold view_write ws (current hc db)"
    "r \<noteq> Inr () \<Longrightarrow> current hc db' = current hc db"
proof -
  note s = settled_room [OF assms(2)]
  have inv: "db_inv hc db" and room: "unat (db_seqno db) + Suc n < 2 ^ 64" and tr: "tr_seqno (db_tracker db) \<le> db_seqno db"
    using assms(2) by (simp_all add: settled_def db_inv_def)
  have le: "db_seqno db \<le> db_seqno db + 1" by (rule less_imp_le [OF seqno_less_Suc [OF s]])
  have un: "unat (db_seqno db + 1) = Suc (unat (db_seqno db))" by (rule unat_Suc_seqno [OF s])
  have "settled hc n db' \<and> same_handles db db' \<and>
      (r = Inr () \<longrightarrow> current hc db' = fold view_write ws (current hc db)) \<and>
      (r \<noteq> Inr () \<longrightarrow> current hc db' = current hc db)"
  proof (cases "ws = []")
    case True
    then have "db' = db" "r = Inr ()" using assms(3,4) by (auto simp: tx_inv_def base_commit_def)
    then show ?thesis using settled_mono [OF assms(2), of n] True by (simp add: same_handles_def)
  next
    case False
    from assms(1) inv s assms(3) False assms(4) show ?thesis
    proof (cases rule: base_commit_cases)
      case (rejected e)
      then show ?thesis using settled_mono [OF assms(2), of n] by (simp add: same_handles_def)
    next
      case poisoned
      have "db_seqno db \<le> db_seqno db'" "unat (db_seqno db') + n < 2 ^ 64" using poisoned(4) le un room by auto
      with settled_quiet [OF assms(2) poisoned(2)] poisoned show ?thesis by (simp add: same_handles_def)
    next
      case committed
      have t: "tr_seqno (db_tracker db') = db_seqno db'"
        using committed(4,5) tr le by (auto simp: publish_def max_def)
      have "read_at hc (db_seqno db + 1) db = current hc db" unfolding current_def by (rule read_at_top [OF inv le])
      then have "current hc db' = fold view_write ws (current hc db)"
        using committed(4,7) seqno_less_Suc [OF s] by (simp add: current_def)
      moreover have "settled hc n db'"
        using committed(3,4) same_handles_names [OF committed(2)] assms(2) un room t by (simp add: settled_def)
      ultimately show ?thesis using committed(1,2) by simp
    qed
  qed
  then show "settled hc n db'" "same_handles db db'"
    "r = Inr () \<Longrightarrow> current hc db' = fold view_write ws (current hc db)"
    "r \<noteq> Inr () \<Longrightarrow> current hc db' = current hc db" by blast+
qed

lemma step_spec:
  assumes "lsm_ok (en_lsm E) hc" "settled hc n db" "db_handles db (op_handle op) \<noteq> None" "op_tracked op"
    and "step_runs E op conv step" "step db tx = (x, tx1)"
    and "tx_inv E db [] (st_inner tx)" "tx_instant (st_inner tx) = tr_seqno (db_tracker db)"
    and "tx_seqno (st_inner tx) \<noteq> - 1"
  shows "op_returns op (current hc db) (conv x)" "tx_inv E db (op_writes op (current hc db)) (st_inner tx1)"
    "tx_instant (st_inner tx1) = tx_instant (st_inner tx)"
proof -
  let ?pr = "sample_prefix_to_range"
  have db: "db_inv hc db" "names_distinct db" "tr_seqno (db_tracker db) \<le> db_seqno db"
    and v: "read_at hc (tr_seqno (db_tracker db)) db = current hc db"
    using assms(2) by (simp_all add: settled_def current_def db_inv_def)
  obtain r otx where run: "run_op E ?pr op db (wrap (st_inner tx)) = (r, otx)" by fastforce
  then have r: "r = conv x" "st_inner tx1 = ot_inner otx"
    using spec [OF spec [OF spec [OF assms(5) [unfolded step_runs_def], of ?pr], of db], of tx] assms(6) by simp_all
  have "opt_inv E hc db [] (wrap (st_inner tx))"
    using assms(7,8) db(3) by (simp add: opt_inv_def wrap_def cm_default_sets)
  from run_op_inv [OF assms(1) sample_prefix_range_law db(2,1) assms(3,4) this _ run] assms(9)
  have "opt_inv E hc db [(op, r)] otx" by (simp add: wrap_def)
  moreover have inst: "tx_instant (ot_inner otx) = tx_instant (st_inner tx)"
    using run_op_instant [OF run] by (simp add: wrap_def)
  ultimately show "op_returns op (current hc db) (conv x)" "tx_inv E db (op_writes op (current hc db)) (st_inner tx1)"
    "tx_instant (st_inner tx1) = tx_instant (st_inner tx)"
    using v assms(8) r by (simp_all add: opt_inv_def Let_def)
qed

lemma sw_write_tx_spec:
  assumes "settled hc n (sw_inner sd)" "sw_write_tx sd = (Inr tx, sd1)"
  shows "settled hc n (sw_inner sd1)" "current hc (sw_inner sd1) = current hc (sw_inner sd)"
    "db_handles (sw_inner sd1) = db_handles (sw_inner sd)" "tx_inv E (sw_inner sd1) [] (st_inner tx)"
    "tx_instant (st_inner tx) = tr_seqno (db_tracker (sw_inner sd1))" "tx_seqno (st_inner tx) \<noteq> - 1"
proof -
  let ?db = "sw_inner sd"
  obtain t where t: "tracker_open (db_tracker ?db) = (t, tr_seqno (db_tracker ?db))" "tr_seqno t = tr_seqno (db_tracker ?db)"
    by (simp add: tracker_open_def Let_def)
  have eqs: "sw_inner sd1 = ?db\<lparr>db_tracker := t\<rparr>"
    "st_inner tx = base_new (tr_seqno t) \<or> st_inner tx = base_durability (Some Buffer) (base_new (tr_seqno t))"
    using assms(2) t by (auto simp: sw_write_tx_def st_new_def st_durability_def Let_def split: if_splits)
  show "settled hc n (sw_inner sd1)" "current hc (sw_inner sd1) = current hc ?db"
    unfolding eqs(1) by (rule settled_tracker [OF assms(1) t(2)])+
  show "db_handles (sw_inner sd1) = db_handles ?db" "tx_instant (st_inner tx) = tr_seqno (db_tracker (sw_inner sd1))"
    "tx_seqno (st_inner tx) \<noteq> - 1"
    using eqs by (auto simp: base_new_def base_durability_def)
  show "tx_inv E (sw_inner sd1) [] (st_inner tx)" using eqs(2) tx_inv_new [of E "sw_inner sd1"] by auto
qed

lemma with_sw_tx_spec:
  fixes E :: "('t, 'm) engine"
  assumes L: "lsm_ok (en_lsm E) hc" and "settled hc (Suc n) (sw_inner sd)"
    and "db_handles (sw_inner sd) (op_handle op) \<noteq> None" "op_tracked op" "step_runs E op conv step"
    and run: "with_sw_tx E step sd = (x, sd')"
  shows "settled hc n (sw_inner sd') \<and> same_handles (sw_inner sd) (sw_inner sd') \<and>
    (is_ok x \<longrightarrow> op_returns op (current hc (sw_inner sd)) (conv x) \<and>
       current hc (sw_inner sd') = fold view_write (op_writes op (current hc (sw_inner sd))) (current hc (sw_inner sd))) \<and>
    (is_err x \<longrightarrow> current hc (sw_inner sd') = current hc (sw_inner sd))"
proof (cases "sw_write_tx sd :: 'm sw_tx result \<times> 't sw_db")
  case (Pair q sd1)
  show ?thesis
  proof (cases q)
    case (Inl e)
    then have "sd' = sd" "x = Inl e"
      using run Pair by (auto simp: with_sw_tx_def sw_write_tx_def Let_def split: if_splits prod.splits)
    then show ?thesis using settled_mono [OF assms(2), of n] by (simp add: same_handles_def)
  next
    case (Inr tx)
    note w = sw_write_tx_spec [OF assms(2), of tx sd1]
    have W: "sw_write_tx sd = (Inr tx, sd1)" using Pair Inr by simp
    obtain y tx1 where step: "step (sw_inner sd1) tx = (y, tx1)" by fastforce
    have live: "db_handles (sw_inner sd1) (op_handle op) \<noteq> None" using assms(3) w(3) [OF W] by simp
    note spec = step_spec [OF L w(1) [OF W] live assms(4,5) step w(4,5,6) [OF W], unfolded w(2) [OF W]]
    have same: "same_handles (sw_inner sd) (sw_inner sd1)" using w(3) [OF W] by (simp add: same_handles_def)
    show ?thesis
    proof (cases y)
      case (Inl e)
      then have "x = Inl e" "sw_inner sd' = iter_drop (tx_instant (st_inner tx1)) (sw_inner sd1)"
        using run W step by (auto simp: with_sw_tx_def st_end_def)
      then show ?thesis
        using settled_drop [OF settled_mono [OF w(1) [OF W], of n]] w(2) [OF W] same
        by (simp add: same_handles_def iter_drop_def)
    next
      case (Inr a)
      obtain c db2 where c: "base_commit E (st_inner tx1) (sw_inner sd1) = (c, db2)" by fastforce
      note com = settled_commit [OF L w(1) [OF W] spec(2) c, unfolded w(2) [OF W]]
      have "x = (case c of Inl e \<Rightarrow> Inl e | Inr _ \<Rightarrow> y)" "sw_inner sd' = iter_drop (tx_instant (st_inner tx1)) db2"
        using run W step Inr c by (auto simp: with_sw_tx_def st_commit_def st_end_def Let_def split: sum.splits prod.splits)
      then show ?thesis
        using com spec(1) settled_drop [OF com(1)] same_handles_trans [OF same com(2)] Inr
        by (cases c) (auto simp: same_handles_def iter_drop_def)
    qed
  qed
qed

text \<open>The laws, on a database together with its engine and the contents of its trees.\<close>

type_synonym ('t, 'm, 's) with_engine = "('t, 'm) engine \<times> ('t \<Rightarrow> content) \<times> 's"

definition sw_view :: "('t, 'm, 't sw_db) with_engine \<Rightarrow> view" where
  "sw_view s = (case s of (E, hc, sd) \<Rightarrow> current hc (sw_inner sd))"

definition sw_room :: "nat \<Rightarrow> ('t, 'm, 't sw_db) with_engine \<Rightarrow> bool" where
  "sw_room n s = (case s of (E, hc, sd) \<Rightarrow> lsm_ok (en_lsm E) hc \<and> settled hc n (sw_inner sd))"

definition sw_allowed :: "('t, 'm, 't sw_db) with_engine \<Rightarrow> tx_op \<Rightarrow> bool" where
  "sw_allowed s op = (case s of (E, hc, sd) \<Rightarrow> is_update op \<and> db_handles (sw_inner sd) (op_handle op) \<noteq> None)"

definition sw_run :: "tx_op \<Rightarrow> ('t, 'm, 't sw_db) with_engine \<Rightarrow> op_result \<times> ('t, 'm, 't sw_db) with_engine" where
  "sw_run op s = (case s of (E, hc, sd) \<Rightarrow> let (r, sd') = sw_call E op sd in (r, (E, hc, sd')))"

lemma is_update_tracked: "is_update op \<Longrightarrow> op_tracked op"
  by (cases op) simp_all

lemma succeeded_conv: "succeeded (res_unit r) = is_ok r" "succeeded (ResValue x) = is_ok x"
  by (cases r; cases x; simp add: res_unit_def succeeded_def)+

lemma not_is_ok: "\<not> is_ok r \<longleftrightarrow> is_err r"
  by (cases r) simp_all

lemma op_take_fetch:
  "op_returns (OpTake h k) = op_returns (OpFetchUpdate h k (\<lambda>_. None))"
  "op_writes (OpTake h k) = op_writes (OpFetchUpdate h k (\<lambda>_. None))"
  by (simp_all add: fun_eq_iff)

definition call_promise :: "('t \<Rightarrow> content) \<Rightarrow> nat \<Rightarrow> tx_op \<Rightarrow> op_result \<Rightarrow> 't db \<Rightarrow> 't db \<Rightarrow> bool" where
  "call_promise hc n op r db db' \<longleftrightarrow>
     settled hc n db' \<and> same_handles db db' \<and>
     (succeeded r \<longrightarrow> op_returns op (current hc db) r \<and>
        current hc db' = fold view_write (op_writes op (current hc db)) (current hc db)) \<and>
     (\<not> succeeded r \<longrightarrow> current hc db' = current hc db)"

lemma sw_tx_promise:
  assumes "lsm_ok (en_lsm E) hc" "settled hc (Suc n) (sw_inner sd)" "db_handles (sw_inner sd) (op_handle op) \<noteq> None"
    and "op_tracked op" "step_runs E op conv step" "\<And>x. succeeded (conv x) = is_ok x"
    and run: "apfst conv (with_sw_tx E step sd) = (r, sd')"
  shows "call_promise hc n op r (sw_inner sd) (sw_inner sd')"
proof -
  obtain x where x: "with_sw_tx E step sd = (x, sd')" "r = conv x" using run by (metis apfst_conv prod.collapse prod.inject)
  from with_sw_tx_spec [OF assms(1-5) x(1)] show ?thesis
    unfolding call_promise_def x(2) assms(6) not_is_ok by blast
qed

lemma sw_call_spec:
  assumes L: "lsm_ok (en_lsm E) hc" "settled hc (Suc n) (sw_inner sd)" "db_handles (sw_inner sd) (op_handle op) \<noteq> None"
    and "is_update op" and run: "sw_call E op sd = (r, sd')"
  shows "call_promise hc n op r (sw_inner sd) (sw_inner sd')"
proof (cases op)
  case (OpInsert h k v)
  show ?thesis
    unfolding OpInsert by (rule sw_tx_promise [OF L is_update_tracked [OF assms(4)], unfolded OpInsert, OF step_runs_calls(1) succeeded_conv(1)])
      (use run in \<open>simp add: OpInsert swk_insert_def\<close>)
next
  case (OpRemove h k)
  show ?thesis
    unfolding OpRemove by (rule sw_tx_promise [OF L is_update_tracked [OF assms(4)], unfolded OpRemove, OF step_runs_calls(2) succeeded_conv(1)])
      (use run in \<open>simp add: OpRemove swk_remove_def\<close>)
next
  case (OpRemoveWeak h k)
  show ?thesis
    unfolding OpRemoveWeak by (rule sw_tx_promise [OF L is_update_tracked [OF assms(4)], unfolded OpRemoveWeak, OF step_runs_calls(3) succeeded_conv(1)])
      (use run in \<open>simp add: OpRemoveWeak swk_remove_weak_def\<close>)
next
  case (OpUpdateFetch h k f)
  show ?thesis
    unfolding OpUpdateFetch by (rule sw_tx_promise [OF L is_update_tracked [OF assms(4)], unfolded OpUpdateFetch, OF step_runs_calls(4) succeeded_conv(2)])
      (use run in \<open>simp add: OpUpdateFetch swk_update_fetch_def\<close>)
next
  case (OpFetchUpdate h k f)
  show ?thesis
    unfolding OpFetchUpdate by (rule sw_tx_promise [OF L is_update_tracked [OF assms(4)], unfolded OpFetchUpdate, OF step_runs_calls(5) succeeded_conv(2)])
      (use run in \<open>simp add: OpFetchUpdate swk_fetch_update_def\<close>)
next
  case (OpTake h k)
  have "call_promise hc n (OpFetchUpdate h k (\<lambda>_. None)) r (sw_inner sd) (sw_inner sd')"
    by (rule sw_tx_promise [OF L(1,2) _ _ step_runs_calls(5) succeeded_conv(2)])
      (use run L(3) in \<open>simp_all add: OpTake swk_take_def swk_fetch_update_def\<close>)
  then show ?thesis unfolding OpTake call_promise_def op_take_fetch .
qed (use assms(4) in simp_all)

lemma promise_handles: "call_promise hc n op r db db' \<Longrightarrow> db_handles db' h = None \<longleftrightarrow> db_handles db h = None"
  unfolding call_promise_def using same_handles_None by blast

interpretation sw: atomic_calls sw_view sw_room sw_allowed sw_run
proof
  fix n and s s' :: "('t, 'm, 't sw_db) with_engine" and op r
  assume A: "sw_room (Suc n) s" "sw_allowed s op" "sw_run op s = (r, s')"
  obtain E hc sd where s: "s = (E, hc, sd)" by (cases s)
  obtain sd' where c: "sw_call E op sd = (r, sd')" "s' = (E, hc, sd')"
    using A(3) by (auto simp: sw_run_def s split: prod.splits)
  have H: "lsm_ok (en_lsm E) hc" "settled hc (Suc n) (sw_inner sd)" "db_handles (sw_inner sd) (op_handle op) \<noteq> None" "is_update op"
    using A(1,2) by (simp_all add: sw_room_def sw_allowed_def s)
  note spec = sw_call_spec [OF H c(1)]
  show "sw_room n s' \<and> sw_allowed s' = sw_allowed s"
    using spec H(1) promise_handles [OF spec]
    by (simp add: call_promise_def sw_room_def sw_allowed_def s c(2) fun_eq_iff del: not_None_eq)
  show "op_returns op (sw_view s) r \<and> sw_view s' = fold view_write (op_writes op (sw_view s)) (sw_view s)" if "succeeded r"
    using spec that by (simp add: call_promise_def sw_view_def s c(2))
  show "sw_view s' = sw_view s" if "\<not> succeeded r"
    using spec that by (simp add: call_promise_def sw_view_def s c(2))
qed

section \<open>Optimistic calls\<close>

text \<open>Between transactions every recorded commit is published, so a transaction that meets no
  interference finds no conflict.\<close>

definition records_published :: "'t optimistic_db \<Rightarrow> bool" where
  "records_published ob = (\<forall>(ts, cm)\<in>set (ob_committed ob). ts \<le> tr_seqno (db_tracker (ob_inner ob)))"

definition opt_steps ::
    "('t, 'm) engine \<Rightarrow> tx_op \<Rightarrow> ('a result \<Rightarrow> op_result) \<Rightarrow> ('t db \<Rightarrow> 'm opt_tx \<Rightarrow> 'a result \<times> 'm opt_tx) \<Rightarrow> bool" where
  "opt_steps E op conv step \<longleftrightarrow> (\<forall>pr db tx. run_op E pr op db tx = apfst conv (step db tx))"

lemma opt_steps_calls:
  "opt_steps E (OpInsert h k v) res_unit (\<lambda>db tx. (Inr (), opt_insert E h k v db tx))"
  "opt_steps E (OpRemove h k) res_unit (\<lambda>db tx. (Inr (), opt_remove E h k db tx))"
  "opt_steps E (OpRemoveWeak h k) res_unit (\<lambda>db tx. (Inr (), opt_remove_weak E h k db tx))"
  "opt_steps E (OpUpdateFetch h k f) ResValue (opt_update_fetch E h k f)"
  "opt_steps E (OpFetchUpdate h k f) ResValue (opt_fetch_update E h k f)"
  by (simp_all add: opt_steps_def res_unit_def)

lemma opt_write_tx_spec:
  assumes "settled hc n (ob_inner ob)" "records_published ob" "optimistic_write_tx ob = (Inr tx, ob1)"
  shows "settled hc n (ob_inner ob1)" "current hc (ob_inner ob1) = current hc (ob_inner ob)" "records_published ob1"
    "db_handles (ob_inner ob1) = db_handles (ob_inner ob)" "opt_inv E hc (ob_inner ob1) [] tx"
    "tx_instant (ot_inner tx) = tr_seqno (db_tracker (ob_inner ob1))" "tx_seqno (ot_inner tx) \<noteq> - 1"
proof -
  let ?db = "ob_inner ob"
  obtain t where t: "tracker_open (db_tracker ?db) = (t, tr_seqno (db_tracker ?db))" "tr_seqno t = tr_seqno (db_tracker ?db)"
    by (simp add: tracker_open_def Let_def)
  have eqs: "ob1 = ob\<lparr>ob_inner := ?db\<lparr>db_tracker := t\<rparr>\<rparr>" "ot_cm tx = cm_default"
    "ot_inner tx = base_new (tr_seqno t) \<or> ot_inner tx = base_durability (Some Buffer) (base_new (tr_seqno t))"
    using assms(3) t by (auto simp: optimistic_write_tx_def opt_new_def opt_durability_def Let_def split: if_splits)
  show st: "settled hc n (ob_inner ob1)" "current hc (ob_inner ob1) = current hc ?db"
    using settled_tracker [OF assms(1) t(2)] eqs(1) by simp_all
  show "records_published ob1" using assms(2) eqs(1) t(2) by (simp add: records_published_def)
  show h: "db_handles (ob_inner ob1) = db_handles ?db" "tx_instant (ot_inner tx) = tr_seqno (db_tracker (ob_inner ob1))"
    "tx_seqno (ot_inner tx) \<noteq> - 1"
    using eqs by (auto simp: base_new_def base_durability_def)
  have "tx_inv E (ob_inner ob1) [] (ot_inner tx)" using eqs(3) tx_inv_new [of E "ob_inner ob1"] by auto
  then show "opt_inv E hc (ob_inner ob1) [] tx"
    using st(1) h(2) eqs(2) by (simp add: opt_inv_def cm_default_sets settled_def db_inv_def)
qed

lemma no_records_after:
  assumes "records_published ob" "i = tr_seqno (db_tracker (ob_inner ob))" "i \<noteq> - 1"
  shows "filter (\<lambda>(ts, _). i + 1 \<le> ts) (ob_committed ob) = []"
  using assms plus_one_le_seqno [OF assms(3)] by (fastforce simp: records_published_def filter_empty_conv)

lemma settled_opt_commit:
  assumes L: "lsm_ok (en_lsm E) hc" and st: "settled hc (Suc n) (ob_inner ob)" and rec: "records_published ob"
    and tx: "opt_inv E hc (ob_inner ob) [(op, q)] tx" "tx_instant (ot_inner tx) = tr_seqno (db_tracker (ob_inner ob))"
    and run: "opt_commit E tx ob = (r, ob')"
  shows "settled hc n (ob_inner ob') \<and> records_published ob' \<and> same_handles (ob_inner ob) (ob_inner ob') \<and>
    (r = Inr (Inr ()) \<and> current hc (ob_inner ob') =
       fold view_write (op_writes op (current hc (ob_inner ob))) (current hc (ob_inner ob)) \<or>
     is_err r \<and> current hc (ob_inner ob') = current hc (ob_inner ob))"
proof -
  define i where "i = tx_instant (ot_inner tx)"
  let ?db = "ob_inner ob"
  let ?dbt = "?db\<lparr>db_tracker := close_raw i (db_tracker ?db)\<rparr>"
  have v: "read_at hc i ?db = current hc ?db" using st tx(2) by (simp add: settled_def current_def i_def)
  have t: "tx_inv E ?db (op_writes op (current hc ?db)) (ot_inner tx)" "cm_ok (ot_cm tx)" "i \<le> db_seqno ?db"
    using tx(1) v by (simp_all add: opt_inv_def Let_def i_def)
  note st0 = settled_tracker [OF st, of "close_raw i (db_tracker ?db)", simplified]
  have t0: "tx_inv E ?dbt (op_writes op (current hc ?db)) (ot_inner tx)" using t(1) by (simp add: tx_inv_def)
  have drop: "settled hc n (iter_drop i d)" "current hc (iter_drop i d) = current hc d" "same_handles ?db (iter_drop i d)"
      "tr_seqno (db_tracker (iter_drop i d)) = tr_seqno (db_tracker d)"
    if "settled hc n d" "same_handles ?db d" for d
    using settled_drop [OF that(1)] that(2) by (simp_all add: same_handles_def iter_drop_def)
  have st': "settled hc n ?db" "same_handles ?db ?db" using settled_mono [OF st, of n] by (simp_all add: same_handles_def)
  have i: "i \<noteq> - 1" using t(3) settled_room [OF st] by (metis word_order.extremum_unique)
  have ret: "ts \<le> tr_seqno (db_tracker ?db)" if "(ts, cm) \<in> set (retained i (ob_oracle ob))" for ts cm
    using that rec by (auto simp: retained_def ob_oracle_def records_published_def)
  show ?thesis
  proof (cases "tx_memtables (ot_inner tx) = []")
    case True
    then have "op_writes op (current hc ?db) = []" using t(1) by (simp add: tx_inv_def)
    moreover have "r = Inr (Inr ())" "ob' = ob_drop_nonce i ob" using run True by (simp_all add: opt_commit_def i_def Let_def)
    ultimately show ?thesis using drop [OF st'] rec by (simp add: ob_drop_nonce_def records_published_def)
  next
    case False
    from False t(2) run i_def show ?thesis
    proof (cases rule: opt_commit_ends)
      case stopped
      then show ?thesis using drop [OF st'] rec by (simp add: records_published_def)
    next
      case conflicted
      then show ?thesis using no_records_after [OF rec _ i] tx(2) by (simp add: i_def)
    next
      case (failed db1 e)
      note com = settled_commit [OF L st0(1) t0 failed(1), unfolded st0(2)]
      have same: "same_handles ?db db1" using com(2) by (simp add: same_handles_def)
      have "tr_seqno (db_tracker ?db) \<le> tr_seqno (db_tracker db1)"
        using failed(1) L st0(1) t0 False settled_room [OF st0(1)]
        by (elim base_commit_cases [where ws = "op_writes op (current hc ?db)"]) (auto simp: settled_def tx_inv_def)
      then show ?thesis
        using failed drop [OF com(1) same] com(4) ret by (fastforce simp: records_published_def)
    next
      case (committed db1)
      note com = settled_commit [OF L st0(1) t0 committed(1), unfolded st0(2)]
      have same: "same_handles ?db db1" using com(2) by (simp add: same_handles_def)
      have "tr_seqno (db_tracker ?db) \<le> tr_seqno (db_tracker db1)"
        using committed(1) L st0(1) t0 False settled_room [OF st0(1)]
        by (elim base_commit_cases [where ws = "op_writes op (current hc ?db)"])
          (auto simp: settled_def tx_inv_def publish_def)
      then show ?thesis
        using committed drop [OF com(1) same] com(3) ret in_btree_insert(1)
        by (fastforce simp: records_published_def)
    qed
  qed
qed

text \<open>One undisturbed attempt.\<close>

lemma with_opt_tx_spec:
  fixes E :: "('t, 'm) engine"
  assumes L: "lsm_ok (en_lsm E) hc" and st: "settled hc (Suc n) (ob_inner ob)" "records_published ob"
    and live: "db_handles (ob_inner ob) (op_handle op) \<noteq> None" "op_tracked op"
    and step: "opt_steps E op conv step" "\<And>x. succeeded (conv x) = is_ok x"
    and run: "with_opt_tx E step id ob = (x, ob')"
  obtains y where "x = (case y of Inl e \<Rightarrow> Inl e | Inr a \<Rightarrow> Inr (Inr a))"
    "call_promise hc n op (conv y) (ob_inner ob) (ob_inner ob')" "records_published ob'"
proof (cases "optimistic_write_tx ob :: 'm opt_tx result \<times> 't optimistic_db")
  case (Pair q ob1)
  show thesis
  proof (cases q)
    case (Inl e)
    then have "ob' = ob" "x = Inl e"
      using run Pair by (auto simp: with_opt_tx_def optimistic_write_tx_def Let_def split: if_splits prod.splits)
    then show thesis
      using that [of "Inl e"] settled_mono [OF st(1), of n] st(2) step(2) [of "Inl e"]
      by (simp add: call_promise_def same_handles_def)
  next
    case (Inr tx)
    then have W: "optimistic_write_tx ob = (Inr tx, ob1)" using Pair by simp
    note w = opt_write_tx_spec [OF st W]
    let ?pr = "sample_prefix_to_range"
    obtain y tx1 where y: "step (ob_inner ob1) tx = (y, tx1)" by fastforce
    then have op: "run_op E ?pr op (ob_inner ob1) tx = (conv y, tx1)" using step(1) by (simp add: opt_steps_def)
    have db: "names_distinct (ob_inner ob1)" "db_inv hc (ob_inner ob1)" using w(1) by (simp_all add: settled_def)
    have inv: "opt_inv E hc (ob_inner ob1) [(op, conv y)] tx1"
      using run_op_inv [OF L sample_prefix_range_law db _ live(2) w(5) w(7) op] live(1) w(4) by simp
    have inst: "tx_instant (ot_inner tx1) = tr_seqno (db_tracker (ob_inner ob1))"
      using run_op_instant [OF op] w(6) by simp
    then have ret: "op_returns op (current hc (ob_inner ob1)) (conv y)"
      using inv w(1) by (simp add: opt_inv_def Let_def settled_def current_def)
    have same: "same_handles (ob_inner ob) (ob_inner ob1)" using w(4) by (simp add: same_handles_def)
    show thesis
    proof (cases y)
      case (Inl e)
      then have "x = Inl e" "ob' = ob_drop_nonce (tx_instant (ot_inner tx1)) ob1"
        using run W y by (auto simp: with_opt_tx_def opt_rollback_def)
      then show thesis
        using that [of "Inl e"] settled_drop [OF settled_mono [OF w(1), of n]] w(2,3) same step(2) [of "Inl e"] Inl
        by (simp add: call_promise_def ob_drop_nonce_def records_published_def same_handles_def iter_drop_def)
    next
      case (Inr a)
      obtain c ob2 where c: "opt_commit E tx1 ob1 = (c, ob2)" by fastforce
      note com = settled_opt_commit [OF L w(1,3) inv inst c, unfolded w(2)]
      have same': "same_handles (ob_inner ob) (ob_inner ob2)" using com same_handles_trans [OF same] by blast
      from com consider "c = Inr (Inr ())"
          "current hc (ob_inner ob2) = fold view_write (op_writes op (current hc (ob_inner ob))) (current hc (ob_inner ob))"
        | e where "c = Inl e" "current hc (ob_inner ob2) = current hc (ob_inner ob)" by (cases c) auto
      then show thesis
      proof cases
        case 1
        then have "x = Inr (Inr a)" "ob' = ob2" using run W y Inr c by (auto simp: with_opt_tx_def)
        then show thesis using that [of "Inr a"] com same' 1 ret step(2) [of "Inr a"] Inr w(2) by (simp add: call_promise_def)
      next
        case (2 e)
        then have "x = Inl e" "ob' = ob2" using run W y Inr c by (auto simp: with_opt_tx_def)
        then show thesis using that [of "Inl e"] com same' 2 step(2) [of "Inl e"] by (simp add: call_promise_def)
      qed
    qed
  qed
qed

lemma blind_promise:
  assumes "lsm_ok (en_lsm E) hc" "settled hc (Suc n) (ob_inner ob)" "records_published ob"
    and "db_handles (ob_inner ob) (op_handle op) \<noteq> None" "op_tracked op" "opt_steps E op res_unit step"
    and run: "apfst res_unit (expect_no_conflict msg (with_opt_tx E step id ob)) = (r, ob')"
  shows "call_promise hc n op r (ob_inner ob) (ob_inner ob') \<and> records_published ob'"
proof -
  obtain x ob2 where x: "with_opt_tx E step id ob = (x, ob2)" by fastforce
  obtain y where "x = (case y of Inl e \<Rightarrow> Inl e | Inr a \<Rightarrow> Inr (Inr a))"
    "call_promise hc n op (res_unit y) (ob_inner ob) (ob_inner ob2)" "records_published ob2"
    by (rule with_opt_tx_spec [OF assms(1-6) succeeded_conv(1) x])
  with run x show ?thesis by (cases y) (auto simp: expect_no_conflict_def)
qed

lemma loop_promise:
  assumes "lsm_ok (en_lsm E) hc" "settled hc (Suc n) (ob_inner ob)" "records_published ob"
    and "db_handles (ob_inner ob) (op_handle op) \<noteq> None" "op_tracked op" "opt_steps E op ResValue step"
    and run: "apfst loop_result (update_loop E step [id] ob) = (r, ob')"
  shows "call_promise hc n op r (ob_inner ob) (ob_inner ob') \<and> records_published ob'"
proof -
  obtain x ob2 where x: "with_opt_tx E step id ob = (x, ob2)" by fastforce
  obtain y where "x = (case y of Inl e \<Rightarrow> Inl e | Inr a \<Rightarrow> Inr (Inr a))"
    "call_promise hc n op (ResValue y) (ob_inner ob) (ob_inner ob2)" "records_published ob2"
    by (rule with_opt_tx_spec [OF assms(1-6) succeeded_conv(2) x])
  with run x show ?thesis by (cases y) (auto simp: loop_result_def)
qed

lemma opt_call_spec:
  assumes L: "lsm_ok (en_lsm E) hc" "settled hc (Suc n) (ob_inner ob)" "records_published ob"
      "db_handles (ob_inner ob) (op_handle op) \<noteq> None"
    and "is_update op" and run: "opt_call E op ob = (r, ob')"
  shows "call_promise hc n op r (ob_inner ob) (ob_inner ob') \<and> records_published ob'"
proof (cases op)
  case (OpInsert h k v)
  show ?thesis
    unfolding OpInsert by (rule blind_promise [OF L is_update_tracked [OF assms(5)], unfolded OpInsert, OF opt_steps_calls(1)])
      (use run in \<open>simp add: OpInsert otk_insert_def\<close>)
next
  case (OpRemove h k)
  show ?thesis
    unfolding OpRemove by (rule blind_promise [OF L is_update_tracked [OF assms(5)], unfolded OpRemove, OF opt_steps_calls(2)])
      (use run in \<open>simp add: OpRemove otk_remove_def\<close>)
next
  case (OpRemoveWeak h k)
  show ?thesis
    unfolding OpRemoveWeak by (rule blind_promise [OF L is_update_tracked [OF assms(5)], unfolded OpRemoveWeak, OF opt_steps_calls(3)])
      (use run in \<open>simp add: OpRemoveWeak otk_remove_weak_def\<close>)
next
  case (OpUpdateFetch h k f)
  show ?thesis
    unfolding OpUpdateFetch by (rule loop_promise [OF L is_update_tracked [OF assms(5)], unfolded OpUpdateFetch, OF opt_steps_calls(4)])
      (use run in \<open>simp add: OpUpdateFetch otk_update_fetch_def\<close>)
next
  case (OpFetchUpdate h k f)
  show ?thesis
    unfolding OpFetchUpdate by (rule loop_promise [OF L is_update_tracked [OF assms(5)], unfolded OpFetchUpdate, OF opt_steps_calls(5)])
      (use run in \<open>simp add: OpFetchUpdate otk_fetch_update_def\<close>)
next
  case (OpTake h k)
  have "call_promise hc n (OpFetchUpdate h k (\<lambda>_. None)) r (ob_inner ob) (ob_inner ob') \<and> records_published ob'"
    by (rule loop_promise [OF L(1-3) _ _ opt_steps_calls(5)])
      (use run L(4) in \<open>simp_all add: OpTake otk_take_def otk_fetch_update_def\<close>)
  then show ?thesis unfolding OpTake call_promise_def op_take_fetch .
qed (use assms(5) in simp_all)

definition opt_view :: "('t, 'm, 't optimistic_db) with_engine \<Rightarrow> view" where
  "opt_view s = (case s of (E, hc, ob) \<Rightarrow> current hc (ob_inner ob))"

definition opt_room :: "nat \<Rightarrow> ('t, 'm, 't optimistic_db) with_engine \<Rightarrow> bool" where
  "opt_room n s = (case s of (E, hc, ob) \<Rightarrow> lsm_ok (en_lsm E) hc \<and> settled hc n (ob_inner ob) \<and> records_published ob)"

definition opt_allowed :: "('t, 'm, 't optimistic_db) with_engine \<Rightarrow> tx_op \<Rightarrow> bool" where
  "opt_allowed s op = (case s of (E, hc, ob) \<Rightarrow> is_update op \<and> db_handles (ob_inner ob) (op_handle op) \<noteq> None)"

definition opt_run :: "tx_op \<Rightarrow> ('t, 'm, 't optimistic_db) with_engine \<Rightarrow> op_result \<times> ('t, 'm, 't optimistic_db) with_engine" where
  "opt_run op s = (case s of (E, hc, ob) \<Rightarrow> let (r, ob') = opt_call E op ob in (r, (E, hc, ob')))"

interpretation ot: atomic_calls opt_view opt_room opt_allowed opt_run
proof
  fix n and s s' :: "('t, 'm, 't optimistic_db) with_engine" and op r
  assume A: "opt_room (Suc n) s" "opt_allowed s op" "opt_run op s = (r, s')"
  obtain E hc ob where s: "s = (E, hc, ob)" by (cases s)
  obtain ob' where c: "opt_call E op ob = (r, ob')" "s' = (E, hc, ob')"
    using A(3) by (auto simp: opt_run_def s split: prod.splits)
  have H: "lsm_ok (en_lsm E) hc" "settled hc (Suc n) (ob_inner ob)" "records_published ob"
    "db_handles (ob_inner ob) (op_handle op) \<noteq> None" "is_update op"
    using A(1,2) by (simp_all add: opt_room_def opt_allowed_def s)
  note spec = opt_call_spec [OF H c(1)]
  show "opt_room n s' \<and> opt_allowed s' = opt_allowed s"
    using spec H(1) promise_handles [OF conjunct1 [OF spec]]
    by (simp add: call_promise_def opt_room_def opt_allowed_def s c(2) fun_eq_iff del: not_None_eq)
  show "op_returns op (opt_view s) r \<and> opt_view s' = fold view_write (op_writes op (opt_view s)) (opt_view s)" if "succeeded r"
    using spec that by (simp add: call_promise_def opt_view_def s c(2))
  show "opt_view s' = opt_view s" if "\<not> succeeded r"
    using spec that by (simp add: call_promise_def opt_view_def s c(2))
qed

lemma run_calls_engine:
  "run_calls sw_run ops (E, hc, sd) = (let (l, sd') = run_calls (sw_call E) ops sd in (l, (E, hc, sd')))"
  "run_calls opt_run ops (E, hc, ob) = (let (l, ob') = run_calls (opt_call E) ops ob in (l, (E, hc, ob')))"
proof -
  show "run_calls sw_run ops (E, hc, sd) = (let (l, sd') = run_calls (sw_call E) ops sd in (l, (E, hc, sd')))"
    by (induction ops arbitrary: sd) (simp_all add: sw_run_def Let_def split: prod.split)
  show "run_calls opt_run ops (E, hc, ob) = (let (l, ob') = run_calls (opt_call E) ops ob in (l, (E, hc, ob')))"
    by (induction ops arbitrary: ob) (simp_all add: opt_run_def Let_def split: prod.split)
qed

lemma with_opt_tx_blind:
  assumes "\<And>db tx. cm_reads (ot_cm tx) = [] \<Longrightarrow> cm_reads (ot_cm (snd (step db tx))) = []"
  shows "fst (with_opt_tx E step env ob) \<noteq> Inr (Inl Conflict)"
proof -
  have "opt_commit E tx1 (env ob1) \<noteq> (Inr (Inl Conflict), ob2)"
    if "optimistic_write_tx ob = (Inr tx, ob1)" "step (ob_inner ob1) tx = (y, tx1)" for tx ob1 y tx1 ob2
    using commit_blind [of tx1 E "env ob1"] assms [OF write_tx_blind [OF that(1)], of "ob_inner ob1"] that(2) by auto
  then show ?thesis by (auto simp: with_opt_tx_def split: prod.split sum.split)
qed

lemma sample_settled: "settled ref_content 9 sample_db"
proof -
  have "read_at ref_content i sample_db = read_at ref_content j sample_db" for i j
    by (auto simp: read_at_def sample_db_def sample_keyspace_def seen_def newest_def ref_content_def dom_def fun_eq_iff)
  then show ?thesis
    using sample_db_ok(2) sample_names by (auto simp: settled_def sample_db_def)
qed

definition sample_calls :: "tx_op list" where
  "sample_calls = [OpInsert 1 [1] [7], OpFetchUpdate 1 [1] (\<lambda>_. Some [8]), OpTake 2 [1]]"

section \<open>Properties\<close>

text \<open>C18: calls on a single-writer keyspace are atomic.  Any sequence of inserts, removes and
  read-modify-write calls is the serial execution of the calls that succeeded: each returns what
  the keyspace held at its turn and applies its update to that, and a call that fails changes
  nothing.\<close>

theorem single_writer_calls_serial:
  assumes "lsm_ok (en_lsm E) hc" "settled hc (length ops) db"
    and "\<forall>op\<in>set ops. is_update op \<and> db_handles db (op_handle op) \<noteq> None"
    and "run_calls (sw_call E) ops (sw_open db) = (l, sd)"
  shows "map fst l = ops \<and> log_returns (current hc db) (successes l) \<and>
    current hc (sw_inner sd) = serial_view (current hc db) (successes l)"
  using sw.calls_serial [of ops "(E, hc, sw_open db)" l "(E, hc, sd)"] assms
  by (simp add: sw_room_def sw_allowed_def sw_view_def sw_open_def run_calls_engine)

theorem single_writer_calls_serial_witness:
  "\<exists>l sd. run_calls (sw_call sample_engine) sample_calls (sw_open sample_db) = (l, sd) \<and>
     map fst l = sample_calls \<and> log_returns (current ref_content sample_db) (successes l)"
proof -
  obtain l sd where run: "run_calls (sw_call sample_engine) sample_calls (sw_open sample_db) = (l, sd)" by fastforce
  have "settled ref_content (length sample_calls) sample_db"
    by (rule settled_mono [OF sample_settled]) (simp add: sample_calls_def)
  from single_writer_calls_serial [OF sample_db_ok(1) this _ run] run show ?thesis
    by (simp add: sample_calls_def sample_db_def)
qed

text \<open>C19: calls on an optimistic keyspace.  Undisturbed calls are the serial execution of those that
  succeeded, and the retry loop returns in its first attempt.  Whatever other transactions do in
  between, a blind insert or remove never conflicts, so its \<open>expect\<close> does not panic.\<close>

theorem optimistic_calls_serial:
  assumes "lsm_ok (en_lsm E) hc" "settled hc (length ops) db"
    and "\<forall>op\<in>set ops. is_update op \<and> db_handles db (op_handle op) \<noteq> None"
    and "run_calls (opt_call E) ops (optimistic_open db) = (l, ob)"
  shows "map fst l = ops \<and> log_returns (current hc db) (successes l) \<and>
    current hc (ob_inner ob) = serial_view (current hc db) (successes l) \<and>
    (\<forall>h k v env ob. fst (with_opt_tx E (\<lambda>db tx. (Inr (), opt_insert E h k v db tx)) env ob) \<noteq> Inr (Inl Conflict) \<and>
       fst (with_opt_tx E (\<lambda>db tx. (Inr (), opt_remove E h k db tx)) env ob) \<noteq> Inr (Inl Conflict) \<and>
       fst (with_opt_tx E (\<lambda>db tx. (Inr (), opt_remove_weak E h k db tx)) env ob) \<noteq> Inr (Inl Conflict))"
proof -
  have "map fst l = ops \<and> log_returns (current hc db) (successes l) \<and>
      current hc (ob_inner ob) = serial_view (current hc db) (successes l)"
    using ot.calls_serial [of ops "(E, hc, optimistic_open db)" l "(E, hc, ob)"] assms
    by (simp add: opt_room_def opt_allowed_def opt_view_def optimistic_open_def run_calls_engine records_published_def)
  then show ?thesis
    by (simp add: with_opt_tx_blind opt_insert_def opt_remove_def opt_remove_weak_def)
qed

theorem optimistic_calls_serial_witness:
  "\<exists>l ob. run_calls (opt_call sample_engine) sample_calls (optimistic_open sample_db) = (l, ob) \<and>
     map fst l = sample_calls \<and> log_returns (current ref_content sample_db) (successes l)"
proof -
  obtain l ob where run: "run_calls (opt_call sample_engine) sample_calls (optimistic_open sample_db) = (l, ob)" by fastforce
  have "settled ref_content (length sample_calls) sample_db"
    by (rule settled_mono [OF sample_settled]) (simp add: sample_calls_def)
  from optimistic_calls_serial [OF sample_db_ok(1) this _ run] run show ?thesis
    by (simp add: sample_calls_def sample_db_def)
qed

end
