(* ===== verification/SecureTx.thy ===== *)
theory SecureTx
  imports SecureKeyspace TxKeyspaces
begin

text \<open>
  \<open>src/secure/tx.rs\<close>: transactions that carry a session.  Each operation checks a permission, then
  works on the transaction underneath, single-writer or optimistic.

  The source has the operations twice, once per kind of transaction, and its read helpers once
  for any reader.  Here the bodies are written once, over the function of the inner transaction
  they call, and instantiated for both kinds.
\<close>

section \<open>State\<close>

record secure_tx_keyspace =
  tk_inner :: u64
  tk_name :: rstr
  tk_encryption :: "value_encryption option"

record ('m, 'i) sw_secure_tx =
  ws_inner :: "'m sw_tx"
  ws_session :: "'i session"
  ws_security :: "'i security_providers"

record ('m, 'i) opt_secure_tx =
  wo_inner :: "'m opt_tx"
  wo_session :: "'i session"
  wo_security :: "'i security_providers"

definition providers_from_parts ::
    "(credentials \<Rightarrow> 'i option result) option \<Rightarrow> 'i permission_handler option
     \<Rightarrow> ('i \<Rightarrow> authorizations result) option \<Rightarrow> 'i audit_config option \<Rightarrow> 'i security_providers result" where
  "providers_from_parts authenticator handler authorizor audit =
     bind_r (ok_or (MissingSecurityProvider ''authenticator'') authenticator) (\<lambda>a.
     bind_r (ok_or (MissingSecurityProvider ''permission_handler'') handler) (\<lambda>p.
     bind_r (ok_or (MissingSecurityProvider ''authorizor'') authorizor) (\<lambda>z.
       Inr \<lparr>sp_authenticator = a, sp_permission_handler = p, sp_authorizor = z, sp_audit = audit\<rparr>)))"

section \<open>Operations\<close>

definition tx_check_permission ::
    "'i security_providers \<Rightarrow> 'i \<Rightarrow> rstr \<Rightarrow> keyspace_permission \<Rightarrow> 'i trail \<Rightarrow> unit result \<times> 'i trail" where
  "tx_check_permission S identity keyspace p tr = check_keyspace_permission S identity keyspace p tr"

definition tx_insert_version ::
    "(u64 \<Rightarrow> bytes \<Rightarrow> bytes \<Rightarrow> 'x \<Rightarrow> 'x) \<Rightarrow> 'i security_providers \<Rightarrow> 'i session \<Rightarrow> secure_tx_keyspace
     \<Rightarrow> versioned_cell \<Rightarrow> bytes \<Rightarrow> 'i trail \<times> 'x \<Rightarrow> unit result \<times> 'i trail \<times> 'x" where
  "tx_insert_version ins S se ks vc value st =
     (case tx_check_permission S (se_identity se) (tk_name ks) PermWrite (fst st) of
        (Inl e, tr) \<Rightarrow> (Inl e, tr, snd st)
      | (Inr _, tr) \<Rightarrow>
          (case bind_r (canonicalize_cell vc) (\<lambda>canonical.
                bind_r (cell_encode canonical) (\<lambda>key.
                map_r (Pair key) (maybe_encrypt_value (tk_encryption ks) key value))) of
             Inl e \<Rightarrow> (Inl e, tr, snd st)
           | Inr (key, stored) \<Rightarrow> (Inr (), tr, ins (tk_inner ks) key stored (snd st))))"

definition tx_delete_version ::
    "(u64 \<Rightarrow> bytes \<Rightarrow> 'x \<Rightarrow> 'x) \<Rightarrow> 'i security_providers \<Rightarrow> 'i session \<Rightarrow> secure_tx_keyspace
     \<Rightarrow> versioned_cell \<Rightarrow> 'i trail \<times> 'x \<Rightarrow> unit result \<times> 'i trail \<times> 'x" where
  "tx_delete_version rem S se ks vc st =
     (case tx_check_permission S (se_identity se) (tk_name ks) PermDelete (fst st) of
        (Inl e, tr) \<Rightarrow> (Inl e, tr, snd st)
      | (Inr _, tr) \<Rightarrow>
          (case bind_r (canonicalize_cell vc) cell_encode of
             Inl e \<Rightarrow> (Inl e, tr, snd st)
           | Inr key \<Rightarrow> (Inr (), tr, rem (tk_inner ks) key (snd st))))"

text \<open>The read helpers.  A transaction reads first and decides on the visibility afterwards.\<close>

definition tx_get_version ::
    "(u64 \<Rightarrow> bytes \<Rightarrow> 'x \<Rightarrow> bytes option result \<times> 'x) \<Rightarrow> 'i security_providers \<Rightarrow> 'i session
     \<Rightarrow> secure_tx_keyspace \<Rightarrow> versioned_cell \<Rightarrow> 'i trail \<times> 'x \<Rightarrow> bytes option result \<times> 'i trail \<times> 'x" where
  "tx_get_version get S se ks vc st =
     (case tx_check_permission S (se_identity se) (tk_name ks) PermRead (fst st) of
        (Inl e, tr) \<Rightarrow> (Inl e, tr, snd st)
      | (Inr _, tr) \<Rightarrow>
          (case cell_encode vc of
             Inl e \<Rightarrow> (Inl e, tr, snd st)
           | Inr key \<Rightarrow>
               (case get (tk_inner ks) key (snd st) of
                  (Inl e, x) \<Rightarrow> (Inl e, tr, x)
                | (Inr found, x) \<Rightarrow>
                    (bind_r (is_visible (c_visibility (vc_cell vc)) (se_auths se)) (\<lambda>seen.
                       if \<not> seen then Inr None
                       else case found of
                         None \<Rightarrow> Inr None
                       | Some stored \<Rightarrow> map_r Some (maybe_decrypt_entry (tk_encryption ks) key stored)),
                     tr, x))))"

definition tx_scan_versioned_prefix ::
    "(u64 \<Rightarrow> key_range \<Rightarrow> 'x \<Rightarrow> guard list \<times> 'x) \<Rightarrow> (bytes \<Rightarrow> key_range) \<Rightarrow> 'i security_providers \<Rightarrow> 'i session
     \<Rightarrow> secure_tx_keyspace \<Rightarrow> composite_prefix \<Rightarrow> version_scan \<Rightarrow> 'i trail \<times> 'x
     \<Rightarrow> versioned_entry list result \<times> 'i trail \<times> 'x" where
  "tx_scan_versioned_prefix rng pr S se ks p sc st =
     (case tx_check_permission S (se_identity se) (tk_name ks) PermRead (fst st) of
        (Inl e, tr) \<Rightarrow> (Inl e, tr, snd st)
      | (Inr _, tr) \<Rightarrow>
          (case composite_prefix_range pr p of
             Inl e \<Rightarrow> (Inl e, tr, snd st)
           | Inr r \<Rightarrow>
               let (gs, x) = rng (tk_inner ks) r (snd st)
               in (secure_scan_guards (tk_encryption ks) (se_auths se) sc gs [], tr, x)))"

section \<open>Single-writer transactions\<close>

definition sw_begin_secure_tx ::
    "'i security_providers \<Rightarrow> 'i session \<Rightarrow> 't sw_db \<Rightarrow> ('m, 'i) sw_secure_tx result \<times> 't sw_db" where
  "sw_begin_secure_tx S se sd =
     (case sw_write_tx sd of
        (Inl e, sd1) \<Rightarrow> (Inl e, sd1)
      | (Inr inner, sd1) \<Rightarrow> (Inr \<lparr>ws_inner = inner, ws_session = se, ws_security = S\<rparr>, sd1))"

text \<open>A call on the wrapped transaction.\<close>

definition on_sw_inner ::
    "('i security_providers \<Rightarrow> 'i session \<Rightarrow> 'i trail \<times> 'm sw_tx \<Rightarrow> 'a \<times> 'i trail \<times> 'm sw_tx)
     \<Rightarrow> 'i trail \<times> ('m, 'i) sw_secure_tx \<Rightarrow> 'a \<times> 'i trail \<times> ('m, 'i) sw_secure_tx" where
  "on_sw_inner f st =
     (let tx = snd st; (r, tr, inner) = f (ws_security tx) (ws_session tx) (fst st, ws_inner tx)
      in (r, tr, tx\<lparr>ws_inner := inner\<rparr>))"

definition sw_insert_version ::
    "('t, 'm) engine \<Rightarrow> 't db \<Rightarrow> secure_tx_keyspace \<Rightarrow> versioned_cell \<Rightarrow> bytes \<Rightarrow> 'i trail \<times> ('m, 'i) sw_secure_tx
     \<Rightarrow> unit result \<times> 'i trail \<times> ('m, 'i) sw_secure_tx" where
  "sw_insert_version E db ks vc value =
     on_sw_inner (\<lambda>S se. tx_insert_version (\<lambda>h k v. st_insert E h k v db) S se ks vc value)"

definition sw_get_version ::
    "('t, 'm) engine \<Rightarrow> 't db \<Rightarrow> secure_tx_keyspace \<Rightarrow> versioned_cell \<Rightarrow> 'i trail \<times> ('m, 'i) sw_secure_tx
     \<Rightarrow> bytes option result \<times> 'i trail \<times> ('m, 'i) sw_secure_tx" where
  "sw_get_version E db ks vc =
     on_sw_inner (\<lambda>S se. tx_get_version (\<lambda>h k tx. (st_get E h k db tx, tx)) S se ks vc)"

definition sw_scan_versioned_prefix ::
    "('t, 'm) engine \<Rightarrow> (bytes \<Rightarrow> key_range) \<Rightarrow> 't db \<Rightarrow> secure_tx_keyspace \<Rightarrow> composite_prefix \<Rightarrow> version_scan
     \<Rightarrow> 'i trail \<times> ('m, 'i) sw_secure_tx \<Rightarrow> versioned_entry list result \<times> 'i trail \<times> ('m, 'i) sw_secure_tx" where
  "sw_scan_versioned_prefix E pr db ks p sc =
     on_sw_inner (\<lambda>S se. tx_scan_versioned_prefix (\<lambda>h rg tx. (st_range E h rg db tx, tx)) pr S se ks p sc)"

definition sw_delete_version ::
    "('t, 'm) engine \<Rightarrow> 't db \<Rightarrow> secure_tx_keyspace \<Rightarrow> versioned_cell \<Rightarrow> 'i trail \<times> ('m, 'i) sw_secure_tx
     \<Rightarrow> unit result \<times> 'i trail \<times> ('m, 'i) sw_secure_tx" where
  "sw_delete_version E db ks vc =
     on_sw_inner (\<lambda>S se. tx_delete_version (\<lambda>h k. st_remove E h k db) S se ks vc)"

definition sw_secure_commit ::
    "('t, 'm) engine \<Rightarrow> ('m, 'i) sw_secure_tx \<Rightarrow> 't sw_db \<Rightarrow> unit result \<times> 't sw_db" where
  "sw_secure_commit E tx sd = st_commit E (ws_inner tx) sd"

definition sw_secure_rollback :: "('m, 'i) sw_secure_tx \<Rightarrow> 't sw_db \<Rightarrow> 't sw_db" where
  "sw_secure_rollback tx sd = st_rollback (ws_inner tx) sd"

section \<open>Optimistic transactions\<close>

definition opt_begin_secure_tx ::
    "'i security_providers \<Rightarrow> 'i session \<Rightarrow> 't optimistic_db \<Rightarrow> ('m, 'i) opt_secure_tx result \<times> 't optimistic_db" where
  "opt_begin_secure_tx S se ob =
     (case optimistic_write_tx ob of
        (Inl e, ob1) \<Rightarrow> (Inl e, ob1)
      | (Inr inner, ob1) \<Rightarrow> (Inr \<lparr>wo_inner = inner, wo_session = se, wo_security = S\<rparr>, ob1))"

definition on_opt_inner ::
    "('i security_providers \<Rightarrow> 'i session \<Rightarrow> 'i trail \<times> 'm opt_tx \<Rightarrow> 'a \<times> 'i trail \<times> 'm opt_tx)
     \<Rightarrow> 'i trail \<times> ('m, 'i) opt_secure_tx \<Rightarrow> 'a \<times> 'i trail \<times> ('m, 'i) opt_secure_tx" where
  "on_opt_inner f st =
     (let tx = snd st; (r, tr, inner) = f (wo_security tx) (wo_session tx) (fst st, wo_inner tx)
      in (r, tr, tx\<lparr>wo_inner := inner\<rparr>))"

definition opt_insert_version ::
    "('t, 'm) engine \<Rightarrow> 't db \<Rightarrow> secure_tx_keyspace \<Rightarrow> versioned_cell \<Rightarrow> bytes \<Rightarrow> 'i trail \<times> ('m, 'i) opt_secure_tx
     \<Rightarrow> unit result \<times> 'i trail \<times> ('m, 'i) opt_secure_tx" where
  "opt_insert_version E db ks vc value =
     on_opt_inner (\<lambda>S se. tx_insert_version (\<lambda>h k v. opt_insert E h k v db) S se ks vc value)"

definition opt_get_version ::
    "('t, 'm) engine \<Rightarrow> 't db \<Rightarrow> secure_tx_keyspace \<Rightarrow> versioned_cell \<Rightarrow> 'i trail \<times> ('m, 'i) opt_secure_tx
     \<Rightarrow> bytes option result \<times> 'i trail \<times> ('m, 'i) opt_secure_tx" where
  "opt_get_version E db ks vc =
     on_opt_inner (\<lambda>S se. tx_get_version (\<lambda>h k. opt_get E h k db) S se ks vc)"

definition opt_scan_versioned_prefix ::
    "('t, 'm) engine \<Rightarrow> (bytes \<Rightarrow> key_range) \<Rightarrow> 't db \<Rightarrow> secure_tx_keyspace \<Rightarrow> composite_prefix \<Rightarrow> version_scan
     \<Rightarrow> 'i trail \<times> ('m, 'i) opt_secure_tx \<Rightarrow> versioned_entry list result \<times> 'i trail \<times> ('m, 'i) opt_secure_tx" where
  "opt_scan_versioned_prefix E pr db ks p sc =
     on_opt_inner (\<lambda>S se. tx_scan_versioned_prefix (\<lambda>h rg. opt_range E h rg db) pr S se ks p sc)"

definition opt_delete_version ::
    "('t, 'm) engine \<Rightarrow> 't db \<Rightarrow> secure_tx_keyspace \<Rightarrow> versioned_cell \<Rightarrow> 'i trail \<times> ('m, 'i) opt_secure_tx
     \<Rightarrow> unit result \<times> 'i trail \<times> ('m, 'i) opt_secure_tx" where
  "opt_delete_version E db ks vc =
     on_opt_inner (\<lambda>S se. tx_delete_version (\<lambda>h k. opt_remove E h k db) S se ks vc)"

definition opt_secure_commit ::
    "('t, 'm) engine \<Rightarrow> ('m, 'i) opt_secure_tx \<Rightarrow> 't optimistic_db \<Rightarrow> (conflict + unit) result \<times> 't optimistic_db" where
  "opt_secure_commit E tx ob = opt_commit E (wo_inner tx) ob"

definition opt_secure_rollback :: "('m, 'i) opt_secure_tx \<Rightarrow> 't optimistic_db \<Rightarrow> 't optimistic_db" where
  "opt_secure_rollback tx ob = opt_rollback (wo_inner tx) ob"

section \<open>Runs of calls\<close>

fun run_secure_tx ::
    "(u64 \<Rightarrow> bytes \<Rightarrow> 'x \<Rightarrow> bytes option result \<times> 'x) \<Rightarrow> (u64 \<Rightarrow> key_range \<Rightarrow> 'x \<Rightarrow> guard list \<times> 'x)
     \<Rightarrow> (u64 \<Rightarrow> bytes \<Rightarrow> bytes \<Rightarrow> 'x \<Rightarrow> 'x) \<Rightarrow> (u64 \<Rightarrow> bytes \<Rightarrow> 'x \<Rightarrow> 'x) \<Rightarrow> (bytes \<Rightarrow> key_range)
     \<Rightarrow> 'i security_providers \<Rightarrow> 'i session \<Rightarrow> secure_tx_keyspace \<Rightarrow> secure_call \<Rightarrow> 'i trail \<times> 'x
     \<Rightarrow> secure_answer result \<times> 'i trail \<times> 'x" where
  "run_secure_tx get rng ins rem pr S se ks (SecInsert vc v) st =
     apfst (map_r (\<lambda>_. SecDone)) (tx_insert_version ins S se ks vc v st)"
| "run_secure_tx get rng ins rem pr S se ks (SecDelete vc) st =
     apfst (map_r (\<lambda>_. SecDone)) (tx_delete_version rem S se ks vc st)"
| "run_secure_tx get rng ins rem pr S se ks (SecGet vc) st = apfst (map_r SecFound) (tx_get_version get S se ks vc st)"
| "run_secure_tx get rng ins rem pr S se ks (SecScan p sc) st =
     apfst (map_r SecEntries) (tx_scan_versioned_prefix rng pr S se ks p sc st)"

fun run_sw_secure ::
    "('t, 'm) engine \<Rightarrow> (bytes \<Rightarrow> key_range) \<Rightarrow> 't db \<Rightarrow> secure_tx_keyspace \<Rightarrow> secure_call
     \<Rightarrow> 'i trail \<times> ('m, 'i) sw_secure_tx \<Rightarrow> secure_answer result \<times> 'i trail \<times> ('m, 'i) sw_secure_tx" where
  "run_sw_secure E pr db ks (SecInsert vc v) st = apfst (map_r (\<lambda>_. SecDone)) (sw_insert_version E db ks vc v st)"
| "run_sw_secure E pr db ks (SecDelete vc) st = apfst (map_r (\<lambda>_. SecDone)) (sw_delete_version E db ks vc st)"
| "run_sw_secure E pr db ks (SecGet vc) st = apfst (map_r SecFound) (sw_get_version E db ks vc st)"
| "run_sw_secure E pr db ks (SecScan p sc) st = apfst (map_r SecEntries) (sw_scan_versioned_prefix E pr db ks p sc st)"

fun run_opt_secure ::
    "('t, 'm) engine \<Rightarrow> (bytes \<Rightarrow> key_range) \<Rightarrow> 't db \<Rightarrow> secure_tx_keyspace \<Rightarrow> secure_call
     \<Rightarrow> 'i trail \<times> ('m, 'i) opt_secure_tx \<Rightarrow> secure_answer result \<times> 'i trail \<times> ('m, 'i) opt_secure_tx" where
  "run_opt_secure E pr db ks (SecInsert vc v) st = apfst (map_r (\<lambda>_. SecDone)) (opt_insert_version E db ks vc v st)"
| "run_opt_secure E pr db ks (SecDelete vc) st = apfst (map_r (\<lambda>_. SecDone)) (opt_delete_version E db ks vc st)"
| "run_opt_secure E pr db ks (SecGet vc) st = apfst (map_r SecFound) (opt_get_version E db ks vc st)"
| "run_opt_secure E pr db ks (SecScan p sc) st = apfst (map_r SecEntries) (opt_scan_versioned_prefix E pr db ks p sc st)"

fun answers :: "('c \<Rightarrow> 's \<Rightarrow> 'a \<times> 's) \<Rightarrow> 'c list \<Rightarrow> 's \<Rightarrow> 'a list \<times> 's" where
  "answers call [] s = ([], s)"
| "answers call (c # cs) s = (let (r, s1) = call c s; (rs, s2) = answers call cs s1 in (r # rs, s2))"

lemma run_sw_secure_inner:
  "run_sw_secure E pr db ks c st = on_sw_inner (\<lambda>S se. run_secure_tx (\<lambda>h k tx. (st_get E h k db tx, tx))
     (\<lambda>h rg tx. (st_range E h rg db tx, tx)) (\<lambda>h k v. st_insert E h k v db) (\<lambda>h k. st_remove E h k db) pr S se ks c) st"
  by (cases c) (simp_all add: sw_insert_version_def sw_delete_version_def sw_get_version_def
      sw_scan_versioned_prefix_def on_sw_inner_def Let_def apfst_def split: prod.split)

lemma run_opt_secure_inner:
  "run_opt_secure E pr db ks c st = on_opt_inner (\<lambda>S se. run_secure_tx (\<lambda>h k. opt_get E h k db)
     (\<lambda>h rg. opt_range E h rg db) (\<lambda>h k v. opt_insert E h k v db) (\<lambda>h k. opt_remove E h k db) pr S se ks c) st"
  by (cases c) (simp_all add: opt_insert_version_def opt_delete_version_def opt_get_version_def
      opt_scan_versioned_prefix_def on_opt_inner_def Let_def apfst_def split: prod.split)

section \<open>What a call promises on the cells\<close>

type_synonym cells = "bytes \<Rightarrow> bytes option"

definition as_secure :: "'i security_providers \<Rightarrow> secure_tx_keyspace \<Rightarrow> 'i secure_keyspace" where
  "as_secure S ks =
     \<lparr>sk_inner = tk_inner ks, sk_name = tk_name ks, sk_security = S, sk_encryption = tk_encryption ks\<rparr>"

lemma tx_check_eq: "tx_check_permission S (se_identity se) (tk_name ks) p tr = secure_check (as_secure S ks) se p tr"
  by (simp add: tx_check_permission_def secure_check_def as_secure_def)

text \<open>The effect of a permitted call on the cells of the keyspace.\<close>

fun cell_call ::
    "(bytes \<Rightarrow> key_range) \<Rightarrow> value_encryption option \<Rightarrow> authorizations \<Rightarrow> secure_call \<Rightarrow> cells \<Rightarrow> secure_answer result
     \<Rightarrow> cells \<Rightarrow> bool" where
  "cell_call pr enc auths (SecInsert vc v) m r m' \<longleftrightarrow>
     (case bind_r (canonicalize_cell vc) (\<lambda>canonical. bind_r (cell_encode canonical) (\<lambda>key.
           map_r (Pair key) (maybe_encrypt_value enc key v))) of
        Inl e \<Rightarrow> r = Inl e \<and> m' = m
      | Inr (key, stored) \<Rightarrow> r = Inr SecDone \<and> m' = m(key := Some stored))"
| "cell_call pr enc auths (SecDelete vc) m r m' \<longleftrightarrow>
     (case bind_r (canonicalize_cell vc) cell_encode of
        Inl e \<Rightarrow> r = Inl e \<and> m' = m
      | Inr key \<Rightarrow> r = Inr SecDone \<and> m' = m(key := None))"
| "cell_call pr enc auths (SecGet vc) m r m' \<longleftrightarrow> m' = m \<and>
     r = map_r SecFound (bind_r (cell_encode vc) (\<lambda>key.
       bind_r (is_visible (c_visibility (vc_cell vc)) auths) (\<lambda>seen.
         if \<not> seen then Inr None
         else case m key of
           None \<Rightarrow> Inr None
         | Some stored \<Rightarrow> map_r Some (maybe_decrypt_entry enc key stored))))"
| "cell_call pr enc auths (SecScan p sc) m r m' \<longleftrightarrow> m' = m \<and>
     (case composite_prefix_range pr p of
        Inl e \<Rightarrow> r = Inl e
      | Inr rg \<Rightarrow> \<exists>gs. scans (in_range rg) m gs \<and> r = map_r SecEntries (secure_scan_guards enc auths sc gs []))"

definition checked_call ::
    "(bytes \<Rightarrow> key_range) \<Rightarrow> 'i secure_keyspace \<Rightarrow> 'i session \<Rightarrow> secure_call \<Rightarrow> 'i trail \<Rightarrow> cells
     \<Rightarrow> secure_answer result \<Rightarrow> 'i trail \<Rightarrow> cells \<Rightarrow> bool" where
  "checked_call pr sk se c tr m r tr' m' \<longleftrightarrow>
     (case secure_check sk se (secure_permission c) tr of
        (Inl e, tr1) \<Rightarrow> r = Inl e \<and> tr' = tr1 \<and> m' = m
      | (Inr _, tr1) \<Rightarrow> tr' = tr1 \<and> cell_call pr (sk_encryption sk) (se_auths se) c m r m')"

fun call_chain ::
    "(bytes \<Rightarrow> key_range) \<Rightarrow> 'i secure_keyspace \<Rightarrow> 'i session \<Rightarrow> secure_call list \<Rightarrow> 'i trail \<Rightarrow> cells
     \<Rightarrow> secure_answer result list \<Rightarrow> 'i trail \<Rightarrow> cells \<Rightarrow> bool" where
  "call_chain pr sk se [] tr m rs tr' m' \<longleftrightarrow> rs = [] \<and> tr' = tr \<and> m' = m"
| "call_chain pr sk se (c # cs) tr m rs tr' m' \<longleftrightarrow>
     (\<exists>r rs1 tr1 m1. rs = r # rs1 \<and> checked_call pr sk se c tr m r tr1 m1 \<and> call_chain pr sk se cs tr1 m1 rs1 tr' m')"

text \<open>A transaction seen as a store of cells: its reads give the view, its writes update the view at
  the encoding of a canonical cell.  \<open>room n\<close>: the invariant holds and \<open>n\<close> more writes fit.\<close>

locale cell_store =
  fixes get :: "u64 \<Rightarrow> bytes \<Rightarrow> 'x \<Rightarrow> bytes option result \<times> 'x"
    and rng :: "u64 \<Rightarrow> key_range \<Rightarrow> 'x \<Rightarrow> guard list \<times> 'x"
    and ins :: "u64 \<Rightarrow> bytes \<Rightarrow> bytes \<Rightarrow> 'x \<Rightarrow> 'x"
    and rem :: "u64 \<Rightarrow> bytes \<Rightarrow> 'x \<Rightarrow> 'x"
    and h :: u64
    and cells :: "'x \<Rightarrow> bytes \<Rightarrow> bytes option"
    and room :: "nat \<Rightarrow> 'x \<Rightarrow> bool"
  assumes less_room: "room (Suc n) x \<Longrightarrow> room n x"
    and get_cells: "room n x \<Longrightarrow> get h k x = (r, x') \<Longrightarrow> r = Inr (cells x k) \<and> cells x' = cells x \<and> room n x'"
    and rng_cells: "room n x \<Longrightarrow> rng h rg x = (gs, x') \<Longrightarrow> scans (in_range rg) (cells x) gs \<and> cells x' = cells x \<and> room n x'"
    and ins_cells: "room (Suc n) x \<Longrightarrow> canonical_cell vc \<Longrightarrow>
      cells (ins h (cell_bytes vc) v x) = (cells x)(cell_bytes vc := Some v) \<and> room n (ins h (cell_bytes vc) v x)"
    and rem_cells: "room (Suc n) x \<Longrightarrow> canonical_cell vc \<Longrightarrow>
      cells (rem h (cell_bytes vc) x) = (cells x)(cell_bytes vc := None) \<and> room n (rem h (cell_bytes vc) x)"
begin

lemma call_checked:
  assumes room: "room (Suc n) x" and ks: "tk_inner ks = h"
    and run: "run_secure_tx get rng ins rem pr S se ks c (tr, x) = (r, tr', x')"
  shows "checked_call pr (as_secure S ks) se c tr (cells x) r tr' (cells x') \<and> room n x'"
proof (cases "secure_check (as_secure S ks) se (secure_permission c) tr")
  case (Pair q tr1)
  note less = less_room [OF room]
  have enc: "sk_encryption (as_secure S ks) = tk_encryption ks" by (simp add: as_secure_def)
  show ?thesis
  proof (cases c)
    case (SecInsert vc v)
    have ins: "cells (ins h key stored x) = (cells x)(key := Some stored) \<and> room n (ins h key stored x)"
      if "canonicalize_cell vc = Inr vc'" "cell_encode vc' = Inr key" for vc' key stored
      using that ins_cells [OF room, of vc] cell_encode_bytes by (auto simp: canonicalize_eq)
    show ?thesis
      using run Pair less ins
      by (auto simp: SecInsert tx_insert_version_def tx_check_eq checked_call_def ks enc result_elims apfst_def
          split: sum.splits prod.splits)
  next
    case (SecDelete vc)
    have rem: "cells (rem h key x) = (cells x)(key := None) \<and> room n (rem h key x)"
      if "canonicalize_cell vc = Inr vc'" "cell_encode vc' = Inr key" for vc' key
      using that rem_cells [OF room, of vc] cell_encode_bytes by (auto simp: canonicalize_eq)
    show ?thesis
      using run Pair less rem
      by (auto simp: SecDelete tx_delete_version_def tx_check_eq checked_call_def ks enc result_elims apfst_def
          split: sum.splits prod.splits)
  next
    case (SecGet vc)
    show ?thesis
      using run Pair less get_cells [OF less]
      by (auto simp: SecGet tx_get_version_def tx_check_eq checked_call_def ks enc apfst_def
          split: sum.splits prod.splits)
  next
    case (SecScan p sc)
    show ?thesis
      using run Pair less rng_cells [OF less]
      by (auto simp: SecScan tx_scan_versioned_prefix_def tx_check_eq checked_call_def ks enc apfst_def
          split: sum.splits prod.splits) blast
  qed
qed

lemma calls_chain:
  assumes "room (length cs) x" "tk_inner ks = h"
    and "answers (run_secure_tx get rng ins rem pr S se ks) cs (tr, x) = (rs, tr', x')"
  shows "call_chain pr (as_secure S ks) se cs tr (cells x) rs tr' (cells x') \<and> room 0 x'"
  using assms(1,3)
proof (induction cs arbitrary: tr x rs)
  case (Cons c cs)
  obtain r tr1 x1 where c: "run_secure_tx get rng ins rem pr S se ks c (tr, x) = (r, tr1, x1)" by (metis prod_cases3)
  obtain rs1 where rs: "answers (run_secure_tx get rng ins rem pr S se ks) cs (tr1, x1) = (rs1, tr', x')" "rs = r # rs1"
    using Cons.prems(2) c by (auto split: prod.splits)
  have "room (Suc (length cs)) x" using Cons.prems(1) by simp
  from call_checked [OF this assms(2) c] Cons.IH [OF _ rs(1)] rs(2) show ?case by auto
qed simp

end

section \<open>Transactions as stores of cells\<close>

definition canonical_writes :: "u64 \<Rightarrow> tx_write list \<Rightarrow> bool" where
  "canonical_writes h ws \<longleftrightarrow> (\<forall>(h', w)\<in>set ws. h' = h \<and> (\<exists>vc. canonical_cell vc \<and> write_key w = cell_bytes vc))"

definition tx_cells :: "('t, 'm) engine \<Rightarrow> ('t \<Rightarrow> content) \<Rightarrow> 't db \<Rightarrow> u64 \<Rightarrow> 'm base_tx \<Rightarrow> cells" where
  "tx_cells E hc db h b = over_view E (tx_memtables b) (read_at hc (tx_instant b) db) h"

definition tx_room :: "('t, 'm) engine \<Rightarrow> ('t \<Rightarrow> content) \<Rightarrow> 't db \<Rightarrow> u64 \<Rightarrow> seqno \<Rightarrow> nat \<Rightarrow> 'm base_tx \<Rightarrow> bool" where
  "tx_room E hc db h i n b \<longleftrightarrow> lsm_ok (en_lsm E) hc \<and> names_distinct db \<and> db_handles db h \<noteq> None \<and> tx_instant b = i \<and>
     (\<exists>ws. tx_inv E db ws b \<and> canonical_writes h ws \<and> length ws + n < 2 ^ 63)"

lemma tx_room_less: "tx_room E hc db h i (Suc n) b \<Longrightarrow> tx_room E hc db h i n b"
  unfolding tx_room_def by (metis Suc_lessD add_Suc_right)

lemma tx_room_new:
  "lsm_ok (en_lsm E) hc \<Longrightarrow> names_distinct db \<Longrightarrow> db_handles db h \<noteq> None \<Longrightarrow> n < 2 ^ 63 \<Longrightarrow>
    tx_room E hc db h i n (base_durability mode (base_new i))"
  using tx_inv_new [of E db i]
  by (auto simp: tx_room_def canonical_writes_def base_durability_def tx_inv_def base_new_def intro!: exI [of _ "[]"])

lemma tx_cells_new: "tx_cells E hc db h (base_durability mode (base_new i)) = read_at hc i db h"
  by (simp add: tx_cells_def base_durability_def base_new_def over_view_def overlay_def fun_eq_iff)

lemma tx_room_reads:
  assumes "tx_room E hc db h i n b"
  shows "base_get E b h k db = Inr (tx_cells E hc db h b k)"
    and "scans (in_range rg) (tx_cells E hc db h b) (base_range E b h rg db)"
proof -
  obtain ws where ws: "tx_inv E db ws b" and L: "lsm_ok (en_lsm E) hc" "names_distinct db" "db_handles db h \<noteq> None"
    using assms by (auto simp: tx_room_def)
  have eq: "tx_cells E hc db h b = fold view_write ws (read_at hc (tx_instant b) db) h"
    using ws by (simp add: tx_cells_def tx_inv_def)
  show "base_get E b h k db = Inr (tx_cells E hc db h b k)" unfolding eq by (rule base_get_eq [OF L ws])
  obtain ks where "db_handles db h = Some ks" using L(3) by blast
  from scans_tx(1) [OF L(1,2) this ws] show "scans (in_range rg) (tx_cells E hc db h b) (base_range E b h rg db)"
    unfolding eq .
qed

lemma tx_room_write:
  assumes "tx_room E hc db h i (Suc n) b" "canonical_cell vc" "write_key w = cell_bytes vc"
  shows "tx_cells E hc db h (base_write E db (h, w) b) = (tx_cells E hc db h b)(cell_bytes vc := write_value w)"
    and "tx_room E hc db h i n (base_write E db (h, w) b)"
proof -
  obtain ws where ws: "tx_inv E db ws b" "canonical_writes h ws" "length ws + Suc n < 2 ^ 63"
    and L: "lsm_ok (en_lsm E) hc" "names_distinct db" "db_handles db h \<noteq> None" "tx_instant b = i"
    using assms(1) by (auto simp: tx_room_def)
  have M: "memtable_ok (en_lsm E)" using L(1) by (simp add: lsm_ok_def)
  have inv: "tx_inv E db (ws @ [(h, w)]) (base_write E db (h, w) b)"
    by (rule tx_inv_write [OF M L(2,3) ws(1)]) (use ws(3) in simp)
  have inst: "tx_instant (base_write E db (h, w) b) = i" using L(4) by (simp add: base_write_eq)
  show "tx_cells E hc db h (base_write E db (h, w) b) = (tx_cells E hc db h b)(cell_bytes vc := write_value w)"
    using inv ws(1) assms(3) inst L(4) by (simp add: tx_cells_def tx_inv_def view_write_def)
  have "canonical_writes h (ws @ [(h, w)])" using ws(2) assms(2,3) by (auto simp: canonical_writes_def)
  then show "tx_room E hc db h i n (base_write E db (h, w) b)"
    unfolding tx_room_def using inv inst ws(3) L by (intro conjI exI [of _ "ws @ [(h, w)]"]) simp_all
qed

interpretation sws: cell_store "\<lambda>h k tx. (st_get E h k db tx, tx)" "\<lambda>h rg tx. (st_range E h rg db tx, tx)"
  "\<lambda>h k v. st_insert E h k v db" "\<lambda>h k. st_remove E h k db" h
  "\<lambda>tx. tx_cells E hc db h (st_inner tx)" "\<lambda>n tx. tx_room E hc db h i n (st_inner tx)"
  for E :: "('t, 'm) engine" and hc db h i
proof (unfold_locales, goal_cases)
  case (4 n x vc v)
  with tx_room_write [of E hc db h i n "st_inner x" vc "Insert (cell_bytes vc) v"]
  show ?case by (simp add: st_insert_def)
next
  case (5 n x vc)
  with tx_room_write [of E hc db h i n "st_inner x" vc "Remove (cell_bytes vc)"]
  show ?case by (simp add: st_remove_def)
qed (auto simp: tx_room_less tx_room_reads st_get_def st_range_def)

interpretation ots: cell_store "\<lambda>h k. opt_get E h k db" "\<lambda>h rg. opt_range E h rg db"
  "\<lambda>h k v. opt_insert E h k v db" "\<lambda>h k. opt_remove E h k db" h
  "\<lambda>tx. tx_cells E hc db h (ot_inner tx)" "\<lambda>n tx. tx_room E hc db h i n (ot_inner tx)"
  for E :: "('t, 'm) engine" and hc db h i
proof (unfold_locales, goal_cases)
  case (2 n x k r x')
  then show ?case using tx_room_reads(1) [OF 2(1)] by (auto simp: opt_get_def)
next
  case (3 n x rg gs x')
  then show ?case using tx_room_reads(2) [OF 3(1), of rg] by (auto simp: opt_range_def)
next
  case (4 n x vc v)
  with tx_room_write [of E hc db h i n "ot_inner x" vc "Insert (cell_bytes vc) v"]
  show ?case by (simp add: opt_insert_def)
next
  case (5 n x vc)
  with tx_room_write [of E hc db h i n "ot_inner x" vc "Remove (cell_bytes vc)"]
  show ?case by (simp add: opt_remove_def)
qed (auto simp: tx_room_less)

section \<open>Runs on the wrapped transactions\<close>

lemma sw_answers_inner:
  "answers (run_sw_secure E pr db ks) cs (tr, tx) =
     apsnd (apsnd (\<lambda>inner. tx\<lparr>ws_inner := inner\<rparr>))
       (answers (run_secure_tx (\<lambda>h k tx. (st_get E h k db tx, tx)) (\<lambda>h rg tx. (st_range E h rg db tx, tx))
          (\<lambda>h k v. st_insert E h k v db) (\<lambda>h k. st_remove E h k db) pr (ws_security tx) (ws_session tx) ks)
          cs (tr, ws_inner tx))"
  by (induction cs arbitrary: tr tx)
    (simp_all add: run_sw_secure_inner on_sw_inner_def Let_def apsnd_def split: prod.split)

lemma opt_answers_inner:
  "answers (run_opt_secure E pr db ks) cs (tr, tx) =
     apsnd (apsnd (\<lambda>inner. tx\<lparr>wo_inner := inner\<rparr>))
       (answers (run_secure_tx (\<lambda>h k. opt_get E h k db) (\<lambda>h rg. opt_range E h rg db)
          (\<lambda>h k v. opt_insert E h k v db) (\<lambda>h k. opt_remove E h k db) pr (wo_security tx) (wo_session tx) ks)
          cs (tr, wo_inner tx))"
  by (induction cs arbitrary: tr tx)
    (simp_all add: run_opt_secure_inner on_opt_inner_def Let_def apsnd_def split: prod.split)

lemma sw_chain:
  assumes "tx_room E hc db (tk_inner ks) i (length cs) (st_inner (ws_inner tx))"
    and "answers (run_sw_secure E pr db ks) cs (tr, tx) = (rs, tr', tx')"
  shows "call_chain pr (as_secure (ws_security tx) ks) (ws_session tx) cs tr
      (tx_cells E hc db (tk_inner ks) (st_inner (ws_inner tx))) rs tr'
      (tx_cells E hc db (tk_inner ks) (st_inner (ws_inner tx')))"
    and "tx_room E hc db (tk_inner ks) i 0 (st_inner (ws_inner tx'))"
proof -
  obtain inner where run: "answers (run_secure_tx (\<lambda>h k tx. (st_get E h k db tx, tx)) (\<lambda>h rg tx. (st_range E h rg db tx, tx))
      (\<lambda>h k v. st_insert E h k v db) (\<lambda>h k. st_remove E h k db) pr (ws_security tx) (ws_session tx) ks)
      cs (tr, ws_inner tx) = (rs, tr', inner)" and tx': "tx' = tx\<lparr>ws_inner := inner\<rparr>"
    using assms(2) unfolding sw_answers_inner by (auto simp: apsnd_def map_prod_def split: prod.splits)
  from sws.calls_chain [OF assms(1) refl run]
  show "call_chain pr (as_secure (ws_security tx) ks) (ws_session tx) cs tr
      (tx_cells E hc db (tk_inner ks) (st_inner (ws_inner tx))) rs tr'
      (tx_cells E hc db (tk_inner ks) (st_inner (ws_inner tx')))"
    "tx_room E hc db (tk_inner ks) i 0 (st_inner (ws_inner tx'))" by (simp_all add: tx')
qed

lemma opt_chain:
  assumes "tx_room E hc db (tk_inner ks) i (length cs) (ot_inner (wo_inner tx))"
    and "answers (run_opt_secure E pr db ks) cs (tr, tx) = (rs, tr', tx')"
  shows "call_chain pr (as_secure (wo_security tx) ks) (wo_session tx) cs tr
      (tx_cells E hc db (tk_inner ks) (ot_inner (wo_inner tx))) rs tr'
      (tx_cells E hc db (tk_inner ks) (ot_inner (wo_inner tx')))"
    and "tx_room E hc db (tk_inner ks) i 0 (ot_inner (wo_inner tx'))"
proof -
  obtain inner where run: "answers (run_secure_tx (\<lambda>h k. opt_get E h k db) (\<lambda>h rg. opt_range E h rg db)
      (\<lambda>h k v. opt_insert E h k v db) (\<lambda>h k. opt_remove E h k db) pr (wo_security tx) (wo_session tx) ks)
      cs (tr, wo_inner tx) = (rs, tr', inner)" and tx': "tx' = tx\<lparr>wo_inner := inner\<rparr>"
    using assms(2) unfolding opt_answers_inner by (auto simp: apsnd_def map_prod_def split: prod.splits)
  from ots.calls_chain [OF assms(1) refl run]
  show "call_chain pr (as_secure (wo_security tx) ks) (wo_session tx) cs tr
      (tx_cells E hc db (tk_inner ks) (ot_inner (wo_inner tx))) rs tr'
      (tx_cells E hc db (tk_inner ks) (ot_inner (wo_inner tx')))"
    "tx_room E hc db (tk_inner ks) i 0 (ot_inner (wo_inner tx'))" by (simp_all add: tx')
qed

section \<open>What a session can learn\<close>

definition low_equal :: "authorizations \<Rightarrow> cells \<Rightarrow> cells \<Rightarrow> bool" where
  "low_equal auths m1 m2 \<longleftrightarrow> secure_cells m1 \<and> secure_cells m2 \<and>
     (\<forall>vc. visible_to auths vc \<longrightarrow> m1 (cell_bytes vc) = m2 (cell_bytes vc))"

definition bounded_scan :: "secure_call \<Rightarrow> bool" where
  "bounded_scan c = (case c of SecScan p sc \<Rightarrow> max_versions sc \<noteq> Some 0 | _ \<Rightarrow> True)"

lemma low_equal_upd: "low_equal auths m1 m2 \<Longrightarrow> canonical_cell vc \<Longrightarrow>
    low_equal auths (m1(cell_bytes vc := x)) (m2(cell_bytes vc := x))"
  by (auto simp: low_equal_def intro: secure_cells_upd)

lemma low_scan:
  assumes "low_equal auths m1 m2" "max_versions sc \<noteq> Some 0" "scans P m1 gs1" "scans P m2 gs2"
  shows "secure_scan_guards enc auths sc gs1 [] = secure_scan_guards enc auths sc gs2 []"
proof -
  have sec: "secure_cells m1" "secure_cells m2" and eq: "\<And>vc. visible_to auths vc \<Longrightarrow> m1 (cell_bytes vc) = m2 (cell_bytes vc)"
    using assms(1) by (auto simp: low_equal_def)
  obtain xs where xs: "secure_scan_guards enc auths sc gs1 [] = secure_scan_guards enc auths sc (guards xs) []"
      "scans (selects P auths sc) m1 (guards xs)"
    by (rule secure_scan_view [OF assms(3) sec(1) assms(2)])
  obtain ys where ys: "secure_scan_guards enc auths sc gs2 [] = secure_scan_guards enc auths sc (guards ys) []"
      "scans (selects P auths sc) m2 (guards ys)"
    by (rule secure_scan_view [OF assms(4) sec(2) assms(2)])
  have "m1 k = m2 k" if "selects P auths sc k" for k
    using that eq by (auto simp: selects_def selected_def)
  then have "scans (selects P auths sc) m2 (guards xs)" using scans_cong [OF xs(2)] by blast
  then have "guards xs = guards ys" by (rule scans_unique [OF _ ys(2)])
  then show ?thesis using xs(1) ys(1) by simp
qed

lemma low_call:
  assumes "low_equal auths m1 m2" "bounded_scan c"
    and "cell_call pr enc auths c m1 r1 m1'" "cell_call pr enc auths c m2 r2 m2'"
  shows "r1 = r2 \<and> low_equal auths m1' m2'"
proof (cases c)
  case (SecInsert vc v)
  have "low_equal auths (m1(key := x)) (m2(key := x))"
    if "canonicalize_cell vc = Inr vc'" "cell_encode vc' = Inr key" for vc' key x
    using that low_equal_upd [OF assms(1), of vc x] cell_encode_bytes by (auto simp: canonicalize_eq)
  then show ?thesis using assms(1,3,4) by (auto simp: SecInsert result_elims split: sum.splits)
next
  case (SecDelete vc)
  have "low_equal auths (m1(key := x)) (m2(key := x))"
    if "canonicalize_cell vc = Inr vc'" "cell_encode vc' = Inr key" for vc' key x
    using that low_equal_upd [OF assms(1), of vc x] cell_encode_bytes by (auto simp: canonicalize_eq)
  then show ?thesis using assms(1,3,4) by (auto simp: SecDelete result_elims split: sum.splits)
next
  case (SecGet vc)
  have "m1 key = m2 key" if "cell_encode vc = Inr key" "is_visible (c_visibility (vc_cell vc)) auths = Inr True" for key
    using that assms(1) cell_encode_bytes [OF that(1)] by (auto simp: low_equal_def visible_to_def)
  then have "r1 = r2"
    using assms(3,4)
    by (cases "cell_encode vc"; cases "is_visible (c_visibility (vc_cell vc)) auths") (auto simp: SecGet)
  then show ?thesis using assms(1,3,4) by (simp add: SecGet)
next
  case (SecScan p sc)
  then have "max_versions sc \<noteq> Some 0" using assms(2) by (simp add: bounded_scan_def)
  from low_scan [OF assms(1) this, of _ _ _ enc] assms(1,3,4) show ?thesis
    by (auto simp: SecScan split: sum.splits)
qed

lemma low_chain:
  assumes "low_equal (se_auths se) m1 m2" "list_all bounded_scan cs"
    and "call_chain pr sk se cs tr m1 rs1 tr1 m1'" "call_chain pr sk se cs tr m2 rs2 tr2 m2'"
  shows "rs1 = rs2 \<and> tr1 = tr2 \<and> low_equal (se_auths se) m1' m2'"
  using assms
proof (induction cs arbitrary: tr m1 m2 rs1 rs2)
  case (Cons c cs)
  obtain r q n1 s where a: "rs1 = r # s" "checked_call pr sk se c tr m1 r q n1" "call_chain pr sk se cs q n1 s tr1 m1'"
    using Cons.prems(3) by auto
  obtain r' q' n2 s' where b: "rs2 = r' # s'" "checked_call pr sk se c tr m2 r' q' n2" "call_chain pr sk se cs q' n2 s' tr2 m2'"
    using Cons.prems(4) by auto
  have "r = r' \<and> q = q' \<and> low_equal (se_auths se) n1 n2"
    using a(2) b(2) low_call [OF Cons.prems(1), of c pr "sk_encryption sk" r n1 r' n2] Cons.prems(1,2)
    by (auto simp: checked_call_def split: prod.splits sum.splits)
  with Cons.IH [of n1 n2 q s s'] a b Cons.prems(2) show ?case by simp
qed simp

section \<open>Properties\<close>

lemma chain_secure:
  assumes "call_chain pr sk se cs tr m rs tr' m'" "secure_cells m"
  shows "secure_cells m'"
  using assms
proof (induction cs arbitrary: tr m rs)
  case (Cons c cs)
  have upd: "secure_cells (m(key := x))"
    if "canonicalize_cell vc = Inr vc'" "cell_encode vc' = Inr key" for vc vc' key x
    using that secure_cells_upd [OF Cons.prems(2), of vc x] cell_encode_bytes by (auto simp: canonicalize_eq)
  have "secure_cells m1" if "checked_call pr sk se c tr m r tr1 m1" for r tr1 m1
    using that upd Cons.prems(2)
    by (cases c) (auto simp: checked_call_def result_elims split: prod.splits sum.splits)
  with Cons show ?case by auto
qed simp

lemma canonical_writes_other: "canonical_writes h ws \<Longrightarrow> h' \<noteq> h \<Longrightarrow> fold view_write ws v h' = v h'"
  by (induction ws arbitrary: v) (auto simp: canonical_writes_def view_write_def)


text \<open>A transaction that writes a cell and reads it.\<close>

definition sample_tx_keyspace :: secure_tx_keyspace where
  "sample_tx_keyspace = \<lparr>tk_inner = 1, tk_name = [101], tk_encryption = sk_encryption sample_secure\<rparr>"

definition sample_tx_calls :: "secure_call list" where
  "sample_tx_calls = [SecInsert (cell_version sample_cell 3) [7], SecGet (cell_version sample_cell 3)]"

lemma sample_as_secure: "as_secure (sk_security sample_secure) sample_tx_keyspace = sample_secure"
  by (simp add: as_secure_def sample_tx_keyspace_def sample_secure_def)

lemma sample_secure_check:
  "p \<in> {PermRead, PermWrite} \<Longrightarrow>
    secure_check sample_secure (sample_session auths) p tr = (Inr (), tr @ [KeyspaceAccess 1 [101]])"
  by (simp add: secure_check_eq check_event_def offered_def sample_granted)
    (auto simp: sample_secure_def sample_session_def)

lemma sample_chain:
  assumes "call_chain pr sample_secure (sample_session {[120]}) sample_tx_calls tr m rs tr' m'"
  shows "rs = [Inr SecDone, Inr (SecFound (Some [7]))]"
proof -
  let ?k = "cell_bytes (cell_version sample_cell 3)"
  obtain stored where st: "maybe_encrypt_value (sk_encryption sample_secure) ?k [7] = Inr stored"
    by (simp add: maybe_encrypt_value_def encrypt_value_def sample_secure_def value_encryption_new_def
        encryption_config_new_def xor_provider_def)
  have can: "canonicalize_cell (cell_version sample_cell 3) = Inr (cell_version sample_cell 3)"
    using sample_cell_vis(1) by (simp add: canonical_cell_def)
  have vis: "is_visible (c_visibility (vc_cell (cell_version sample_cell 3))) {[120]} = Inr True"
    using canonical_visible [OF sample_cell_vis(1)] sample_cell_vis(2) by simp
  show ?thesis
    using assms st can vis maybe_decrypt_encrypt [OF sample_cipher st]
    by (auto simp: sample_tx_calls_def checked_call_def sample_secure_check sample_encode)
      (simp_all add: sample_session_def)
qed




end
