(* ===== verification/KeyspaceOptions.thy ===== *)
theory KeyspaceOptions
  imports JournalEntry
begin

text \<open>
  \<open>src/keyspace/options.rs\<close> and \<open>src/keyspace/config\<close>: the options of a keyspace and their
  encoding as key-value pairs of the meta keyspace, from which a reopened database rebuilds them.

  An \<open>f32\<close> is its 32 bits.  A policy of \<open>lsm_tree\<close> is the list of its entries, one per level.
  Compaction strategies are trait objects of \<open>lsm_tree\<close>: \<open>compaction_env\<close> has the methods and
  constructors the code calls, \<open>compaction_env_ok\<close> what it relies on.
\<close>

section \<open>Policies\<close>

text \<open>All policy codecs write the number of entries in one byte, then the entries.\<close>

definition policy_encode :: "('a \<Rightarrow> bytes) \<Rightarrow> 'a list \<Rightarrow> bytes" where
  "policy_encode enc xs = of_nat (length xs) # concat (map enc xs)"

fun read_entries :: "(bytes \<Rightarrow> ('a \<times> bytes) result) \<Rightarrow> nat \<Rightarrow> bytes \<Rightarrow> 'a list result" where
  "read_entries dec 0 bs = Inr []"
| "read_entries dec (Suc n) bs = bind_r (dec bs) (\<lambda>(x, r). map_r (Cons x) (read_entries dec n r))"

definition policy_decode :: "(bytes \<Rightarrow> ('a \<times> bytes) result) \<Rightarrow> bytes \<Rightarrow> 'a list result" where
  "policy_decode dec bs = bind_r (read_u8 bs) (\<lambda>(len, r). read_entries dec (unat len) r)"

definition block_size_encode :: "u32 list \<Rightarrow> bytes" where
  "block_size_encode p = policy_encode u32_to_le p"

definition block_size_decode :: "bytes \<Rightarrow> u32 list result" where
  "block_size_decode bs = policy_decode read_u32_le bs"

definition hash_ratio_encode :: "u32 list \<Rightarrow> bytes" where
  "hash_ratio_encode p = policy_encode u32_to_le p"

definition hash_ratio_decode :: "bytes \<Rightarrow> u32 list result" where
  "hash_ratio_decode bs = policy_decode read_u32_le bs"

definition restart_interval_encode :: "byte list \<Rightarrow> bytes" where
  "restart_interval_encode p = policy_encode (\<lambda>b. [b]) p"

definition restart_interval_decode :: "bytes \<Rightarrow> byte list result" where
  "restart_interval_decode bs = policy_decode read_u8 bs"

definition pinning_encode :: "bool list \<Rightarrow> bytes" where
  "pinning_encode p = policy_encode (\<lambda>b. [of_bool b]) p"

text \<open>The pinning decoder unwraps its reads.\<close>

definition pinning_decode :: "bytes \<Rightarrow> bool list result" where
  "pinning_decode bs =
     map_err (\<lambda>_. Panic ''cannot fail'') (policy_decode (\<lambda>r. map_r (\<lambda>(b, r). (b = 1, r)) (read_u8 r)) bs)"

definition compression_policy_encode :: "journal_env \<Rightarrow> compression_type list \<Rightarrow> bytes" where
  "compression_policy_encode env p = policy_encode (comp_encode env) p"

definition compression_policy_decode :: "journal_env \<Rightarrow> bytes \<Rightarrow> compression_type list result" where
  "compression_policy_decode env bs = policy_decode (\<lambda>r. map_err Storage (comp_decode env r)) bs"

datatype bloom_policy = BitsPerKey u32 | FalsePositiveRate u32

datatype filter_entry = FilterNone | Bloom bloom_policy

fun filter_entry_encode :: "filter_entry \<Rightarrow> bytes" where
  "filter_entry_encode FilterNone = [0]"
| "filter_entry_encode (Bloom (BitsPerKey bits)) = [1, 0] @ u32_to_le bits"
| "filter_entry_encode (Bloom (FalsePositiveRate fpr)) = [1, 1] @ u32_to_le fpr"

definition filter_entry_decode :: "bytes \<Rightarrow> (filter_entry \<times> bytes) result" where
  "filter_entry_decode bs =
     bind_r (read_u8 bs) (\<lambda>(t, r).
       if t = 0 then Inr (FilterNone, r)
       else if t = 1 then
         bind_r (read_u8 r) (\<lambda>(policy_type, r).
           if policy_type = 0 then map_r (\<lambda>(bits, r). (Bloom (BitsPerKey bits), r)) (read_u32_le r)
           else if policy_type = 1 then map_r (\<lambda>(x, r). (Bloom (FalsePositiveRate x), r)) (read_u32_le r)
           else Inl (Panic ''unknown bloom filter policy type''))
       else Inl (Panic ''unknown filter policy tag''))"

definition filter_policy_encode :: "filter_entry list \<Rightarrow> bytes" where
  "filter_policy_encode p = policy_encode filter_entry_encode p"

definition filter_policy_decode :: "bytes \<Rightarrow> filter_entry list result" where
  "filter_policy_decode bs = policy_decode filter_entry_decode bs"

section \<open>Options\<close>

record blob_options =
  bo_age_cutoff :: u32
  bo_compression :: compression_type
  bo_file_target_size :: u64
  bo_separation_threshold :: u32
  bo_staleness_threshold :: u32

record 'c compaction_env =
  ce_get_name :: "'c \<Rightarrow> string"
  ce_get_config :: "'c \<Rightarrow> (string \<times> bytes) list"
  ce_leveled :: "byte \<Rightarrow> u64 \<Rightarrow> u32 list \<Rightarrow> 'c"
  ce_fifo :: "u64 \<Rightarrow> u64 option \<Rightarrow> 'c"
  ce_leveled_default :: 'c
  ce_leveled_name :: string
  ce_fifo_name :: string
  ce_level_count :: byte

record ('c, 'f) create_options =
  co_level_count :: byte
  co_max_memtable_size :: u64
  co_data_block_hash_ratio_policy :: "u32 list"
  co_data_block_size_policy :: "u32 list"
  co_data_block_restart_interval_policy :: "byte list"
  co_index_block_restart_interval_policy :: "byte list"
  co_index_block_pinning_policy :: "bool list"
  co_filter_block_pinning_policy :: "bool list"
  co_filter_block_partitioning_policy :: "bool list"
  co_index_block_partitioning_policy :: "bool list"
  co_expect_point_read_hits :: bool
  co_filter_policy :: "filter_entry list"
  co_data_block_compression_policy :: "compression_type list"
  co_index_block_compression_policy :: "compression_type list"
  co_manual_journal_persist :: bool
  co_compaction_strategy :: 'c
  co_kv_separation_opts :: "blob_options option"
  co_compaction_filter_factory :: "'f option"

text \<open>The default, as built with LZ4: ratios 0.0, 0.0001 and 10.0 as bits.\<close>

definition create_options_default :: "'c compaction_env \<Rightarrow> ('c, 'f) create_options" where
  "create_options_default ce = \<lparr>
     co_level_count = ce_level_count ce,
     co_max_memtable_size = 64 * 1024 * 1024,
     co_data_block_hash_ratio_policy = [0],
     co_data_block_size_policy = [4 * 1024],
     co_data_block_restart_interval_policy = [10, 16],
     co_index_block_restart_interval_policy = [1],
     co_index_block_pinning_policy = [True, True, False],
     co_filter_block_pinning_policy = [True, False],
     co_filter_block_partitioning_policy = [False, False, False, True],
     co_index_block_partitioning_policy = [False, False, False, True],
     co_expect_point_read_hits = False,
     co_filter_policy = [Bloom (FalsePositiveRate 0x38D1B717), Bloom (BitsPerKey 0x41200000)],
     co_data_block_compression_policy = [CompressionNone, CompressionNone, Lz4],
     co_index_block_compression_policy = [CompressionNone],
     co_manual_journal_persist = False,
     co_compaction_strategy = ce_leveled_default ce,
     co_kv_separation_opts = None,
     co_compaction_filter_factory = None\<rparr>"

definition with_compaction_filter_factory :: "'f \<Rightarrow> ('c, 'f) create_options \<Rightarrow> ('c, 'f) create_options" where
  "with_compaction_filter_factory factory o' = o'\<lparr>co_compaction_filter_factory := Some factory\<rparr>"

text \<open>The builder methods.\<close>

definition with_kv_separation :: "blob_options option \<Rightarrow> ('c, 'f) create_options \<Rightarrow> ('c, 'f) create_options" where
  "with_kv_separation x o' = o'\<lparr>co_kv_separation_opts := x\<rparr>"

definition data_block_restart_interval_policy :: "byte list \<Rightarrow> ('c, 'f) create_options \<Rightarrow> ('c, 'f) create_options" where
  "data_block_restart_interval_policy x o' = o'\<lparr>co_data_block_restart_interval_policy := x\<rparr>"

definition filter_block_pinning_policy :: "bool list \<Rightarrow> ('c, 'f) create_options \<Rightarrow> ('c, 'f) create_options" where
  "filter_block_pinning_policy x o' = o'\<lparr>co_filter_block_pinning_policy := x\<rparr>"

definition index_block_pinning_policy :: "bool list \<Rightarrow> ('c, 'f) create_options \<Rightarrow> ('c, 'f) create_options" where
  "index_block_pinning_policy x o' = o'\<lparr>co_index_block_pinning_policy := x\<rparr>"

definition filter_block_partitioning_policy :: "bool list \<Rightarrow> ('c, 'f) create_options \<Rightarrow> ('c, 'f) create_options" where
  "filter_block_partitioning_policy x o' = o'\<lparr>co_filter_block_partitioning_policy := x\<rparr>"

definition index_block_partitioning_policy :: "bool list \<Rightarrow> ('c, 'f) create_options \<Rightarrow> ('c, 'f) create_options" where
  "index_block_partitioning_policy x o' = o'\<lparr>co_index_block_partitioning_policy := x\<rparr>"

definition data_block_hash_ratio_policy :: "u32 list \<Rightarrow> ('c, 'f) create_options \<Rightarrow> ('c, 'f) create_options" where
  "data_block_hash_ratio_policy x o' = o'\<lparr>co_data_block_hash_ratio_policy := x\<rparr>"

definition filter_policy :: "filter_entry list \<Rightarrow> ('c, 'f) create_options \<Rightarrow> ('c, 'f) create_options" where
  "filter_policy x o' = o'\<lparr>co_filter_policy := x\<rparr>"

definition expect_point_read_hits :: "bool \<Rightarrow> ('c, 'f) create_options \<Rightarrow> ('c, 'f) create_options" where
  "expect_point_read_hits x o' = o'\<lparr>co_expect_point_read_hits := x\<rparr>"

definition data_block_compression_policy :: "compression_type list \<Rightarrow> ('c, 'f) create_options \<Rightarrow> ('c, 'f) create_options" where
  "data_block_compression_policy x o' = o'\<lparr>co_data_block_compression_policy := x\<rparr>"

definition index_block_compression_policy :: "compression_type list \<Rightarrow> ('c, 'f) create_options \<Rightarrow> ('c, 'f) create_options" where
  "index_block_compression_policy x o' = o'\<lparr>co_index_block_compression_policy := x\<rparr>"

definition compaction_strategy :: "'c \<Rightarrow> ('c, 'f) create_options \<Rightarrow> ('c, 'f) create_options" where
  "compaction_strategy x o' = o'\<lparr>co_compaction_strategy := x\<rparr>"

definition manual_journal_persist :: "bool \<Rightarrow> ('c, 'f) create_options \<Rightarrow> ('c, 'f) create_options" where
  "manual_journal_persist x o' = o'\<lparr>co_manual_journal_persist := x\<rparr>"

definition max_memtable_size :: "u64 \<Rightarrow> ('c, 'f) create_options \<Rightarrow> ('c, 'f) create_options" where
  "max_memtable_size x o' = o'\<lparr>co_max_memtable_size := x\<rparr>"

definition data_block_size_policy :: "u32 list \<Rightarrow> ('c, 'f) create_options \<Rightarrow> ('c, 'f) create_options" where
  "data_block_size_policy x o' = o'\<lparr>co_data_block_size_policy := x\<rparr>"

section \<open>Encoding\<close>

text \<open>The bytes of an ASCII string.\<close>

definition ascii :: "string \<Rightarrow> bytes" where
  "ascii s = map of_char s"

definition encode_config_key :: "u64 \<Rightarrow> bytes \<Rightarrow> bytes" where
  "encode_config_key keyspace_id name = [0x63] @ u64_to_be keyspace_id @ name"

abbreviation config_key :: "u64 \<Rightarrow> string \<Rightarrow> bytes" where
  "config_key keyspace_id name \<equiv> encode_config_key keyspace_id (ascii name)"

definition encode_kvs ::
    "journal_env \<Rightarrow> 'c compaction_env \<Rightarrow> u64 \<Rightarrow> ('c, 'f) create_options \<Rightarrow> (bytes \<times> bytes) list result" where
  "encode_kvs env ce ks o' =
     (let base =
        [(config_key ks ''compaction_strategy'', ascii (ce_get_name ce (co_compaction_strategy o'))),
         (config_key ks ''data_block_compression_policy'', compression_policy_encode env (co_data_block_compression_policy o')),
         (config_key ks ''data_block_hash_ratio_policy'', hash_ratio_encode (co_data_block_hash_ratio_policy o')),
         (config_key ks ''data_block_restart_interval_policy'', restart_interval_encode (co_data_block_restart_interval_policy o')),
         (config_key ks ''data_block_size_policy'', block_size_encode (co_data_block_size_policy o')),
         (config_key ks ''expect_point_read_hits'', if co_expect_point_read_hits o' then [1] else [0]),
         (config_key ks ''filter_block_partitioning_policy'', pinning_encode (co_filter_block_partitioning_policy o')),
         (config_key ks ''filter_block_pinning_policy'', pinning_encode (co_filter_block_pinning_policy o')),
         (config_key ks ''filter_policy'', filter_policy_encode (co_filter_policy o')),
         (config_key ks ''index_block_compression_policy'', compression_policy_encode env (co_index_block_compression_policy o')),
         (config_key ks ''index_block_partitioning_policy'', pinning_encode (co_index_block_partitioning_policy o')),
         (config_key ks ''index_block_pinning_policy'', pinning_encode (co_index_block_pinning_policy o')),
         (config_key ks ''index_block_restart_interval_policy'', restart_interval_encode (co_index_block_restart_interval_policy o')),
         (config_key ks ''level_count'', [co_level_count o']),
         (config_key ks ''manual_journal_persist'', [of_bool (co_manual_journal_persist o')]),
         (config_key ks ''max_memtable_size'', u64_to_le (co_max_memtable_size o')),
         (config_key ks ''version'', [3])]
      in if ce_get_name ce (co_compaction_strategy o') \<in> {''LeveledCompaction'', ''FifoCompaction''}
         then Inr (base @ map (\<lambda>(k, v). (config_key ks k, v)) (ce_get_config ce (co_compaction_strategy o')) @
           (case co_kv_separation_opts o' of
              None \<Rightarrow> []
            | Some b \<Rightarrow>
                [(config_key ks ''blob'', [1]),
                 (config_key ks ''blob_age_cutoff'', u32_to_le (bo_age_cutoff b)),
                 (config_key ks ''blob_compression'', comp_encode env (bo_compression b)),
                 (config_key ks ''blob_file_target_size'', u64_to_le (bo_file_target_size b)),
                 (config_key ks ''blob_separation_threshold'', u32_to_le (bo_separation_threshold b)),
                 (config_key ks ''blob_staleness_threshold'', u32_to_le (bo_staleness_threshold b))]))
         else Inl (Panic ''Invalid/unsupported compaction strategy''))"

section \<open>Decoding\<close>

text \<open>\<open>get\<close> is \<open>get_kv_for_config\<close> of the keyspace; a required entry is unwrapped.\<close>

definition required :: "(string \<Rightarrow> bytes option result) \<Rightarrow> string \<Rightarrow> string \<Rightarrow> bytes result" where
  "required get name msg = bind_r (get name) (ok_or (Panic msg))"

definition read_blob_options ::
    "journal_env \<Rightarrow> (string \<Rightarrow> bytes option result) \<Rightarrow> blob_options result" where
  "read_blob_options env get =
     bind_r (required get ''blob_age_cutoff'' ''blob_age_cutoff should be defined'') (\<lambda>bs.
     bind_r (read_u32_le bs) (\<lambda>(age_cutoff, _).
     bind_r (required get ''blob_compression'' ''blob_compression should be defined'') (\<lambda>bs.
     bind_r (map_err Storage (comp_decode env bs)) (\<lambda>(compression, _).
     bind_r (required get ''blob_file_target_size'' ''blob_file_target_size should be defined'') (\<lambda>bs.
     bind_r (read_u64_le bs) (\<lambda>(file_target_size, _).
     bind_r (required get ''blob_separation_threshold'' ''blob_separation_threshold should be defined'') (\<lambda>bs.
     bind_r (read_u32_le bs) (\<lambda>(separation_threshold, _).
     bind_r (required get ''blob_staleness_threshold'' ''blob_staleness_threshold should be defined'') (\<lambda>bs.
     bind_r (read_u32_le bs) (\<lambda>(staleness_threshold, _).
       Inr \<lparr>bo_age_cutoff = age_cutoff, bo_compression = compression, bo_file_target_size = file_target_size,
         bo_separation_threshold = separation_threshold, bo_staleness_threshold = staleness_threshold\<rparr>))))))))))"

definition read_compaction_strategy ::
    "'c compaction_env \<Rightarrow> (string \<Rightarrow> bytes option result) \<Rightarrow> 'c result" where
  "read_compaction_strategy ce get =
     bind_r (required get ''compaction_strategy'' ''compaction_strategy should be defined'') (\<lambda>name.
     bind_r (ok_or (Panic ''compaction_strategy should be UTF-8'') (utf8_decode name)) (\<lambda>_.
       if name = ascii (ce_leveled_name ce) then
         bind_r (required get ''leveled_l0_threshold'' ''leveled_l0_threshold should be defined'') (\<lambda>bs.
         bind_r (read_u8 bs) (\<lambda>(l0_threshold, _).
         bind_r (required get ''leveled_target_size'' ''leveled_target_size should be defined'') (\<lambda>bs.
         bind_r (read_u64_le bs) (\<lambda>(target_size, _).
         bind_r (required get ''leveled_level_ratio_policy'' ''leveled_level_ratio_policy should be defined'') (\<lambda>bs.
         bind_r (policy_decode read_u32_le bs) (\<lambda>ratios. Inr (ce_leveled ce l0_threshold target_size ratios)))))))
       else if name = ascii (ce_fifo_name ce) then
         bind_r (required get ''fifo_limit'' ''fifo_limit should be defined'') (\<lambda>bs.
         bind_r (read_u64_le bs) (\<lambda>(fifo_limit, _).
         bind_r (required get ''fifo_ttl'' ''fifo_ttl should be defined'') (\<lambda>has_ttl.
           if has_ttl = [1] then
             bind_r (required get ''fifo_ttl_seconds'' ''fifo_ttl_seconds should be defined'') (\<lambda>bs.
             bind_r (read_u64_le bs) (\<lambda>(seconds, _). Inr (ce_fifo ce fifo_limit (Some seconds))))
           else Inr (ce_fifo ce fifo_limit None))))
       else Inl (Panic ''Invalid/unsupported compaction strategy'')))"

text \<open>An error of the blob options is only returned at the end; a panic stops at once.\<close>

definition from_kvs ::
    "journal_env \<Rightarrow> 'c compaction_env \<Rightarrow> (string \<Rightarrow> bytes option result) \<Rightarrow> ('c, 'f) create_options result" where
  "from_kvs env ce get =
     bind_r (get ''blob'') (\<lambda>blob.
     bind_r (bind_r (required get ''data_block_compression_policy'' ''should exist'') (compression_policy_decode env)) (\<lambda>data_compression.
     bind_r (bind_r (required get ''index_block_compression_policy'' ''should exist'') (compression_policy_decode env)) (\<lambda>index_compression.
     bind_r (bind_r (required get ''data_block_size_policy'' ''should exist'') block_size_decode) (\<lambda>block_size.
     bind_r (bind_r (required get ''filter_block_partitioning_policy'' ''should exist'') pinning_decode) (\<lambda>filter_partitioning.
     bind_r (bind_r (required get ''index_block_partitioning_policy'' ''should exist'') pinning_decode) (\<lambda>index_partitioning.
     bind_r (bind_r (required get ''filter_block_pinning_policy'' ''should exist'') pinning_decode) (\<lambda>filter_pinning.
     bind_r (bind_r (required get ''index_block_pinning_policy'' ''should exist'') pinning_decode) (\<lambda>index_pinning.
     bind_r (bind_r (required get ''data_block_restart_interval_policy'' ''should exist'') restart_interval_decode) (\<lambda>data_restart.
     bind_r (bind_r (required get ''index_block_restart_interval_policy'' ''should exist'') restart_interval_decode) (\<lambda>index_restart.
     bind_r (bind_r (required get ''data_block_hash_ratio_policy'' ''should exist'') hash_ratio_decode) (\<lambda>hash_ratio.
     bind_r (required get ''expect_point_read_hits'' ''should exist'') (\<lambda>hits.
     bind_r (bind_r (required get ''filter_policy'' ''should exist'') filter_policy_decode) (\<lambda>filter_policy.
       let blob_opts = map_option (\<lambda>_. read_blob_options env get) blob in
       case blob_opts of
         Some (Inl (Panic msg)) \<Rightarrow> Inl (Panic msg)
       | _ \<Rightarrow>
     bind_r (read_compaction_strategy ce get) (\<lambda>strategy.
     bind_r (required get ''manual_journal_persist'' ''should exist'') (\<lambda>manual.
     bind_r (bind_r (required get ''max_memtable_size'' ''should exist'') read_u64_le) (\<lambda>(memtable_size, _).
     bind_r (case blob_opts of None \<Rightarrow> Inr None | Some r \<Rightarrow> map_r Some r) (\<lambda>kv_separation.
       Inr \<lparr>co_level_count = 7, co_max_memtable_size = memtable_size, co_data_block_hash_ratio_policy = hash_ratio,
         co_data_block_size_policy = block_size, co_data_block_restart_interval_policy = data_restart,
         co_index_block_restart_interval_policy = index_restart, co_index_block_pinning_policy = index_pinning,
         co_filter_block_pinning_policy = filter_pinning, co_filter_block_partitioning_policy = filter_partitioning,
         co_index_block_partitioning_policy = index_partitioning, co_expect_point_read_hits = (hits = [1]),
         co_filter_policy = filter_policy, co_data_block_compression_policy = data_compression,
         co_index_block_compression_policy = index_compression, co_manual_journal_persist = (manual = [1]),
         co_compaction_strategy = strategy, co_kv_separation_opts = kv_separation,
         co_compaction_filter_factory = None\<rparr>)))))))))))))))))"

section \<open>Round trips of the policies\<close>

lemma read_entries_append:
  assumes "\<And>x r. dec (enc x @ r) = Inr (x, r)"
  shows "read_entries dec (length xs) (concat (map enc xs) @ r) = Inr xs"
  by (induction xs) (simp_all add: assms)

lemma policy_roundtrip:
  assumes "\<And>x r. dec (enc x @ r) = Inr (x, r)" "length xs < 256"
  shows "policy_decode dec (policy_encode enc xs) = Inr xs"
  using read_entries_append [of dec enc xs "[]"] assms
  by (simp add: policy_decode_def policy_encode_def unat_of_nat)

lemma policies_roundtrip [codec_simps]:
  "length p < 256 \<Longrightarrow> block_size_decode (block_size_encode p) = Inr p"
  "length p < 256 \<Longrightarrow> hash_ratio_decode (hash_ratio_encode p) = Inr p"
  "length q < 256 \<Longrightarrow> restart_interval_decode (restart_interval_encode q) = Inr q"
  "length b < 256 \<Longrightarrow> pinning_decode (pinning_encode b) = Inr b"
  "length f < 256 \<Longrightarrow> filter_policy_decode (filter_policy_encode f) = Inr f"
  "length p < 256 \<Longrightarrow> policy_decode read_u32_le (policy_encode u32_to_le p) = Inr p"
  unfolding block_size_decode_def block_size_encode_def hash_ratio_decode_def hash_ratio_encode_def
    restart_interval_decode_def restart_interval_encode_def pinning_decode_def pinning_encode_def
    filter_policy_decode_def filter_policy_encode_def map_err_eq_Inr
proof -
  have "filter_entry_decode (filter_entry_encode x @ r) = Inr (x, r)" for x r
    by (cases x rule: filter_entry_encode.cases) (simp_all add: filter_entry_decode_def)
  then show "length f < 256 \<Longrightarrow> policy_decode filter_entry_decode (policy_encode filter_entry_encode f) = Inr f"
    by (rule policy_roundtrip)
qed (rule policy_roundtrip; simp)+

lemma compression_policy_roundtrip [codec_simps]:
  "journal_env_ok env \<Longrightarrow> length p < 256 \<Longrightarrow>
    compression_policy_decode env (compression_policy_encode env p) = Inr p"
  unfolding compression_policy_decode_def compression_policy_encode_def
  by (rule policy_roundtrip) (simp_all add: journal_env_ok_def)

section \<open>Round trip of the options\<close>

definition compaction_env_ok :: "'c compaction_env \<Rightarrow> bool" where
  "compaction_env_ok ce \<longleftrightarrow>
     ce_leveled_name ce = ''LeveledCompaction'' \<and> ce_fifo_name ce = ''FifoCompaction'' \<and>
     (\<forall>c. ce_get_name ce c = ''LeveledCompaction'' \<longrightarrow>
        (\<exists>l0 target ratios. length ratios < 256 \<and> c = ce_leveled ce l0 target ratios \<and>
           ce_get_config ce c = [(''leveled_l0_threshold'', [l0]), (''leveled_target_size'', u64_to_le target),
             (''leveled_level_ratio_policy'', policy_encode u32_to_le ratios)])) \<and>
     (\<forall>c. ce_get_name ce c = ''FifoCompaction'' \<longrightarrow>
        (\<exists>limit ttl. c = ce_fifo ce limit ttl \<and>
           ce_get_config ce c = [(''fifo_limit'', u64_to_le limit), (''fifo_ttl'', [of_bool (ttl \<noteq> None)])] @
             (case ttl of None \<Rightarrow> [] | Some s \<Rightarrow> [(''fifo_ttl_seconds'', u64_to_le s)])))"

definition options_fit :: "('c, 'f) create_options \<Rightarrow> bool" where
  "options_fit o' \<longleftrightarrow>
     length (co_data_block_hash_ratio_policy o') < 256 \<and> length (co_data_block_size_policy o') < 256 \<and>
     length (co_data_block_restart_interval_policy o') < 256 \<and> length (co_index_block_restart_interval_policy o') < 256 \<and>
     length (co_index_block_pinning_policy o') < 256 \<and> length (co_filter_block_pinning_policy o') < 256 \<and>
     length (co_filter_block_partitioning_policy o') < 256 \<and> length (co_index_block_partitioning_policy o') < 256 \<and>
     length (co_filter_policy o') < 256 \<and> length (co_data_block_compression_policy o') < 256 \<and>
     length (co_index_block_compression_policy o') < 256"

text \<open>Reading the configuration of a keyspace from the contents of the meta keyspace.\<close>

definition config_of :: "(bytes \<Rightarrow> bytes option) \<Rightarrow> u64 \<Rightarrow> string \<Rightarrow> bytes option result" where
  "config_of m ks name = Inr (m (config_key ks name))"

lemma of_char_inject: "of_char c = (of_char d :: byte) \<longleftrightarrow> c = d"
proof
  have un: "unat (of_nat (of_char x) :: byte) = of_char x" for x :: char
    using nat_of_char_less_256 [of x] by (simp only: unat_of_nat) simp
  assume "of_char c = (of_char d :: byte)"
  then have "unat (of_nat (of_char c) :: byte) = unat (of_nat (of_char d) :: byte)" by (simp only: of_nat_of_char)
  then show "c = d" unfolding un by (rule of_char_eqI)
qed simp

lemma ascii_inject [simp]: "ascii a = ascii b \<longleftrightarrow> a = b"
  unfolding ascii_def by (rule inj_eq) (simp add: inj_def of_char_inject)

lemma config_key_inject [simp]: "encode_config_key a x = encode_config_key b y \<longleftrightarrow> a = b \<and> x = y"
  by (auto simp: encode_config_key_def)

lemma ascii_utf8: "list_all (\<lambda>c. (of_char c :: nat) < 128) s \<Longrightarrow> utf8_decode (ascii s) \<noteq> None"
proof (induction s)
  case (Cons c s)
  then have "(of_char c :: byte) < 0x80"
    by (simp only: of_nat_of_char [symmetric, where ?'a = byte]) (simp add: word_less_nat_alt unat_of_nat)
  with Cons show ?case by (auto simp: ascii_def)
qed (simp add: ascii_def)

lemma read_words_all:
  "read_u32_le (u32_to_le w) = Inr (w, [])" "read_u64_le (u64_to_le l) = Inr (l, [])"
  using read_append(4) [of w "[]"] read_append(5) [of l "[]"] by simp_all

lemma comp_decode_all: "journal_env_ok env \<Longrightarrow> comp_decode env (comp_encode env c) = Inr (c, [])"
  unfolding journal_env_ok_def by (metis append_Nil2)

text \<open>What the entries of the strategy and of the blob options add to the meta keyspace.\<close>

lemma strategy_roundtrip:
  assumes "compaction_env_ok ce" "ce_get_name ce c \<in> {''LeveledCompaction'', ''FifoCompaction''}"
    and "get ''compaction_strategy'' = Inr (Some (ascii (ce_get_name ce c)))"
    and "\<And>k v. map_of (ce_get_config ce c) k = Some v \<Longrightarrow> get k = Inr (Some v)"
  shows "read_compaction_strategy ce get = Inr c"
proof (cases "ce_get_name ce c = ''LeveledCompaction''")
  case True
  then obtain l0 target ratios where c: "length ratios < 256" "c = ce_leveled ce l0 target ratios"
      "ce_get_config ce c = [(''leveled_l0_threshold'', [l0]), (''leveled_target_size'', u64_to_le target),
        (''leveled_level_ratio_policy'', policy_encode u32_to_le ratios)]"
    using assms(1) unfolding compaction_env_ok_def by blast
  have "utf8_decode (ascii ''LeveledCompaction'') \<noteq> None" by (rule ascii_utf8) simp
  moreover have "get ''leveled_l0_threshold'' = Inr (Some [l0])" "get ''leveled_target_size'' = Inr (Some (u64_to_le target))"
    "get ''leveled_level_ratio_policy'' = Inr (Some (policy_encode u32_to_le ratios))"
    by (rule assms(4), simp add: c(3))+
  moreover have "ce_leveled_name ce = ''LeveledCompaction''" using assms(1) by (simp add: compaction_env_ok_def)
  ultimately show ?thesis
    using assms(3) c(1,2) True
    by (auto simp: read_compaction_strategy_def required_def read_words_all policies_roundtrip)
next
  case False
  then have name: "ce_get_name ce c = ''FifoCompaction''" using assms(2) by simp
  then obtain limit ttl where c: "c = ce_fifo ce limit ttl"
      "ce_get_config ce c = [(''fifo_limit'', u64_to_le limit), (''fifo_ttl'', [of_bool (ttl \<noteq> None)])] @
        (case ttl of None \<Rightarrow> [] | Some s \<Rightarrow> [(''fifo_ttl_seconds'', u64_to_le s)])"
    using assms(1) unfolding compaction_env_ok_def by blast
  have "utf8_decode (ascii ''FifoCompaction'') \<noteq> None" by (rule ascii_utf8) simp
  moreover have "get ''fifo_limit'' = Inr (Some (u64_to_le limit))" "get ''fifo_ttl'' = Inr (Some [of_bool (ttl \<noteq> None)])"
    by (rule assms(4), simp add: c(2))+
  moreover have "get ''fifo_ttl_seconds'' = Inr (Some (u64_to_le s))" if "ttl = Some s" for s
    by (rule assms(4)) (simp add: c(2) that)
  moreover have "ce_leveled_name ce = ''LeveledCompaction''" "ce_fifo_name ce = ''FifoCompaction''"
    using assms(1) by (simp_all add: compaction_env_ok_def)
  ultimately show ?thesis
    using assms(3) c(1) name
    by (cases ttl) (auto simp: read_compaction_strategy_def required_def read_words_all)
qed

lemma blob_roundtrip:
  assumes "journal_env_ok env"
    and "get ''blob_age_cutoff'' = Inr (Some (u32_to_le (bo_age_cutoff b)))"
    and "get ''blob_compression'' = Inr (Some (comp_encode env (bo_compression b)))"
    and "get ''blob_file_target_size'' = Inr (Some (u64_to_le (bo_file_target_size b)))"
    and "get ''blob_separation_threshold'' = Inr (Some (u32_to_le (bo_separation_threshold b)))"
    and "get ''blob_staleness_threshold'' = Inr (Some (u32_to_le (bo_staleness_threshold b)))"
  shows "read_blob_options env get = Inr b"
  using assms by (simp add: read_blob_options_def required_def read_words_all comp_decode_all)

text \<open>The entries by name.\<close>

definition policy_entries :: "journal_env \<Rightarrow> 'c compaction_env \<Rightarrow> ('c, 'f) create_options \<Rightarrow> (string \<times> bytes) list" where
  "policy_entries env ce o' =
     [(''compaction_strategy'', ascii (ce_get_name ce (co_compaction_strategy o'))),
      (''data_block_compression_policy'', compression_policy_encode env (co_data_block_compression_policy o')),
      (''data_block_hash_ratio_policy'', hash_ratio_encode (co_data_block_hash_ratio_policy o')),
      (''data_block_restart_interval_policy'', restart_interval_encode (co_data_block_restart_interval_policy o')),
      (''data_block_size_policy'', block_size_encode (co_data_block_size_policy o')),
      (''expect_point_read_hits'', if co_expect_point_read_hits o' then [1] else [0]),
      (''filter_block_partitioning_policy'', pinning_encode (co_filter_block_partitioning_policy o')),
      (''filter_block_pinning_policy'', pinning_encode (co_filter_block_pinning_policy o')),
      (''filter_policy'', filter_policy_encode (co_filter_policy o')),
      (''index_block_compression_policy'', compression_policy_encode env (co_index_block_compression_policy o')),
      (''index_block_partitioning_policy'', pinning_encode (co_index_block_partitioning_policy o')),
      (''index_block_pinning_policy'', pinning_encode (co_index_block_pinning_policy o')),
      (''index_block_restart_interval_policy'', restart_interval_encode (co_index_block_restart_interval_policy o')),
      (''level_count'', [co_level_count o']),
      (''manual_journal_persist'', [of_bool (co_manual_journal_persist o')]),
      (''max_memtable_size'', u64_to_le (co_max_memtable_size o')),
      (''version'', [3])]"

definition blob_entries :: "journal_env \<Rightarrow> blob_options option \<Rightarrow> (string \<times> bytes) list" where
  "blob_entries env opts =
     (case opts of
        None \<Rightarrow> []
      | Some b \<Rightarrow>
          [(''blob'', [1]), (''blob_age_cutoff'', u32_to_le (bo_age_cutoff b)),
           (''blob_compression'', comp_encode env (bo_compression b)),
           (''blob_file_target_size'', u64_to_le (bo_file_target_size b)),
           (''blob_separation_threshold'', u32_to_le (bo_separation_threshold b)),
           (''blob_staleness_threshold'', u32_to_le (bo_staleness_threshold b))])"

definition option_entries :: "journal_env \<Rightarrow> 'c compaction_env \<Rightarrow> ('c, 'f) create_options \<Rightarrow> (string \<times> bytes) list" where
  "option_entries env ce o' =
     policy_entries env ce o' @ ce_get_config ce (co_compaction_strategy o') @ blob_entries env (co_kv_separation_opts o')"

lemma encode_kvs_named:
  assumes "encode_kvs env ce ks o' = Inr kvs"
  shows "kvs = map (\<lambda>(n, v). (config_key ks n, v)) (option_entries env ce o')"
    and "ce_get_name ce (co_compaction_strategy o') \<in> {''LeveledCompaction'', ''FifoCompaction''}"
  using assms
  by (auto simp: encode_kvs_def option_entries_def policy_entries_def blob_entries_def Let_def split: if_splits option.splits)

lemma map_of_config:
  "map_of (map (\<lambda>(n, v). (config_key ks n, v)) es) (config_key ks' n) = (if ks' = ks then map_of es n else None)"
  by (induction es) auto

definition strategy_names :: "string set" where
  "strategy_names = {''leveled_l0_threshold'', ''leveled_target_size'', ''leveled_level_ratio_policy'', ''fifo_limit'', ''fifo_ttl'',
     ''fifo_ttl_seconds''}"

lemma strategy_config_names:
  assumes "compaction_env_ok ce" "ce_get_name ce c \<in> {''LeveledCompaction'', ''FifoCompaction''}"
  shows "fst ` set (ce_get_config ce c) \<subseteq> strategy_names"
proof (cases "ce_get_name ce c = ''LeveledCompaction''")
  case True
  with assms(1) obtain l0 target ratios where "ce_get_config ce c = [(''leveled_l0_threshold'', [l0]),
      (''leveled_target_size'', u64_to_le target), (''leveled_level_ratio_policy'', policy_encode u32_to_le ratios)]"
    unfolding compaction_env_ok_def by blast
  then show ?thesis by (simp add: strategy_names_def)
next
  case False
  then have "ce_get_name ce c = ''FifoCompaction''" using assms(2) by simp
  with assms(1) obtain limit ttl where "ce_get_config ce c = [(''fifo_limit'', u64_to_le limit),
      (''fifo_ttl'', [of_bool (ttl \<noteq> None)])] @ (case ttl of None \<Rightarrow> [] | Some s \<Rightarrow> [(''fifo_ttl_seconds'', u64_to_le s)])"
    unfolding compaction_env_ok_def by blast
  then show ?thesis by (cases ttl) (simp_all add: strategy_names_def)
qed

lemma policy_entries_names: "fst ` set (policy_entries env ce o') \<inter> strategy_names = {}"
  by (simp add: policy_entries_def strategy_names_def)

lemma option_entries_lookup:
  assumes "compaction_env_ok ce" "ce_get_name ce (co_compaction_strategy o') \<in> {''LeveledCompaction'', ''FifoCompaction''}"
  shows "n \<notin> strategy_names \<Longrightarrow> map_of (option_entries env ce o') n =
      (case map_of (policy_entries env ce o') n of None \<Rightarrow> map_of (blob_entries env (co_kv_separation_opts o')) n | Some v \<Rightarrow> Some v)"
    and "map_of (ce_get_config ce (co_compaction_strategy o')) n = Some v \<Longrightarrow> map_of (option_entries env ce o') n = Some v"
proof -
  let ?c = "map_of (ce_get_config ce (co_compaction_strategy o'))"
  note names = strategy_config_names [OF assms]
  show "map_of (option_entries env ce o') n =
      (case map_of (policy_entries env ce o') n of None \<Rightarrow> map_of (blob_entries env (co_kv_separation_opts o')) n | Some v \<Rightarrow> Some v)"
    if "n \<notin> strategy_names"
  proof -
    have "?c n = None" using names that unfolding map_of_eq_None_iff by blast
    then show ?thesis by (simp add: option_entries_def map_add_def split: option.split)
  qed
  assume v: "?c n = Some v"
  have "n \<in> strategy_names" by (rule subsetD [OF names]) (use map_of_SomeD [OF v] in force)
  then have "map_of (policy_entries env ce o') n = None"
    using policy_entries_names [of env ce o'] unfolding map_of_eq_None_iff by blast
  with v show "map_of (option_entries env ce o') n = Some v" by (simp add: option_entries_def map_add_def)
qed

lemma policy_lookups:
  assumes "compaction_env_ok ce" "ce_get_name ce (co_compaction_strategy o') \<in> {''LeveledCompaction'', ''FifoCompaction''}"
  shows
    "map_of (option_entries env ce o') ''compaction_strategy'' = Some (ascii (ce_get_name ce (co_compaction_strategy o')))"
    "map_of (option_entries env ce o') ''data_block_compression_policy'' = Some (compression_policy_encode env (co_data_block_compression_policy o'))"
    "map_of (option_entries env ce o') ''data_block_hash_ratio_policy'' = Some (hash_ratio_encode (co_data_block_hash_ratio_policy o'))"
    "map_of (option_entries env ce o') ''data_block_restart_interval_policy'' = Some (restart_interval_encode (co_data_block_restart_interval_policy o'))"
    "map_of (option_entries env ce o') ''data_block_size_policy'' = Some (block_size_encode (co_data_block_size_policy o'))"
    "map_of (option_entries env ce o') ''expect_point_read_hits'' = Some (if co_expect_point_read_hits o' then [1] else [0])"
    "map_of (option_entries env ce o') ''filter_block_partitioning_policy'' = Some (pinning_encode (co_filter_block_partitioning_policy o'))"
    "map_of (option_entries env ce o') ''filter_block_pinning_policy'' = Some (pinning_encode (co_filter_block_pinning_policy o'))"
    "map_of (option_entries env ce o') ''filter_policy'' = Some (filter_policy_encode (co_filter_policy o'))"
    "map_of (option_entries env ce o') ''index_block_compression_policy'' = Some (compression_policy_encode env (co_index_block_compression_policy o'))"
    "map_of (option_entries env ce o') ''index_block_partitioning_policy'' = Some (pinning_encode (co_index_block_partitioning_policy o'))"
    "map_of (option_entries env ce o') ''index_block_pinning_policy'' = Some (pinning_encode (co_index_block_pinning_policy o'))"
    "map_of (option_entries env ce o') ''index_block_restart_interval_policy'' = Some (restart_interval_encode (co_index_block_restart_interval_policy o'))"
    "map_of (option_entries env ce o') ''manual_journal_persist'' = Some [of_bool (co_manual_journal_persist o')]"
    "map_of (option_entries env ce o') ''max_memtable_size'' = Some (u64_to_le (co_max_memtable_size o'))"
  by (simp_all add: option_entries_lookup(1) [OF assms] strategy_names_def policy_entries_def)

lemma blob_lookups:
  assumes "compaction_env_ok ce" "ce_get_name ce (co_compaction_strategy o') \<in> {''LeveledCompaction'', ''FifoCompaction''}"
    and "n \<in> {''blob'', ''blob_age_cutoff'', ''blob_compression'', ''blob_file_target_size'', ''blob_separation_threshold'',
      ''blob_staleness_threshold''}"
  shows "map_of (option_entries env ce o') n = map_of (blob_entries env (co_kv_separation_opts o')) n"
proof -
  have "n \<notin> strategy_names" using assms(3) by (auto simp: strategy_names_def)
  moreover have "n \<notin> fst ` set (policy_entries env ce o')" using assms(3) by (auto simp: policy_entries_def)
  ultimately show ?thesis using option_entries_lookup(1) [OF assms(1,2)] by (simp add: map_of_eq_None_iff [symmetric])
qed

lemma blob_entries_read:
  assumes "journal_env_ok env" "compaction_env_ok ce"
    and "ce_get_name ce (co_compaction_strategy o') \<in> {''LeveledCompaction'', ''FifoCompaction''}"
    and get: "\<And>n. get n = Inr (map_of (option_entries env ce o') n)"
  shows "get ''blob'' = Inr (map_option (\<lambda>_. [1]) (co_kv_separation_opts o'))"
    and "co_kv_separation_opts o' = Some b \<Longrightarrow> read_blob_options env get = Inr b"
proof -
  note lookup = blob_lookups [OF assms(2,3)]
  show "get ''blob'' = Inr (map_option (\<lambda>_. [1]) (co_kv_separation_opts o'))"
    by (cases "co_kv_separation_opts o'") (simp_all add: get lookup blob_entries_def)
  show "read_blob_options env get = Inr b" if "co_kv_separation_opts o' = Some b"
    by (rule blob_roundtrip [OF assms(1)]) (simp_all add: get lookup blob_entries_def that)
qed

lemma from_entries:
  fixes o' :: "('c, 'f) create_options"
  assumes "journal_env_ok env" "compaction_env_ok ce" "options_fit o'"
    and "ce_get_name ce (co_compaction_strategy o') \<in> {''LeveledCompaction'', ''FifoCompaction''}"
    and get: "\<And>n. get n = Inr (map_of (option_entries env ce o') n)"
  shows "from_kvs env ce get = Inr (o'\<lparr>co_level_count := 7, co_compaction_filter_factory := None\<rparr> :: ('c, 'f) create_options)"
proof -
  note blob = blob_entries_read [OF assms(1,2,4) get]
  note entries = policy_lookups [OF assms(2,4), of env]
  have req: "required get n msg = Inr v" if "map_of (option_entries env ce o') n = Some v" for n msg v
    by (simp add: required_def get that)
  have strategy: "read_compaction_strategy ce get = Inr (co_compaction_strategy o')"
    by (rule strategy_roundtrip [OF assms(2,4)]) (simp_all only: get entries(1) option_entries_lookup(2) [OF assms(2,4)])
  note fit = assms(3) [unfolded options_fit_def]
  have bits: "((if b then [1] else [0]) = [1 :: byte]) = b" "([of_bool b] = [1 :: byte]) = b" for b by simp_all
  show ?thesis
    unfolding from_kvs_def blob(1) bind_r_simps req [OF entries(2)] req [OF entries(3)] req [OF entries(4)] req [OF entries(5)]
      req [OF entries(6)] req [OF entries(7)] req [OF entries(8)] req [OF entries(9)] req [OF entries(10)]
      req [OF entries(11)] req [OF entries(12)] req [OF entries(13)] req [OF entries(14)] req [OF entries(15)] strategy
    using fit assms(1) blob(2)
    by (cases "co_kv_separation_opts o'")
      (simp_all add: policies_roundtrip compression_policy_roundtrip read_words_all bits create_options.equality)
qed

section \<open>Properties\<close>

text \<open>C16: a reopened database rebuilds the options a keyspace was created with.  After the entries of
  a new keyspace are added to the meta keyspace, decoding gives the options back, with the level
  count at its fixed 7 and without the compaction filter, which is installed anew; what is
  decoded for every other keyspace does not change.\<close>

theorem options_roundtrip:
  fixes o' :: "('c, 'f) create_options"
  assumes "journal_env_ok env" "compaction_env_ok ce" "options_fit o'"
    and "encode_kvs env ce ks o' = Inr kvs" "\<forall>n. m (config_key ks n) = None"
  shows "from_kvs env ce (config_of (m ++ map_of kvs) ks) =
      Inr (o'\<lparr>co_level_count := 7, co_compaction_filter_factory := None\<rparr> :: ('c, 'f) create_options) \<and>
    (\<forall>ks'. ks' \<noteq> ks \<longrightarrow> config_of (m ++ map_of kvs) ks' = config_of m ks')"
proof
  note named = encode_kvs_named [OF assms(4)]
  have get: "config_of (m ++ map_of kvs) ks n = Inr (map_of (option_entries env ce o') n)" for n
    using assms(5) by (simp add: config_of_def named(1) map_of_config map_add_def split: option.split)
  show "from_kvs env ce (config_of (m ++ map_of kvs) ks) =
      Inr (o'\<lparr>co_level_count := 7, co_compaction_filter_factory := None\<rparr> :: ('c, 'f) create_options)"
    by (rule from_entries [OF assms(1-3) named(2) get])
  show "\<forall>ks'. ks' \<noteq> ks \<longrightarrow> config_of (m ++ map_of kvs) ks' = config_of m ks'"
    by (simp add: config_of_def named(1) map_of_config map_add_def fun_eq_iff)
qed

text \<open>Strategies that keep their parameters; one with too many ratios has another name.\<close>

datatype sample_strategy = SampleLeveled byte u64 "u32 list" | SampleFifo u64 "u64 option"

fun sample_strategy_name :: "sample_strategy \<Rightarrow> string" where
  "sample_strategy_name (SampleLeveled l0 target ratios) = (if length ratios < 256 then ''LeveledCompaction'' else ''Other'')"
| "sample_strategy_name (SampleFifo limit ttl) = ''FifoCompaction''"

fun sample_strategy_config :: "sample_strategy \<Rightarrow> (string \<times> bytes) list" where
  "sample_strategy_config (SampleLeveled l0 target ratios) =
     [(''leveled_l0_threshold'', [l0]), (''leveled_target_size'', u64_to_le target),
      (''leveled_level_ratio_policy'', policy_encode u32_to_le ratios)]"
| "sample_strategy_config (SampleFifo limit ttl) =
     [(''fifo_limit'', u64_to_le limit), (''fifo_ttl'', [of_bool (ttl \<noteq> None)])] @
     (case ttl of None \<Rightarrow> [] | Some s \<Rightarrow> [(''fifo_ttl_seconds'', u64_to_le s)])"

definition sample_compaction :: "sample_strategy compaction_env" where
  "sample_compaction = \<lparr>ce_get_name = sample_strategy_name, ce_get_config = sample_strategy_config,
     ce_leveled = SampleLeveled, ce_fifo = SampleFifo, ce_leveled_default = SampleLeveled 4 67108864 [0x41200000],
     ce_leveled_name = ''LeveledCompaction'', ce_fifo_name = ''FifoCompaction'', ce_level_count = 7\<rparr>"

lemma sample_compaction_ok: "compaction_env_ok sample_compaction"
  unfolding compaction_env_ok_def
proof (intro conjI allI impI)
  fix c
  show "\<exists>l0 target ratios. length ratios < 256 \<and> c = ce_leveled sample_compaction l0 target ratios \<and>
      ce_get_config sample_compaction c = [(''leveled_l0_threshold'', [l0]), (''leveled_target_size'', u64_to_le target),
        (''leveled_level_ratio_policy'', policy_encode u32_to_le ratios)]"
    if "ce_get_name sample_compaction c = ''LeveledCompaction''"
    using that by (cases c) (auto simp: sample_compaction_def split: if_splits)
  show "\<exists>limit ttl. c = ce_fifo sample_compaction limit ttl \<and>
      ce_get_config sample_compaction c = [(''fifo_limit'', u64_to_le limit), (''fifo_ttl'', [of_bool (ttl \<noteq> None)])] @
        (case ttl of None \<Rightarrow> [] | Some s \<Rightarrow> [(''fifo_ttl_seconds'', u64_to_le s)])"
    if "ce_get_name sample_compaction c = ''FifoCompaction''"
    using that by (cases c) (auto simp: sample_compaction_def split: if_splits)
qed (simp_all add: sample_compaction_def)

lemma sample_default_fits: "options_fit (create_options_default sample_compaction :: (sample_strategy, nat) create_options)"
  by (simp add: options_fit_def create_options_default_def)

theorem options_roundtrip_witness:
  "\<exists>kvs. encode_kvs sample_env sample_compaction 5 (create_options_default sample_compaction :: (sample_strategy, nat) create_options) = Inr kvs \<and>
     from_kvs sample_env sample_compaction (config_of (Map.empty ++ map_of kvs) 5) =
       Inr (create_options_default sample_compaction :: (sample_strategy, nat) create_options)"
proof -
  let ?o = "create_options_default sample_compaction :: (sample_strategy, nat) create_options"
  obtain kvs where kvs: "encode_kvs sample_env sample_compaction 5 ?o = Inr kvs"
    by (simp add: encode_kvs_def create_options_default_def sample_compaction_def)
  have "?o\<lparr>co_level_count := 7, co_compaction_filter_factory := None\<rparr> = ?o"
    by (simp add: create_options_default_def sample_compaction_def)
  with options_roundtrip [OF sample_env_ok sample_compaction_ok sample_default_fits kvs, of Map.empty] kvs
  show ?thesis by auto
qed

end
