(* ===== verification/Catalogue.thy ===== *)
theory Catalogue
  imports Database KeyspaceOptions
begin

text \<open>
  The keyspaces of a database: \<open>src/keyspace/name.rs\<close>, \<open>src/meta_keyspace.rs\<close>, the keyspace
  operations of \<open>src/db.rs\<close> and \<open>recover_keyspaces\<close> of \<open>src/recovery.rs\<close>.

  The meta keyspace is a tree of \<open>lsm_tree\<close>; \<open>meta_env\<close> has its calls, \<open>meta_env_ok\<close> what the code
  relies on.  Creating a folder and opening a tree in it is the parameter \<open>ca_create\<close>, opening the
  tree of an existing folder is \<open>ca_open\<close>.  The write lock on the dictionary is poisoned by a panic
  while it is held.
\<close>

section \<open>Names\<close>

definition is_valid_keyspace_name :: "rstr \<Rightarrow> bool" where
  "is_valid_keyspace_name s = (if s = [] then False else length (utf8_encode s) < 256)"

definition RAW_KEYSPACE_PREFIX :: rstr where
  "RAW_KEYSPACE_PREFIX = str ''$fjall.secure.''"

definition is_reserved_raw_keyspace_name :: "rstr \<Rightarrow> bool" where
  "is_reserved_raw_keyspace_name name = prefix RAW_KEYSPACE_PREFIX name"

definition physical_keyspace_name :: "rstr \<Rightarrow> rstr" where
  "physical_keyspace_name name = RAW_KEYSPACE_PREFIX @ name"

section \<open>Parameters and state\<close>

text \<open>The ingestion of a batch of pairs, in key order, \<open>None\<close> being a tombstone; the keys under a
  prefix; a compaction.\<close>

record 'w meta_env =
  mt_get :: "bytes \<Rightarrow> 'w \<Rightarrow> lsm_error + bytes option"
  mt_prefix_keys :: "bytes \<Rightarrow> 'w \<Rightarrow> (lsm_error + bytes) list"
  mt_ingest :: "(bytes \<times> bytes option) list \<Rightarrow> 'w \<Rightarrow> lsm_error + 'w"
  mt_compact :: "'w \<Rightarrow> 'w"

definition meta_env_ok :: "'w meta_env \<Rightarrow> ('w \<Rightarrow> bytes \<Rightarrow> bytes option) \<Rightarrow> bool" where
  "meta_env_ok M mc \<longleftrightarrow>
     (\<forall>k w. mt_get M k w = Inr (mc w k)) \<and>
     (\<forall>p w. \<exists>ks. mt_prefix_keys M p w = map Inr ks \<and> sorted_wrt (<) ks \<and>
        (\<forall>k. k \<in> set ks \<longleftrightarrow> prefix p k \<and> mc w k \<noteq> None)) \<and>
     (\<forall>kvs w w'. sorted_wrt (<) (map fst kvs) \<longrightarrow> mt_ingest M kvs w = Inr w' \<longrightarrow>
        mc w' = (\<lambda>k. case map_of kvs k of None \<Rightarrow> mc w k | Some x \<Rightarrow> x)) \<and>
     (\<forall>w. mc (mt_compact M w) = mc w)"

record ('t, 'w, 'c, 'f) catalogue_env =
  ca_journal :: journal_env
  ca_meta :: "'w meta_env"
  ca_compaction :: "'c compaction_env"
  ca_create :: "u64 \<Rightarrow> ('c, 'f) create_options \<Rightarrow> 't result"
  ca_open :: "u64 \<Rightarrow> ('c, 'f) create_options \<Rightarrow> 't result"
  ca_assigner :: "rstr \<Rightarrow> 'f option"

record ('t, 'w) catalogue =
  ct_db :: "'t db"
  ct_meta :: 'w
  ct_next_id :: u64
  ct_lock_poisoned :: bool

abbreviation lock_panic :: error where "lock_panic \<equiv> Panic ''lock is poisoned''"

section \<open>The meta keyspace\<close>

definition name_key :: "u64 \<Rightarrow> bytes" where
  "name_key keyspace_id = [0x6E] @ u64_to_be keyspace_id"

definition get_kv_for_config :: "'w meta_env \<Rightarrow> u64 \<Rightarrow> string \<Rightarrow> 'w \<Rightarrow> bytes option result" where
  "get_kv_for_config M keyspace_id name w = map_err Storage (mt_get M (config_key keyspace_id name) w)"

definition resolve_id :: "'w meta_env \<Rightarrow> u64 \<Rightarrow> 'w \<Rightarrow> rstr option result" where
  "resolve_id M keyspace_id w =
     bind_r (map_err Storage (mt_get M (name_key keyspace_id) w)) (\<lambda>found.
       case found of
         None \<Rightarrow> Inr None
       | Some v \<Rightarrow>
           (case utf8_decode v of
              None \<Rightarrow> Inl (Panic ''should be utf-8'')
            | Some name \<Rightarrow> Inr (Some name)))"

text \<open>The pairs written for a new keyspace, sorted by key.\<close>

definition creation_kvs ::
    "journal_env \<Rightarrow> 'c compaction_env \<Rightarrow> u64 \<Rightarrow> rstr \<Rightarrow> ('c, 'f) create_options \<Rightarrow> (bytes \<times> bytes) list result" where
  "creation_kvs env ce keyspace_id name config =
     map_r (\<lambda>kvs. sort_key fst (kvs @ [(name_key keyspace_id, utf8_encode name)])) (encode_kvs env ce keyspace_id config)"

definition meta_create_keyspace ::
    "('t, 'w, 'c, 'f) catalogue_env \<Rightarrow> u64 \<Rightarrow> rstr \<Rightarrow> ('c, 'f) create_options \<Rightarrow> ('t, 'w) catalogue
     \<Rightarrow> unit result \<times> ('t, 'w) catalogue" where
  "meta_create_keyspace A keyspace_id name config st =
     (case creation_kvs (ca_journal A) (ca_compaction A) keyspace_id name config of
        Inl e \<Rightarrow> (Inl e, st)
      | Inr kvs \<Rightarrow>
          (case mt_ingest (ca_meta A) (map (\<lambda>(k, v). (k, Some v)) kvs) (ct_meta st) of
             Inl e \<Rightarrow> (Inl (Storage e), st)
           | Inr w \<Rightarrow>
               (Inr (), st\<lparr>ct_meta := mt_compact (ca_meta A) w,
                  ct_db := (ct_db st)\<lparr>db_keyspaces := (db_keyspaces (ct_db st))(name \<mapsto> keyspace_id)\<rparr>\<rparr>)))"

text \<open>The keys under the configuration prefix of a keyspace; a failing guard stops the walk.\<close>

fun collect_keys :: "(lsm_error + bytes) list \<Rightarrow> bytes list result" where
  "collect_keys [] = Inr []"
| "collect_keys (Inl e # gs) = Inl (Storage e)"
| "collect_keys (Inr k # gs) = map_r (Cons k) (collect_keys gs)"

definition meta_remove_keyspace ::
    "('t, 'w, 'c, 'f) catalogue_env \<Rightarrow> rstr \<Rightarrow> ('t, 'w) catalogue \<Rightarrow> unit result \<times> ('t, 'w) catalogue" where
  "meta_remove_keyspace A name st =
     (if ct_lock_poisoned st then (Inl lock_panic, st)
      else case db_keyspaces (ct_db st) name of
        None \<Rightarrow> (Inr (), st)
      | Some keyspace_id \<Rightarrow>
          let (seqno, db1) = next_seqno (ct_db st); st1 = st\<lparr>ct_db := db1\<rparr> in
          (case bind_r (collect_keys (mt_prefix_keys (ca_meta A) ([0x63] @ u64_to_be keyspace_id) (ct_meta st))) (\<lambda>keys.
                map_err Storage (mt_ingest (ca_meta A) (map (\<lambda>k. (k, None)) (keys @ [name_key keyspace_id])) (ct_meta st))) of
             Inl e \<Rightarrow> (Inl e, st1)
           | Inr w \<Rightarrow>
               (Inr (), st1\<lparr>ct_meta := mt_compact (ca_meta A) w,
                  ct_db := db1\<lparr>db_tracker := tracker_set (seqno + 1) (db_tracker db1),
                    db_keyspaces := (db_keyspaces db1)(name := None)\<rparr>\<rparr>)))"

definition keyspace_exists :: "rstr \<Rightarrow> ('t, 'w) catalogue \<Rightarrow> bool result" where
  "keyspace_exists name st =
     (if ct_lock_poisoned st then Inl lock_panic else Inr (db_keyspaces (ct_db st) name \<noteq> None))"

section \<open>Opening and deleting keyspaces\<close>

definition keyspace_create_new ::
    "('t, 'w, 'c, 'f) catalogue_env \<Rightarrow> u64 \<Rightarrow> rstr \<Rightarrow> ('c, 'f) create_options \<Rightarrow> 't keyspace result" where
  "keyspace_create_new A keyspace_id name config =
     map_r (\<lambda>tree. \<lparr>ks_id = keyspace_id, ks_name = name, ks_manual_journal_persist = co_manual_journal_persist config,
       ks_max_memtable_size = co_max_memtable_size config, ks_is_deleted = False, ks_tree = tree\<rparr>)
     (ca_create A keyspace_id config)"

definition assign_filter ::
    "('t, 'w, 'c, 'f) catalogue_env \<Rightarrow> rstr \<Rightarrow> ('c, 'f) create_options \<Rightarrow> ('c, 'f) create_options" where
  "assign_filter A name opts =
     (case ca_assigner A name of None \<Rightarrow> opts | Some f \<Rightarrow> with_compaction_filter_factory f opts)"

definition is_panic_r :: "'a result \<Rightarrow> bool" where
  "is_panic_r r = (case r of Inl (Panic _) \<Rightarrow> True | _ \<Rightarrow> False)"

definition raw_keyspace ::
    "('t, 'w, 'c, 'f) catalogue_env \<Rightarrow> rstr \<Rightarrow> ('c, 'f) create_options \<Rightarrow> ('t, 'w) catalogue
     \<Rightarrow> u64 result \<times> ('t, 'w) catalogue" where
  "raw_keyspace A name create_options st =
     (if \<not> is_valid_keyspace_name name then (Inl (Panic ''assertion failed: is_valid_keyspace_name(name)''), st)
      else if ct_lock_poisoned st then (Inl lock_panic, st)
      else case db_keyspaces (ct_db st) name of
        Some h \<Rightarrow> (Inr h, st)
      | None \<Rightarrow>
          let keyspace_id = ct_next_id st;
              st1 = st\<lparr>ct_next_id := keyspace_id + 1\<rparr>;
              opts = assign_filter A name create_options
          in (case keyspace_create_new A keyspace_id name opts of
                Inl e \<Rightarrow> (Inl e, st1\<lparr>ct_lock_poisoned := is_panic_r (Inl e :: unit result)\<rparr>)
              | Inr ks \<Rightarrow>
                  (case meta_create_keyspace A keyspace_id name opts st1 of
                     (Inl e, st2) \<Rightarrow> (Inl e, st2\<lparr>ct_lock_poisoned := is_panic_r (Inl e :: unit result)\<rparr>)
                   | (Inr _, st2) \<Rightarrow>
                       (Inr keyspace_id,
                        st2\<lparr>ct_db := (ct_db st2)\<lparr>db_handles := (db_handles (ct_db st2))(keyspace_id \<mapsto> ks)\<rparr>\<rparr>))))"

definition database_keyspace ::
    "('t, 'w, 'c, 'f) catalogue_env \<Rightarrow> rstr \<Rightarrow> ('c, 'f) create_options \<Rightarrow> ('t, 'w) catalogue
     \<Rightarrow> u64 result \<times> ('t, 'w) catalogue" where
  "database_keyspace A name create_options st =
     (if \<not> is_valid_keyspace_name name then (Inl (Panic ''assertion failed: is_valid_keyspace_name(name)''), st)
      else if is_reserved_raw_keyspace_name name then (Inl ReservedKeyspaceName, st)
      else raw_keyspace A name create_options st)"

definition delete_keyspace ::
    "('t, 'w, 'c, 'f) catalogue_env \<Rightarrow> u64 \<Rightarrow> ('t, 'w) catalogue \<Rightarrow> unit result \<times> ('t, 'w) catalogue" where
  "delete_keyspace A h st =
     (case db_handles (ct_db st) h of
        None \<Rightarrow> (Inl dangling, st)
      | Some ks \<Rightarrow>
          (case meta_remove_keyspace A (ks_name ks) st of
             (Inl e, st1) \<Rightarrow> (Inl e, st1)
           | (Inr _, st1) \<Rightarrow>
               (Inr (), st1\<lparr>ct_db := (ct_db st1)\<lparr>db_handles := (db_handles (ct_db st1))(h \<mapsto> ks\<lparr>ks_is_deleted := True\<rparr>)\<rparr>\<rparr>)))"

section \<open>Reopening\<close>

text \<open>The entries of the keyspaces folder: a stray file, a folder whose name is no number, or a folder
  named by a number, with or without the marker that the tree writes last.\<close>

datatype dirent = StrayFile | BadDirName | KeyspaceDir u64 bool

text \<open>What one entry does to the dictionary; the second component lists the folders removed.\<close>

definition recover_dirent ::
    "('t, 'w, 'c, 'f) catalogue_env \<Rightarrow> dirent \<Rightarrow> ('t, 'w) catalogue \<times> u64 list \<times> u64 \<Rightarrow> (('t, 'w) catalogue \<times> u64 list \<times> u64) result" where
  "recover_dirent A d acc =
     (case acc of (st, removed, highest) \<Rightarrow>
      case d of
        StrayFile \<Rightarrow> Inr (st, removed, highest)
      | BadDirName \<Rightarrow> Inl (Panic ''should be valid integer'')
      | KeyspaceDir keyspace_id marker \<Rightarrow>
          if keyspace_id = 0 then Inr (st, removed, highest)
          else
            let highest1 = max highest keyspace_id in
            bind_r (resolve_id (ca_meta A) keyspace_id (ct_meta st)) (\<lambda>found.
              case found of
                None \<Rightarrow> Inr (st, removed @ [keyspace_id], highest1)
              | Some name \<Rightarrow>
                  if \<not> marker then Inr (st, removed @ [keyspace_id], highest1)
                  else
                    bind_r (from_kvs (ca_journal A) (ca_compaction A)
                        (\<lambda>n. get_kv_for_config (ca_meta A) keyspace_id n (ct_meta st))) (\<lambda>config.
                      let recovered_config = assign_filter A name config in
                      bind_r (ca_open A keyspace_id recovered_config) (\<lambda>tree.
                        let ks = \<lparr>ks_id = keyspace_id, ks_name = name,
                              ks_manual_journal_persist = co_manual_journal_persist recovered_config,
                              ks_max_memtable_size = co_max_memtable_size recovered_config,
                              ks_is_deleted = False, ks_tree = tree\<rparr>;
                            db = ct_db st
                        in Inr (st\<lparr>ct_db := db\<lparr>db_handles := (db_handles db)(keyspace_id \<mapsto> ks),
                              db_keyspaces := (db_keyspaces db)(name \<mapsto> keyspace_id)\<rparr>\<rparr>, removed, highest1)))))"

fun recover_dirents ::
    "('t, 'w, 'c, 'f) catalogue_env \<Rightarrow> dirent list \<Rightarrow> ('t, 'w) catalogue \<times> u64 list \<times> u64 \<Rightarrow> (('t, 'w) catalogue \<times> u64 list \<times> u64) result" where
  "recover_dirents A [] acc = Inr acc"
| "recover_dirents A (d # ds) acc = bind_r (recover_dirent A d acc) (recover_dirents A ds)"

definition recover_keyspaces ::
    "('t, 'w, 'c, 'f) catalogue_env \<Rightarrow> dirent list \<Rightarrow> ('t, 'w) catalogue \<Rightarrow> (('t, 'w) catalogue \<times> u64 list) result" where
  "recover_keyspaces A ds st =
     map_r (\<lambda>(st', removed, highest). (st'\<lparr>ct_next_id := highest + 1\<rparr>, removed)) (recover_dirents A ds (st, [], 1))"

section \<open>Contents of the meta keyspace\<close>

lemma name_key_inject [simp]: "name_key a = name_key b \<longleftrightarrow> a = b"
  by (simp add: name_key_def)

lemma name_key_config [simp]: "name_key a \<noteq> encode_config_key b x" "encode_config_key b x \<noteq> name_key a"
  by (simp_all add: name_key_def encode_config_key_def)

lemma config_prefix: "prefix ([0x63] @ u64_to_be h) k \<longleftrightarrow> (\<exists>x. k = encode_config_key h x)"
  by (auto simp: prefix_def encode_config_key_def)

lemma config_prefix_simps [simp]:
  "prefix (0x63 # u64_to_be h) (encode_config_key h' x) \<longleftrightarrow> h' = h"
  "\<not> prefix (0x63 # u64_to_be h) (name_key h')"
  using config_prefix [of h "encode_config_key h' x"] config_prefix [of h "name_key h'"] by auto

lemma strategy_names_distinct:
  assumes "compaction_env_ok ce" "ce_get_name ce c \<in> {''LeveledCompaction'', ''FifoCompaction''}"
  shows "distinct (map fst (ce_get_config ce c))"
proof (cases "ce_get_name ce c = ''LeveledCompaction''")
  case True
  with assms(1) obtain l0 target ratios where "ce_get_config ce c = [(''leveled_l0_threshold'', [l0]),
      (''leveled_target_size'', u64_to_le target), (''leveled_level_ratio_policy'', policy_encode u32_to_le ratios)]"
    unfolding compaction_env_ok_def by blast
  then show ?thesis by simp
next
  case False
  then have "ce_get_name ce c = ''FifoCompaction''" using assms(2) by simp
  with assms(1) obtain limit ttl where "ce_get_config ce c = [(''fifo_limit'', u64_to_le limit),
      (''fifo_ttl'', [of_bool (ttl \<noteq> None)])] @ (case ttl of None \<Rightarrow> [] | Some s \<Rightarrow> [(''fifo_ttl_seconds'', u64_to_le s)])"
    unfolding compaction_env_ok_def by blast
  then show ?thesis by (cases ttl) simp_all
qed

lemma option_names_distinct:
  assumes "compaction_env_ok ce" "ce_get_name ce (co_compaction_strategy o') \<in> {''LeveledCompaction'', ''FifoCompaction''}"
  shows "distinct (map fst (option_entries env ce o'))"
proof -
  let ?P = "policy_entries env ce o'" and ?C = "ce_get_config ce (co_compaction_strategy o')"
    and ?B = "blob_entries env (co_kv_separation_opts o')"
  have P: "distinct (map fst ?P)" by (simp add: policy_entries_def)
  have B: "distinct (map fst ?B)" "fst ` set ?B \<inter> strategy_names = {}" "fst ` set ?P \<inter> fst ` set ?B = {}"
    by (cases "co_kv_separation_opts o'"; simp add: blob_entries_def strategy_names_def policy_entries_def)+
  have "fst ` set ?C \<subseteq> strategy_names" by (rule strategy_config_names [OF assms])
  then have "fst ` set ?C \<inter> fst ` set ?B = {}" "fst ` set ?P \<inter> fst ` set ?C = {}"
    using B(2) policy_entries_names [of env ce o'] by blast+
  then show ?thesis
    using P B strategy_names_distinct [OF assms] by (simp add: option_entries_def image_Un Int_Un_distrib)
qed

lemma map_of_sort: "distinct (map fst xs) \<Longrightarrow> map_of (sort_key fst xs) = map_of xs"
  by (rule map_of_inject_set [THEN iffD2]) (auto simp: distinct_map)

lemma sort_key_strict: "distinct (map fst xs) \<Longrightarrow> sorted_wrt (<) (map fst (sort_key fst (xs :: (bytes \<times> 'b) list)))"
  by (simp add: strict_sorted_iff distinct_map)

text \<open>The pairs of a new keyspace: its options by name, and its name by id.\<close>

lemma creation_kvs_content:
  assumes "compaction_env_ok ce" "creation_kvs env ce h name o' = Inr kvs"
  shows "sorted_wrt (<) (map fst kvs)"
    and "map_of kvs (name_key h') = (if h' = h then Some (utf8_encode name) else None)"
    and "map_of kvs (config_key h' n) = (if h' = h then map_of (option_entries env ce o') n else None)"
    and "h' \<noteq> h \<Longrightarrow> map_of kvs (encode_config_key h' x) = None"
    and "ce_get_name ce (co_compaction_strategy o') \<in> {''LeveledCompaction'', ''FifoCompaction''}"
proof -
  obtain es where e: "encode_kvs env ce h o' = Inr es" "kvs = sort_key fst (es @ [(name_key h, utf8_encode name)])"
    using assms(2) by (auto simp: creation_kvs_def map_r_eq_Inr)
  note named = encode_kvs_named [OF e(1)]
  show "ce_get_name ce (co_compaction_strategy o') \<in> {''LeveledCompaction'', ''FifoCompaction''}" by (rule named(2))
  have keys: "map fst es = map (config_key h) (map fst (option_entries env ce o'))"
    by (simp add: named(1) case_prod_beta comp_def)
  have "distinct (map fst es)"
    unfolding keys using option_names_distinct [OF assms(1) named(2), of env] by (simp add: distinct_map inj_on_def)
  moreover have "name_key h \<notin> set (map fst es)" unfolding keys by auto
  ultimately have d: "distinct (map fst (es @ [(name_key h, utf8_encode name)]))" by simp
  show "sorted_wrt (<) (map fst kvs)" unfolding e(2) by (rule sort_key_strict [OF d])
  have m: "map_of kvs = map_of (es @ [(name_key h, utf8_encode name)])" unfolding e(2) by (rule map_of_sort [OF d])
  have none: "map_of es k = None" if "k \<notin> set (map fst es)" for k using that by (simp add: map_of_eq_None_iff)
  have "name_key h' \<notin> set (map fst es)" unfolding keys by auto
  then show "map_of kvs (name_key h') = (if h' = h then Some (utf8_encode name) else None)"
    using none [of "name_key h'"] by (auto simp: m map_add_def split: option.split)
  show "map_of kvs (config_key h' n) = (if h' = h then map_of (option_entries env ce o') n else None)"
    by (simp add: m map_add_def named(1) map_of_config split: option.split)
  show "map_of kvs (encode_config_key h' x) = None" if "h' \<noteq> h"
  proof -
    have "encode_config_key h' x \<notin> set (map fst es)" unfolding keys using that by auto
    then show ?thesis using none by (simp add: m map_add_def)
  qed
qed

lemma ingest_content:
  assumes "meta_env_ok M mc" "sorted_wrt (<) (map fst kvs)" "mt_ingest M kvs w = Inr w'"
  shows "mc w' = (\<lambda>k. case map_of kvs k of None \<Rightarrow> mc w k | Some x \<Rightarrow> x)"
  using assms unfolding meta_env_ok_def by blast

lemma map_of_const: "map_of (map (\<lambda>k. (k, c)) ks) k = (if k \<in> set ks then Some c else None)"
  by (induction ks) auto

lemma collect_keys_Inr: "collect_keys (map Inr ks) = Inr ks"
  by (induction ks) simp_all

section \<open>The invariant of the catalogue\<close>

text \<open>The options stored for a keyspace are those its handle works with.\<close>

definition stored_options :: "('t, 'w, 'c, 'f) catalogue_env \<Rightarrow> (bytes \<Rightarrow> bytes option) \<Rightarrow> 't keyspace \<Rightarrow> bool" where
  "stored_options A m ks \<longleftrightarrow> (\<exists>o' :: ('c, 'f) create_options.
     from_kvs (ca_journal A) (ca_compaction A) (config_of m (ks_id ks)) = Inr o' \<and>
     co_manual_journal_persist o' = ks_manual_journal_persist ks \<and> co_max_memtable_size o' = ks_max_memtable_size ks)"

definition listed :: "('t, 'w) catalogue \<Rightarrow> u64 \<Rightarrow> bool" where
  "listed st h \<longleftrightarrow> (\<exists>n. db_keyspaces (ct_db st) n = Some h)"

definition cat_inv :: "('t, 'w, 'c, 'f) catalogue_env \<Rightarrow> ('w \<Rightarrow> bytes \<Rightarrow> bytes option) \<Rightarrow> ('t, 'w) catalogue \<Rightarrow> bool" where
  "cat_inv A mc st \<longleftrightarrow>
     1 \<le> ct_next_id st \<and>
     (\<forall>h. db_handles (ct_db st) h \<noteq> None \<longrightarrow> 1 \<le> h \<and> h < ct_next_id st) \<and>
     (\<forall>n h. db_keyspaces (ct_db st) n = Some h \<longrightarrow> list_all is_scalar n \<and> mc (ct_meta st) (name_key h) = Some (utf8_encode n) \<and>
        (\<exists>ks. db_handles (ct_db st) h = Some ks \<and> ks_id ks = h \<and> ks_name ks = n \<and> \<not> ks_is_deleted ks \<and>
           stored_options A (mc (ct_meta st)) ks)) \<and>
     (\<forall>h. \<not> listed st h \<longrightarrow> mc (ct_meta st) (name_key h) = None \<and> (\<forall>x. mc (ct_meta st) (encode_config_key h x) = None))"

definition env_ok :: "('t, 'w, 'c, 'f) catalogue_env \<Rightarrow> ('w \<Rightarrow> bytes \<Rightarrow> bytes option) \<Rightarrow> bool" where
  "env_ok A mc \<longleftrightarrow> journal_env_ok (ca_journal A) \<and> compaction_env_ok (ca_compaction A) \<and> meta_env_ok (ca_meta A) mc"

lemma cat_inv_frame:
  assumes "cat_inv A mc st" "ct_meta st' = ct_meta st" "db_handles (ct_db st') = db_handles (ct_db st)"
    and "db_keyspaces (ct_db st') = db_keyspaces (ct_db st)" "ct_next_id st \<le> ct_next_id st'"
  shows "cat_inv A mc st'"
proof -
  have "h < ct_next_id st'" if "h < ct_next_id st" for h using that assms(5) by simp
  then show ?thesis using assms unfolding cat_inv_def listed_def by (auto intro: order_trans)
qed

lemma cat_inv_listed:
  assumes "cat_inv A mc st" "db_keyspaces (ct_db st) n = Some h"
  obtains ks where "db_handles (ct_db st) h = Some ks" "ks_id ks = h" "ks_name ks = n" "\<not> ks_is_deleted ks"
    "stored_options A (mc (ct_meta st)) ks"
  using assms unfolding cat_inv_def by blast

lemma stored_options_cong: "config_of m h = config_of m' h \<Longrightarrow> ks_id ks = h \<Longrightarrow> stored_options A m ks = stored_options A m' ks"
  by (simp add: stored_options_def)

text \<open>Adding a keyspace under a fresh id.\<close>

lemma create_inv:
  fixes A :: "('t, 'w, 'c, 'f) catalogue_env"
  assumes E: "env_ok A mc" and inv: "cat_inv A mc st" and name: "list_all is_scalar name" "db_keyspaces (ct_db st) name = None"
    and fit: "options_fit opts" and room: "ct_next_id st \<noteq> - 1"
    and run: "meta_create_keyspace A (ct_next_id st) name opts (st\<lparr>ct_next_id := ct_next_id st + 1\<rparr>) = (Inr (), st2)"
    and ks: "ks_id ks = ct_next_id st" "ks_name ks = name" "\<not> ks_is_deleted ks"
      "ks_manual_journal_persist ks = co_manual_journal_persist opts" "ks_max_memtable_size ks = co_max_memtable_size opts"
  shows "cat_inv A mc (st2\<lparr>ct_db := (ct_db st2)\<lparr>db_handles := (db_handles (ct_db st2))(ct_next_id st \<mapsto> ks)\<rparr>\<rparr>)"
proof -
  let ?h = "ct_next_id st" and ?env = "ca_journal A" and ?ce = "ca_compaction A"
  let ?st = "st2\<lparr>ct_db := (ct_db st2)\<lparr>db_handles := (db_handles (ct_db st2))(?h \<mapsto> ks)\<rparr>\<rparr>"
  obtain kvs w where k: "creation_kvs ?env ?ce ?h name opts = Inr kvs"
      "mt_ingest (ca_meta A) (map (\<lambda>(k, v). (k, Some v)) kvs) (ct_meta st) = Inr w"
      "st2 = st\<lparr>ct_next_id := ?h + 1, ct_meta := mt_compact (ca_meta A) w,
         ct_db := (ct_db st)\<lparr>db_keyspaces := (db_keyspaces (ct_db st))(name \<mapsto> ?h)\<rparr>\<rparr>"
    using run by (auto simp: meta_create_keyspace_def split: sum.splits)
  have ce: "compaction_env_ok ?ce" and je: "journal_env_ok ?env" and M: "meta_env_ok (ca_meta A) mc"
    using E by (simp_all add: env_ok_def)
  note c = creation_kvs_content [OF ce k(1)]
  let ?m = "mc (ct_meta st)" and ?m' = "mc (mt_compact (ca_meta A) w)"
  have "map fst (map (\<lambda>(k, v). (k, Some v)) kvs) = map fst kvs" by (simp add: case_prod_beta comp_def)
  then have "sorted_wrt (<) (map fst (map (\<lambda>(k, v). (k, Some v)) kvs))" using c(1) by (simp only:)
  from ingest_content [OF M this k(2)]
  have "mc w = (\<lambda>k. case map_of (map (\<lambda>(k, v). (k, Some v)) kvs) k of None \<Rightarrow> ?m k | Some x \<Rightarrow> x)" .
  moreover have "mc (mt_compact (ca_meta A) w) = mc w" using M by (simp add: meta_env_ok_def)
  ultimately have m': "?m' k = (case map_of kvs k of None \<Rightarrow> ?m k | Some v \<Rightarrow> Some v)" for k
    by (simp add: map_of_map [of Some kvs, unfolded comp_def] split: option.split)
  have fresh: "db_handles (ct_db st) ?h = None" "\<not> listed st ?h"
    using inv by (auto simp: cat_inv_def listed_def) (metis less_irrefl option.distinct(1))+
  have old: "?m' (name_key h) = ?m (name_key h)" "\<And>x. ?m' (encode_config_key h x) = ?m (encode_config_key h x)" if "h \<noteq> ?h" for h
    using that by (simp_all add: m' c(2,4))
  have get: "config_of ?m' ?h n = Inr (map_of (option_entries ?env ?ce opts) n)" for n
    using inv fresh(2) by (auto simp: config_of_def m' c(3) cat_inv_def split: option.split)
  have new: "stored_options A ?m' ks"
    using from_entries [OF je ce fit c(5), of "config_of ?m' ?h", OF get] ks by (auto simp: stored_options_def)
  have less: "?h < ?h + 1" by (rule seqno_less_Suc [OF room])
  show ?thesis
    unfolding cat_inv_def
  proof (intro conjI allI impI)
    show "1 \<le> ct_next_id ?st" using inv order_trans [OF _ less_imp_le [OF less]] by (simp add: k(3) cat_inv_def)
    fix h
    show "1 \<le> h" "h < ct_next_id ?st" if "db_handles (ct_db ?st) h \<noteq> None"
      using that inv less by (auto simp: k(3) cat_inv_def split: if_splits dest: less_trans)
  next
    fix n h assume n: "db_keyspaces (ct_db ?st) n = Some h"
    show "list_all is_scalar n" using n inv name(1) by (auto simp: k(3) cat_inv_def split: if_splits)
    show "mc (ct_meta ?st) (name_key h) = Some (utf8_encode n)"
    proof (cases "n = name")
      case True
      then have "h = ?h" using n by (simp add: k(3))
      with True show ?thesis by (simp add: k(3) m' c(2))
    next
      case False
      then have o: "db_keyspaces (ct_db st) n = Some h" using n by (simp add: k(3))
      then have "h \<noteq> ?h" using fresh(2) by (auto simp: listed_def)
      then show ?thesis using old(1) o inv by (simp add: k(3) cat_inv_def)
    qed
    show "\<exists>ks. db_handles (ct_db ?st) h = Some ks \<and> ks_id ks = h \<and> ks_name ks = n \<and> \<not> ks_is_deleted ks \<and>
        stored_options A (mc (ct_meta ?st)) ks"
    proof (cases "n = name")
      case True
      then have "h = ?h" using n by (simp add: k(3))
      with True ks new show ?thesis by (auto simp: k(3))
    next
      case False
      then have o: "db_keyspaces (ct_db st) n = Some h" using n by (simp add: k(3))
      then have "h \<noteq> ?h" using fresh(2) by (auto simp: listed_def)
      obtain ks' where k': "db_handles (ct_db st) h = Some ks'" "ks_id ks' = h" "ks_name ks' = n" "\<not> ks_is_deleted ks'"
          "stored_options A ?m ks'" by (rule cat_inv_listed [OF inv o])
      have "config_of ?m' h = config_of ?m h" using old(2) [OF \<open>h \<noteq> ?h\<close>] by (simp add: config_of_def fun_eq_iff)
      from stored_options_cong [OF this k'(2), of A] k'(5) have "stored_options A ?m' ks'" by (simp only:)
      then show ?thesis using k'(1-4) \<open>h \<noteq> ?h\<close> by (intro exI [of _ ks']) (simp add: k(3))
    qed
  next
    fix h assume "\<not> listed ?st h"
    then have l: "((db_keyspaces (ct_db st))(name \<mapsto> ?h)) n \<noteq> Some h" for n by (auto simp: k(3) listed_def)
    have "h \<noteq> ?h" using l [of name] by auto
    moreover have "\<not> listed st h"
    proof
      assume "listed st h"
      then obtain n where "db_keyspaces (ct_db st) n = Some h" by (auto simp: listed_def)
      then show False using l [of n] name(2) by (cases "n = name") auto
    qed
    ultimately have "h \<noteq> ?h" "\<not> listed st h" by simp_all
    then show "mc (ct_meta ?st) (name_key h) = None" "mc (ct_meta ?st) (encode_config_key h x) = None" for x
      using old inv by (simp_all add: k(3) cat_inv_def)
  qed
qed

text \<open>Removing a name.\<close>

lemma remove_inv:
  assumes E: "env_ok A mc" and inv: "cat_inv A mc st" and run: "meta_remove_keyspace A name st = (r, st')"
  shows "cat_inv A mc st'" "ct_next_id st' = ct_next_id st" "db_handles (ct_db st') = db_handles (ct_db st)"
    "r = Inr () \<Longrightarrow> db_keyspaces (ct_db st') = (db_keyspaces (ct_db st))(name := None)"
    "r \<noteq> Inr () \<Longrightarrow> db_keyspaces (ct_db st') = db_keyspaces (ct_db st)"
proof -
  have "cat_inv A mc st' \<and> ct_next_id st' = ct_next_id st \<and> db_handles (ct_db st') = db_handles (ct_db st) \<and>
      (if r = Inr () then db_keyspaces (ct_db st') = (db_keyspaces (ct_db st))(name := None)
       else db_keyspaces (ct_db st') = db_keyspaces (ct_db st))"
  proof (cases "ct_lock_poisoned st \<or> db_keyspaces (ct_db st) name = None")
    case True
    then show ?thesis using run inv by (auto simp: meta_remove_keyspace_def split: if_splits)
  next
    case False
    then obtain h where h: "db_keyspaces (ct_db st) name = Some h" "\<not> ct_lock_poisoned st" by auto
    have M: "meta_env_ok (ca_meta A) mc" using E by (simp add: env_ok_def)
    obtain ks where ks: "mt_prefix_keys (ca_meta A) ([0x63] @ u64_to_be h) (ct_meta st) = map Inr ks" "sorted_wrt (<) ks"
        "\<forall>k. k \<in> set ks \<longleftrightarrow> prefix ([0x63] @ u64_to_be h) k \<and> mc (ct_meta st) k \<noteq> None"
      using M unfolding meta_env_ok_def by blast
    let ?kvs = "map (\<lambda>k. (k, None)) (ks @ [name_key h]) :: (bytes \<times> bytes option) list"
    show ?thesis
    proof (cases "mt_ingest (ca_meta A) ?kvs (ct_meta st)")
      case (Inl e)
      then have "st' = st\<lparr>ct_db := snd (next_seqno (ct_db st))\<rparr>" "r \<noteq> Inr ()"
        using run h ks(1) by (auto simp: meta_remove_keyspace_def collect_keys_Inr next_seqno_def)
      then show ?thesis using cat_inv_frame [OF inv, of st'] by (simp add: next_seqno_def)
    next
      case (Inr w)
      have r: "r = Inr ()" and st': "ct_meta st' = mt_compact (ca_meta A) w" "ct_next_id st' = ct_next_id st"
        "db_handles (ct_db st') = db_handles (ct_db st)" "db_keyspaces (ct_db st') = (db_keyspaces (ct_db st))(name := None)"
        using run h ks(1) Inr by (auto simp: meta_remove_keyspace_def collect_keys_Inr next_seqno_def)
      have lt: "k < name_key h" if "k \<in> set ks" for k
      proof -
        have "prefix ([0x63] @ u64_to_be h) k" using that ks(3) by blast
        then obtain x where "k = encode_config_key h x" unfolding config_prefix by blast
        then show ?thesis by (simp add: encode_config_key_def name_key_def)
      qed
      have "map fst ?kvs = ks @ [name_key h]" by (simp add: comp_def)
      then have "sorted_wrt (<) (map fst ?kvs)" using ks(2) lt by (simp add: sorted_wrt_append)
      from ingest_content [OF M this Inr] have "mc w k = (if k \<in> set ks \<or> k = name_key h then None else mc (ct_meta st) k)" for k
        by (simp only: map_of_const) simp
      moreover have "mc (mt_compact (ca_meta A) w) = mc w" using M by (simp add: meta_env_ok_def)
      ultimately have m: "mc (ct_meta st') k = (if prefix ([0x63] @ u64_to_be h) k \<or> k = name_key h then None else mc (ct_meta st) k)" for k
        using ks(3) st'(1) by auto
      have cfg: "mc (ct_meta st') (encode_config_key h' x) = (if h' = h then None else mc (ct_meta st) (encode_config_key h' x))" for h' x
        by (simp add: m)
      have nm: "mc (ct_meta st') (name_key h') = (if h' = h then None else mc (ct_meta st) (name_key h'))" for h'
        by (simp add: m)
      have other: "h' \<noteq> h" if "db_keyspaces (ct_db st) n = Some h'" "n \<noteq> name" for n h'
        using that h(1) inv unfolding cat_inv_def by (metis option.inject)
      have "cat_inv A mc st'"
        unfolding cat_inv_def
      proof (intro conjI allI impI)
        show "1 \<le> ct_next_id st'" using inv by (simp add: st' cat_inv_def)
        fix h'
        show "1 \<le> h'" "h' < ct_next_id st'" if "db_handles (ct_db st') h' \<noteq> None" using that inv by (auto simp: st' cat_inv_def)
      next
        fix n h' assume "db_keyspaces (ct_db st') n = Some h'"
        then have n: "db_keyspaces (ct_db st) n = Some h'" "n \<noteq> name" by (auto simp: st' split: if_splits)
        note o = other [OF n]
        show "list_all is_scalar n" using n inv by (simp add: cat_inv_def)
        show "mc (ct_meta st') (name_key h') = Some (utf8_encode n)" using n inv o by (simp add: nm cat_inv_def)
        obtain k where k: "db_handles (ct_db st) h' = Some k" "ks_id k = h'" "ks_name k = n" "\<not> ks_is_deleted k"
            "stored_options A (mc (ct_meta st)) k" by (rule cat_inv_listed [OF inv n(1)])
        have "config_of (mc (ct_meta st')) h' = config_of (mc (ct_meta st)) h'" using o by (simp add: config_of_def cfg fun_eq_iff)
        from stored_options_cong [OF this k(2), of A] k(5) have "stored_options A (mc (ct_meta st')) k" by (simp only:)
        then show "\<exists>k. db_handles (ct_db st') h' = Some k \<and> ks_id k = h' \<and> ks_name k = n \<and> \<not> ks_is_deleted k \<and>
            stored_options A (mc (ct_meta st')) k"
          using k(1-4) by (intro exI [of _ k]) (simp add: st')
      next
        fix h' assume u: "\<not> listed st' h'"
        have "h' = h \<or> \<not> listed st h'"
        proof (rule ccontr)
          assume "\<not> (h' = h \<or> \<not> listed st h')"
          then obtain n where "db_keyspaces (ct_db st) n = Some h'" "h' \<noteq> h" by (auto simp: listed_def)
          moreover from this have "n \<noteq> name" using h(1) by auto
          ultimately have "listed st' h'" by (auto simp: listed_def st')
          then show False using u by simp
        qed
        then show "mc (ct_meta st') (name_key h') = None" "mc (ct_meta st') (encode_config_key h' x) = None" for x
          using inv by (auto simp: nm cfg cat_inv_def)
      qed
      then show ?thesis using r st' by simp
    qed
  qed
  then show "cat_inv A mc st'" "ct_next_id st' = ct_next_id st" "db_handles (ct_db st') = db_handles (ct_db st)"
    "r = Inr () \<Longrightarrow> db_keyspaces (ct_db st') = (db_keyspaces (ct_db st))(name := None)"
    "r \<noteq> Inr () \<Longrightarrow> db_keyspaces (ct_db st') = db_keyspaces (ct_db st)" by (simp_all split: if_splits)
qed

section \<open>Sequences of calls\<close>

datatype ('c, 'f) cat_call = OpenCall rstr "('c, 'f) create_options" | OpenRawCall rstr "('c, 'f) create_options" | DeleteCall u64

fun cat_run :: "('t, 'w, 'c, 'f) catalogue_env \<Rightarrow> ('c, 'f) cat_call \<Rightarrow> ('t, 'w) catalogue \<Rightarrow> ('t, 'w) catalogue" where
  "cat_run A (OpenCall name opts) st = snd (database_keyspace A name opts st)"
| "cat_run A (OpenRawCall name opts) st = snd (raw_keyspace A name opts st)"
| "cat_run A (DeleteCall h) st = snd (delete_keyspace A h st)"

text \<open>Names are strings, and policies have at most 255 entries.\<close>

fun call_ok :: "('c, 'f) cat_call \<Rightarrow> bool" where
  "call_ok (OpenCall name opts) = (list_all is_scalar name \<and> options_fit opts)"
| "call_ok (OpenRawCall name opts) = (list_all is_scalar name \<and> options_fit opts)"
| "call_ok (DeleteCall h) = True"

lemma assign_filter_simps [simp]:
  "options_fit (assign_filter A name opts) = options_fit opts"
  "co_manual_journal_persist (assign_filter A name opts) = co_manual_journal_persist opts"
  "co_max_memtable_size (assign_filter A name opts) = co_max_memtable_size opts"
  by (auto simp: assign_filter_def with_compaction_filter_factory_def options_fit_def split: option.split)

lemma raw_keyspace_inv:
  assumes E: "env_ok A mc" and inv: "cat_inv A mc st" and ok: "list_all is_scalar name" "options_fit opts"
    and room: "ct_next_id st \<noteq> - 1" and run: "raw_keyspace A name opts st = (r, st')"
  shows "cat_inv A mc st' \<and> (ct_next_id st' = ct_next_id st \<or> ct_next_id st' = ct_next_id st + 1)"
proof -
  let ?h = "ct_next_id st" and ?o = "assign_filter A name opts"
  have le: "?h \<le> ?h + 1" by (rule less_imp_le [OF seqno_less_Suc [OF room]])
  show ?thesis
  proof (cases "is_valid_keyspace_name name \<and> \<not> ct_lock_poisoned st \<and> db_keyspaces (ct_db st) name = None")
    case False
    then show ?thesis using run inv by (auto simp: raw_keyspace_def split: if_splits option.splits)
  next
    case True
    show ?thesis
    proof (cases "keyspace_create_new A ?h name ?o")
      case (Inl e)
      then have "st' = st\<lparr>ct_next_id := ?h + 1, ct_lock_poisoned := is_panic_r (Inl e :: unit result)\<rparr>"
        using run True by (simp add: raw_keyspace_def)
      then show ?thesis using cat_inv_frame [OF inv, of st'] le by simp
    next
      case (Inr ks)
      obtain q st2 where m: "meta_create_keyspace A ?h name ?o (st\<lparr>ct_next_id := ?h + 1\<rparr>) = (q, st2)" by fastforce
      have ks: "ks_id ks = ?h" "ks_name ks = name" "\<not> ks_is_deleted ks"
          "ks_manual_journal_persist ks = co_manual_journal_persist ?o" "ks_max_memtable_size ks = co_max_memtable_size ?o"
        using Inr by (auto simp: keyspace_create_new_def map_r_eq_Inr)
      show ?thesis
      proof (cases q)
        case (Inl e)
        then have st2: "st2 = st\<lparr>ct_next_id := ?h + 1\<rparr>" using m by (auto simp: meta_create_keyspace_def split: sum.splits)
        have "st' = st2\<lparr>ct_lock_poisoned := is_panic_r (Inl e :: unit result)\<rparr>"
          using run True Inr Inl m by (simp add: raw_keyspace_def)
        then show ?thesis using cat_inv_frame [OF inv, of st'] le by (simp add: st2)
      next
        case q: (Inr u)
        have m': "meta_create_keyspace A ?h name ?o (st\<lparr>ct_next_id := ?h + 1\<rparr>) = (Inr (), st2)" using m q by simp
        have st': "st' = st2\<lparr>ct_db := (ct_db st2)\<lparr>db_handles := (db_handles (ct_db st2))(?h \<mapsto> ks)\<rparr>\<rparr>"
          using run True Inr m' by (auto simp: raw_keyspace_def Let_def)
        have fit: "options_fit ?o" and free: "db_keyspaces (ct_db st) name = None" using ok(2) True by simp_all
        have "cat_inv A mc st'" unfolding st' by (rule create_inv [OF E inv ok(1) free fit room m' ks])
        moreover have "ct_next_id st' = ?h + 1" using m' by (auto simp: st' meta_create_keyspace_def split: sum.splits)
        ultimately show ?thesis by simp
      qed
    qed
  qed
qed

lemma delete_keyspace_inv:
  assumes E: "env_ok A mc" and inv: "cat_inv A mc st" and run: "delete_keyspace A h st = (r, st')"
  shows "cat_inv A mc st' \<and> ct_next_id st' = ct_next_id st"
proof (cases "db_handles (ct_db st) h")
  case None
  then show ?thesis using run inv by (simp add: delete_keyspace_def)
next
  case (Some ks)
  obtain q st1 where m: "meta_remove_keyspace A (ks_name ks) st = (q, st1)" by fastforce
  note rem = remove_inv [OF E inv m]
  show ?thesis
  proof (cases q)
    case (Inl e)
    then show ?thesis using run Some m rem by (simp add: delete_keyspace_def)
  next
    case (Inr u)
    have st': "st' = st1\<lparr>ct_db := (ct_db st1)\<lparr>db_handles := (db_handles (ct_db st1))(h \<mapsto> ks\<lparr>ks_is_deleted := True\<rparr>)\<rparr>\<rparr>"
      using run Some m Inr by (simp add: delete_keyspace_def)
    have other: "h' \<noteq> h" if n: "db_keyspaces (ct_db st1) n = Some h'" for n h'
    proof
      assume "h' = h"
      have "db_keyspaces (ct_db st) n = Some h'" "n \<noteq> ks_name ks" using n rem(4) Inr by (auto split: if_splits)
      moreover obtain k where "db_handles (ct_db st) h' = Some k" "ks_name k = n" by (rule cat_inv_listed [OF inv calculation(1)])
      ultimately show False using Some \<open>h' = h\<close> by simp
    qed
    have "listed st' = listed st1" by (simp add: listed_def st' fun_eq_iff)
    then have "cat_inv A mc st'"
      using rem(1) other Some rem(3) unfolding cat_inv_def by (auto simp: st')
    then show ?thesis by (simp add: st' rem(2))
  qed
qed

lemma cat_run_inv:
  assumes "env_ok A mc" "cat_inv A mc st" "call_ok c" "ct_next_id st \<noteq> - 1"
  shows "cat_inv A mc (cat_run A c st) \<and> (ct_next_id (cat_run A c st) = ct_next_id st \<or> ct_next_id (cat_run A c st) = ct_next_id st + 1)"
proof (cases c)
  case (OpenCall name opts)
  then show ?thesis
    using raw_keyspace_inv [OF assms(1,2) _ _ assms(4), of name opts] assms(2,3)
    by (cases "raw_keyspace A name opts st") (simp add: database_keyspace_def)
next
  case (OpenRawCall name opts)
  then show ?thesis
    using raw_keyspace_inv [OF assms(1,2) _ _ assms(4), of name opts] assms(3) by (cases "raw_keyspace A name opts st") simp
next
  case (DeleteCall h)
  then show ?thesis using delete_keyspace_inv [OF assms(1,2), of h] by (cases "delete_keyspace A h st") simp
qed

lemma cat_runs_inv:
  assumes "env_ok A mc" "cat_inv A mc st" "list_all call_ok cs" "unat (ct_next_id st) + length cs < 2 ^ 64"
  shows "cat_inv A mc (fold (cat_run A) cs st)"
  using assms(2-)
proof (induction cs arbitrary: st)
  case (Cons c cs)
  have room: "ct_next_id st \<noteq> - 1" using Cons.prems(3) by (auto simp: unat_seqno_max)
  note step = cat_run_inv [OF assms(1) Cons.prems(1) _ room, of c]
  have "unat (ct_next_id (cat_run A c st)) \<le> Suc (unat (ct_next_id st))"
    using step Cons.prems(2) unat_Suc_seqno [OF room] by auto
  then show ?case using Cons.IH [of "cat_run A c st"] step Cons.prems by simp
qed simp

section \<open>Reopening\<close>

text \<open>The folders of a database: every listed keyspace has an initialised one.\<close>

definition folders_of :: "('t, 'w) catalogue \<Rightarrow> dirent list \<Rightarrow> bool" where
  "folders_of st ds \<longleftrightarrow> BadDirName \<notin> set ds \<and> (\<forall>h. listed st h \<longrightarrow> KeyspaceDir h True \<in> set ds \<and> KeyspaceDir h False \<notin> set ds)"

text \<open>The recovery loop after the folders with the ids \<open>D\<close>.\<close>

definition restored :: "('t, 'w) catalogue \<Rightarrow> u64 set \<Rightarrow> ('t, 'w) catalogue \<times> u64 list \<times> u64 \<Rightarrow> bool" where
  "restored st D acc \<longleftrightarrow> (case acc of (st1, removed, highest) \<Rightarrow>
     ct_meta st1 = ct_meta st \<and>
     (\<forall>n h. db_keyspaces (ct_db st1) n = Some h \<longleftrightarrow> db_keyspaces (ct_db st) n = Some h \<and> h \<in> D) \<and>
     (\<forall>h. if listed st h \<and> h \<in> D
        then \<exists>t. db_handles (ct_db st1) h = Some ((the (db_handles (ct_db st) h))\<lparr>ks_tree := t\<rparr>)
        else db_handles (ct_db st1) h = None) \<and>
     set removed = {h \<in> D. h \<noteq> 0 \<and> \<not> listed st h} \<and>
     highest \<in> insert 1 D \<and> 1 \<le> highest \<and> (\<forall>h\<in>D. h \<le> highest))"

fun dir_ids :: "dirent \<Rightarrow> u64 set" where
  "dir_ids (KeyspaceDir h b) = {h}"
| "dir_ids _ = {}"

lemma resolve_listed:
  assumes "env_ok A mc" "cat_inv A mc st"
  shows "db_keyspaces (ct_db st) n = Some h \<Longrightarrow> resolve_id (ca_meta A) h (ct_meta st) = Inr (Some n)"
    and "\<not> listed st h \<Longrightarrow> resolve_id (ca_meta A) h (ct_meta st) = Inr None"
proof -
  have get: "mt_get (ca_meta A) k w = Inr (mc w k)" for k w using assms(1) by (simp add: env_ok_def meta_env_ok_def)
  show "resolve_id (ca_meta A) h (ct_meta st) = Inr None" if "\<not> listed st h"
    using that assms(2) by (simp add: resolve_id_def get cat_inv_def)
  assume "db_keyspaces (ct_db st) n = Some h"
  then have "mc (ct_meta st) (name_key h) = Some (utf8_encode n)" "list_all is_scalar n" using assms(2) by (auto simp: cat_inv_def)
  then show "resolve_id (ca_meta A) h (ct_meta st) = Inr (Some n)" by (simp add: resolve_id_def get utf8_decode_encode)
qed

lemma recover_dirent_restored:
  fixes A :: "('t, 'w, 'c, 'f) catalogue_env"
  assumes E: "env_ok A mc" and inv: "cat_inv A mc st" and opens: "\<And>h o'. \<exists>t. ca_open A h o' = Inr t"
    and ds: "d \<noteq> BadDirName" "\<And>h. listed st h \<Longrightarrow> d \<noteq> KeyspaceDir h False"
    and acc: "restored st D acc"
  shows "\<exists>acc'. recover_dirent A d acc = Inr acc' \<and> restored st (dir_ids d \<union> D) acc'"
proof -
  obtain st1 removed highest where a: "acc = (st1, removed, highest)" by (cases acc)
  note r = acc [unfolded a restored_def prod.case]
  have meta: "ct_meta st1 = ct_meta st" using r by simp
  show ?thesis
  proof (cases d)
    case StrayFile
    then show ?thesis using acc by (simp add: a recover_dirent_def)
  next
    case BadDirName
    then show ?thesis using ds(1) by simp
  next
    case (KeyspaceDir h b)
    have zero: "\<not> listed st 0"
    proof
      assume "listed st 0"
      then obtain n where n: "db_keyspaces (ct_db st) n = Some 0" by (auto simp: listed_def)
      obtain ks where "db_handles (ct_db st) 0 = Some ks" by (rule cat_inv_listed [OF inv n])
      then have "1 \<le> (0 :: u64)" using inv unfolding cat_inv_def by (metis option.distinct(1))
      then show False by simp
    qed
    have max: "max highest h \<in> insert 1 (insert h D) \<and> 1 \<le> max highest h \<and> (\<forall>x\<in>insert h D. x \<le> max highest h)"
      using r by (auto simp: max_def)
    show ?thesis
    proof (cases "listed st h")
      case False
      let ?acc = "if h = 0 then acc else (st1, removed @ [h], max highest h)"
      have run: "recover_dirent A d acc = Inr ?acc"
        using resolve_listed(2) [OF E inv False] meta by (simp add: KeyspaceDir a recover_dirent_def Let_def)
      have ne: "db_keyspaces (ct_db st) n \<noteq> Some h" for n using False by (auto simp: listed_def)
      have "restored st (insert h D) ?acc"
      proof (cases "h = 0")
        case True
        then show ?thesis using r False ne by (auto simp: a restored_def)
      next
        case h: False
        then show ?thesis using r False ne max by (auto simp: restored_def)
      qed
      with run show ?thesis by (auto simp: KeyspaceDir)
    next
      case True
      then obtain n where n: "db_keyspaces (ct_db st) n = Some h" and h: "h \<noteq> 0" using zero by (auto simp: listed_def)
      have b: "b" using ds(2) [OF True] KeyspaceDir by auto
      obtain ks where ks: "db_handles (ct_db st) h = Some ks" "ks_id ks = h" "ks_name ks = n" "\<not> ks_is_deleted ks"
          "stored_options A (mc (ct_meta st)) ks" by (rule cat_inv_listed [OF inv n])
      obtain o' :: "('c, 'f) create_options" where o: "from_kvs (ca_journal A) (ca_compaction A) (config_of (mc (ct_meta st)) h) = Inr o'"
          "co_manual_journal_persist o' = ks_manual_journal_persist ks" "co_max_memtable_size o' = ks_max_memtable_size ks"
        using ks(2,5) by (auto simp: stored_options_def)
      have cfg: "(\<lambda>n. get_kv_for_config (ca_meta A) h n (ct_meta st)) = config_of (mc (ct_meta st)) h"
        using E by (simp add: env_ok_def meta_env_ok_def get_kv_for_config_def config_of_def fun_eq_iff)
      obtain t where t: "ca_open A h (assign_filter A n o') = Inr t" using opens by blast
      let ?db = "(ct_db st1)\<lparr>db_handles := (db_handles (ct_db st1))(h \<mapsto> ks\<lparr>ks_tree := t\<rparr>),
        db_keyspaces := (db_keyspaces (ct_db st1))(n \<mapsto> h)\<rparr>"
      have same: "ks\<lparr>ks_tree := t\<rparr> = \<lparr>ks_id = h, ks_name = n, ks_manual_journal_persist = co_manual_journal_persist o',
          ks_max_memtable_size = co_max_memtable_size o', ks_is_deleted = False, ks_tree = t\<rparr>"
        using ks o by (simp add: keyspace.equality)
      have run: "recover_dirent A d acc = Inr (st1\<lparr>ct_db := ?db\<rparr>, removed, max highest h)"
        using resolve_listed(1) [OF E inv n] h b o(1) t unfolding same
        by (simp add: KeyspaceDir a recover_dirent_def Let_def meta cfg)
      have inj: "db_keyspaces (ct_db st) n' = Some h \<longleftrightarrow> n' = n" for n'
      proof
        assume n': "db_keyspaces (ct_db st) n' = Some h"
        obtain k where "db_handles (ct_db st) h = Some k" "ks_name k = n'" by (rule cat_inv_listed [OF inv n'])
        then show "n' = n" using ks(1,3) by simp
      qed (use n in simp)
      have "restored st (insert h D) (st1\<lparr>ct_db := ?db\<rparr>, removed, max highest h)"
        unfolding restored_def prod.case
      proof (intro conjI)
        show "ct_meta (st1\<lparr>ct_db := ?db\<rparr>) = ct_meta st" using meta by simp
        show "\<forall>n' h'. db_keyspaces (ct_db (st1\<lparr>ct_db := ?db\<rparr>)) n' = Some h' \<longleftrightarrow> db_keyspaces (ct_db st) n' = Some h' \<and> h' \<in> insert h D"
        proof (intro allI)
          fix n' h'
          have old: "db_keyspaces (ct_db st1) n' = Some h' \<longleftrightarrow> db_keyspaces (ct_db st) n' = Some h' \<and> h' \<in> D" using r by blast
          show "db_keyspaces (ct_db (st1\<lparr>ct_db := ?db\<rparr>)) n' = Some h' \<longleftrightarrow> db_keyspaces (ct_db st) n' = Some h' \<and> h' \<in> insert h D"
          proof (cases "n' = n")
            case True
            then show ?thesis using n by auto
          next
            case False
            then show ?thesis using old inj [of n'] by auto
          qed
        qed
        show "\<forall>h'. if listed st h' \<and> h' \<in> insert h D
            then \<exists>t. db_handles (ct_db (st1\<lparr>ct_db := ?db\<rparr>)) h' = Some ((the (db_handles (ct_db st) h'))\<lparr>ks_tree := t\<rparr>)
            else db_handles (ct_db (st1\<lparr>ct_db := ?db\<rparr>)) h' = None"
          using r True ks(1) by auto
        show "set removed = {x \<in> insert h D. x \<noteq> 0 \<and> \<not> listed st x}" using r True by auto
      qed (use max in auto)
      with run show ?thesis by (auto simp: KeyspaceDir)
    qed
  qed
qed

lemma recover_dirents_restored:
  assumes "env_ok A mc" "cat_inv A mc st" "\<And>h o'. \<exists>t. ca_open A h o' = Inr t"
    and "BadDirName \<notin> set ds" "\<And>h. listed st h \<Longrightarrow> KeyspaceDir h False \<notin> set ds" "restored st D acc"
  shows "\<exists>acc'. recover_dirents A ds acc = Inr acc' \<and> restored st (\<Union> (dir_ids ` set ds) \<union> D) acc'"
  using assms(4-)
proof (induction ds arbitrary: D acc)
  case (Cons d ds)
  have "d \<noteq> BadDirName" "\<And>h. listed st h \<Longrightarrow> d \<noteq> KeyspaceDir h False" using Cons.prems(1,2) by auto
  from recover_dirent_restored [OF assms(1-3) this Cons.prems(3)]
  obtain acc1 where a: "recover_dirent A d acc = Inr acc1" "restored st (dir_ids d \<union> D) acc1" by blast
  have "BadDirName \<notin> set ds" "\<And>h. listed st h \<Longrightarrow> KeyspaceDir h False \<notin> set ds" using Cons.prems(1,2) by auto
  from Cons.IH [OF this a(2)] a(1) show ?case by (auto simp: ac_simps)
qed simp

section \<open>Properties\<close>

text \<open>A new database.\<close>

definition catalogue_new :: "'t db \<Rightarrow> 'w \<Rightarrow> ('t, 'w) catalogue" where
  "catalogue_new db w = \<lparr>ct_db = db, ct_meta = w, ct_next_id = 1, ct_lock_poisoned = False\<rparr>"

lemma catalogue_new_inv:
  assumes "db_handles db = (\<lambda>_. None)" "db_keyspaces db = Map.empty" "mc w = Map.empty"
  shows "cat_inv A mc (catalogue_new db w)"
  using assms by (simp add: cat_inv_def catalogue_new_def)


text \<open>A meta keyspace as a list of writes, newest first.\<close>

type_synonym sample_meta = "(bytes \<times> bytes option) list"

definition sample_meta_content :: "sample_meta \<Rightarrow> bytes \<Rightarrow> bytes option" where
  "sample_meta_content w k = (case map_of w k of None \<Rightarrow> None | Some x \<Rightarrow> x)"

definition sample_meta_env :: "sample_meta meta_env" where
  "sample_meta_env = \<lparr>mt_get = (\<lambda>k w. Inr (sample_meta_content w k)),
     mt_prefix_keys = (\<lambda>p w. map Inr (sort (remdups (filter (\<lambda>k. prefix p k \<and> sample_meta_content w k \<noteq> None) (map fst w))))),
     mt_ingest = (\<lambda>kvs w. Inr (kvs @ w)), mt_compact = id\<rparr>"

lemma sample_meta_ok: "meta_env_ok sample_meta_env sample_meta_content"
  unfolding meta_env_ok_def
proof (intro conjI allI impI)
  fix p :: bytes and w :: sample_meta
  let ?ks = "sort (remdups (filter (\<lambda>k. prefix p k \<and> sample_meta_content w k \<noteq> None) (map fst w)))"
  have "k \<in> fst ` set w" if "sample_meta_content w k \<noteq> None" for k
    using that by (auto simp: sample_meta_content_def split: option.splits dest: map_of_SomeD intro!: rev_image_eqI)
  then have "\<forall>k. k \<in> set ?ks \<longleftrightarrow> prefix p k \<and> sample_meta_content w k \<noteq> None" by auto
  moreover have "sorted_wrt (<) ?ks" by (simp add: strict_sorted_iff)
  moreover have "mt_prefix_keys sample_meta_env p w = map Inr ?ks" by (simp add: sample_meta_env_def)
  ultimately show "\<exists>ks. mt_prefix_keys sample_meta_env p w = map Inr ks \<and> sorted_wrt (<) ks \<and>
      (\<forall>k. k \<in> set ks \<longleftrightarrow> prefix p k \<and> sample_meta_content w k \<noteq> None)" by blast
next
  fix kvs w w' assume "mt_ingest sample_meta_env kvs w = Inr w'"
  then have "w' = kvs @ w" by (simp add: sample_meta_env_def)
  then show "sample_meta_content w' = (\<lambda>k. case map_of kvs k of None \<Rightarrow> sample_meta_content w k | Some x \<Rightarrow> x)"
    by (auto simp: sample_meta_content_def fun_eq_iff map_add_def split: option.split)
qed (simp_all add: sample_meta_env_def)

definition sample_catalogue :: "(ref_tree, sample_meta, sample_strategy, nat) catalogue_env" where
  "sample_catalogue = \<lparr>ca_journal = sample_env, ca_meta = sample_meta_env, ca_compaction = sample_compaction,
     ca_create = (\<lambda>_ _. Inr []), ca_open = (\<lambda>_ _. Inr []), ca_assigner = (\<lambda>_. None)\<rparr>"

lemma sample_catalogue_ok: "env_ok sample_catalogue sample_meta_content"
  by (simp add: env_ok_def sample_catalogue_def sample_env_ok sample_compaction_ok sample_meta_ok)

definition empty_db :: "ref_tree db" where
  "empty_db = \<lparr>db_handles = (\<lambda>_. None), db_keyspaces = Map.empty, db_seqno = 0, db_is_poisoned = False,
     db_journal = writer_create_new, db_tracker = tracker_new 0, db_write_buffer_size = 0, db_messages = [],
     db_manual_journal_persist = False\<rparr>"

abbreviation sample_options :: "(sample_strategy, nat) create_options" where
  "sample_options \<equiv> create_options_default sample_compaction"

lemma sample_creation: "\<exists>kvs. creation_kvs sample_env sample_compaction h name sample_options = Inr kvs"
  by (simp add: creation_kvs_def encode_kvs_def create_options_default_def sample_compaction_def)

lemma sample_open:
  assumes "is_valid_keyspace_name name" "\<not> is_reserved_raw_keyspace_name name" "\<not> ct_lock_poisoned st"
    and "db_keyspaces (ct_db st) name = None"
  shows "db_keyspaces (ct_db (cat_run sample_catalogue (OpenCall name sample_options) st)) =
      (db_keyspaces (ct_db st))(name \<mapsto> ct_next_id st)"
proof -
  obtain kvs where "creation_kvs sample_env sample_compaction (ct_next_id st) name sample_options = Inr kvs"
    using sample_creation by blast
  then show ?thesis
    using assms by (simp add: database_keyspace_def raw_keyspace_def assign_filter_def sample_catalogue_def
        keyspace_create_new_def meta_create_keyspace_def sample_meta_env_def Let_def)
qed


end
