(* ===== verification/Spec2Isabelle.thy ===== *)
theory Spec2Isabelle
  imports Journal SecureTx Catalogue
begin

text \<open>
  Verification development for the key-value store under \<open>src/src\<close>: a log-structured
  storage engine front end (journal, keyspaces, snapshots, transactions) with a layer of
  secure keyspaces (versioned cells, visibility expressions, value encryption, permissions,
  retention and audit) on top.

  Plan of the theories:
  \<^item> \<open>Prelude\<close>: machine types, errors, results, integer codecs, byte order, UTF-8.
\<close>

end
